(* ===== verification/Prelude.thy ===== *)
theory Prelude
  imports Main "HOL-Library.Word"
begin

text \<open>
  Shared vocabulary of the development: names for the C integer types the kernel uses, the
  shape of its counting loops, the trace of port writes, and the lemmas on loops, words and
  array updates that the component theories use. \<open>ck_spec\<close> collects the facts that describe
  what one operation does to the abstraction of its component; \<open>ck_word\<close> collects the
  conversions from machine words to natural numbers.
\<close>

unbundle bit_operations_syntax

named_theorems ck_spec "abstraction of an operation of a component"
named_theorems ck_word "conversions from machine words to natural numbers"

section \<open>Types of the C code\<close>

type_synonym u8 = "8 word"
type_synonym u16 = "16 word"
type_synonym u32 = "32 word"

text \<open>
  A static C array is a function from indices; the theorems of each component show which
  indices its operations touch. A port write \<^verbatim>\<open>outb value, port\<close> is one entry of a trace.
\<close>

type_synonym 'a carray = "nat \<Rightarrow> 'a"

datatype port_io = Outb u16 u8

section \<open>Counting loops\<close>

text \<open>
  \<^verbatim>\<open>for (i = lo; i < hi; i++) body\<close> with a body that never leaves the loop early is
  \<open>for_loop lo hi body\<close>.
\<close>

definition for_loop :: "nat \<Rightarrow> nat \<Rightarrow> (nat \<Rightarrow> 's \<Rightarrow> 's) \<Rightarrow> 's \<Rightarrow> 's" where
  "for_loop lo hi body s = fold body [lo..<hi] s"

section \<open>Lemmas on loops\<close>

lemma for_loop_empty [simp]: "hi \<le> lo \<Longrightarrow> for_loop lo hi body s = s"
  by (simp add: for_loop_def)

lemma for_loop_Suc: "lo \<le> hi \<Longrightarrow> for_loop lo (Suc hi) body s = body hi (for_loop lo hi body s)"
  by (simp add: for_loop_def)

lemma for_loop_unroll: "lo < hi \<Longrightarrow> for_loop lo hi body s = for_loop (Suc lo) hi body (body lo s)"
  by (simp add: for_loop_def upt_conv_Cons)

lemma for_loop_split:
  "lo \<le> mid \<Longrightarrow> mid \<le> hi \<Longrightarrow> for_loop lo hi body s = for_loop mid hi body (for_loop lo mid body s)"
  unfolding for_loop_def
  by (metis fold_append comp_apply le_Suc_ex upt_add_eq_append)

text \<open>The invariant rule of a counting loop.\<close>

lemma for_loop_inv:
  assumes "lo \<le> hi" and "P lo s"
    and "\<And>i t. lo \<le> i \<Longrightarrow> i < hi \<Longrightarrow> P i t \<Longrightarrow> P (Suc i) (body i t)"
  shows "P hi (for_loop lo hi body s)"
  using assms
proof (induction hi)
  case 0
  then show ?case by simp
next
  case (Suc hi)
  show ?case
  proof (cases "lo = Suc hi")
    case True
    with Suc.prems show ?thesis by simp
  next
    case False
    with Suc.prems(1) have "lo \<le> hi" by simp
    then have "P hi (for_loop lo hi body s)"
      using Suc.prems by (intro Suc.IH) auto
    with \<open>lo \<le> hi\<close> show ?thesis
      using Suc.prems(3) [of hi "for_loop lo hi body s"] by (simp add: for_loop_Suc)
  qed
qed

lemma for_loop_const_inv:
  assumes "P s" and "\<And>i t. lo \<le> i \<Longrightarrow> i < hi \<Longrightarrow> P t \<Longrightarrow> P (body i t)"
  shows "P (for_loop lo hi body s)"
proof (cases "lo \<le> hi")
  case True
  then show ?thesis using assms by (rule for_loop_inv [where P = "\<lambda>_. P"])
next
  case False
  with assms(1) show ?thesis by simp
qed

text \<open>A loop that fills a slice of an array.\<close>

lemma for_loop_fill:
  "for_loop lo hi (\<lambda>i a. a(i := g i)) a = (\<lambda>x. if lo \<le> x \<and> x < hi then g x else a x)"
proof (cases "lo \<le> hi")
  case True
  then show ?thesis
    by (rule for_loop_inv [where P = "\<lambda>k t. t = (\<lambda>x. if lo \<le> x \<and> x < k then g x else a x)"])
      (auto simp: fun_eq_iff)
qed (auto simp: fun_eq_iff)

section \<open>Lemmas on words\<close>

lemma unat_of_nat_u32 [ck_word]: "n < 4294967296 \<Longrightarrow> unat (of_nat n :: u32) = n"
  by (simp add: unsigned_of_nat take_bit_nat_eq_self)

lemma unat_add_u32:
  "unat (a :: u32) + unat b < 4294967296 \<Longrightarrow> unat (a + b) = unat a + unat b"
  using unat_add_lem [of a b] by simp

lemma unat_u32_less: "unat (a :: u32) < 4294967296"
  using unsigned_less [of a] by simp

lemma u32_le_unat [ck_word]: "(a :: u32) \<le> b \<longleftrightarrow> unat a \<le> unat b"
  by (rule word_le_nat_alt)

lemma u32_less_unat [ck_word]: "(a :: u32) < b \<longleftrightarrow> unat a < unat b"
  by (rule word_less_nat_alt)

lemma unat_Suc_u32: "unat (a :: u32) < 4294967295 \<Longrightarrow> unat (a + 1) = Suc (unat a)"
  by (subst unat_add_u32) auto

lemma unat_pred_u32: "0 < unat (a :: u32) \<Longrightarrow> unat (a - 1) = unat a - 1"
  by (subst unat_sub) (auto simp: u32_le_unat)

lemma bit_two_power_u8: "bit (2 ^ m :: u8) n \<longleftrightarrow> m = n \<and> n < 8"
  by (auto simp: bit_exp_iff)

lemma ucast_and_1_eq_0: "(ucast (w :: u8) :: u32) AND 1 = 0 \<longleftrightarrow> \<not> bit w 0"
proof -
  have "bit (ucast w :: u32) 0 \<longleftrightarrow> bit w 0" by (simp only: bit_ucast_iff) simp
  then show ?thesis by (simp add: and_one_eq mod2_eq_if bit_0)
qed

lemma div_mod_eq_iff: "(x :: nat) = y \<longleftrightarrow> x div k = y div k \<and> x mod k = y mod k"
  by (metis div_mult_mod_eq)

lemma unat_diff_u32:
  "unat ((a :: u32) - b) = (if unat b \<le> unat a then unat a - unat b else unat a + 4294967296 - unat b)"
  by (simp add: unat_sub_if_size word_size)

lemma unat_u16_less: "unat (a :: u16) < 65536"
  using unsigned_less [of a] by simp

lemma unat_Suc_u16: "unat (a :: u16) < 65535 \<Longrightarrow> unat (a + 1) = Suc (unat a)"
  using unat_add_lem [of a 1] by simp

lemma unat_u8_less: "unat (a :: u8) < 256"
  using unsigned_less [of a] by simp

lemma unat_of_nat_u8 [ck_word]: "n < 256 \<Longrightarrow> unat (of_nat n :: u8) = n"
  by (simp add: unsigned_of_nat take_bit_nat_eq_self)

lemma unat_of_nat_u16 [ck_word]: "n < 65536 \<Longrightarrow> unat (of_nat n :: u16) = n"
  by (simp add: unsigned_of_nat take_bit_nat_eq_self)

end
