(* ===== verification/Screen.thy ===== *)
theory Screen
  imports Prelude
begin

text \<open>
  The VGA text buffer at 0xB8000 as an array of 16-bit cells (colour in the high byte, character in
  the low byte) of which the first 2000 are visible, and the way the boot code and the exception
  code append text to it: a character at the cursor while the cursor is inside the screen. The
  screen shared by \<^verbatim>\<open>ck_kernel.c\<close>, \<^verbatim>\<open>exceptions.c\<close>, \<^verbatim>\<open>shell.c\<close> and \<^verbatim>\<open>visualizer.c\<close> is one value of this type; each
  file has its own cursor.
\<close>

type_synonym vga = "u16 carray"

abbreviation VGA_WIDTH :: nat where "VGA_WIDTH \<equiv> 80"
abbreviation VGA_HEIGHT :: nat where "VGA_HEIGHT \<equiv> 25"
abbreviation VGA_MEMSIZE :: nat where "VGA_MEMSIZE \<equiv> 2000"

text \<open>\<^verbatim>\<open>(color << 8) | (unsigned char)c\<close>\<close>

definition vga_cell :: "u8 \<Rightarrow> char \<Rightarrow> u16" where
  "vga_cell color c = push_bit 8 (ucast color) OR ucast (of_char c :: u8)"

text \<open>
  \<^verbatim>\<open>(color << 8) | c\<close> with a \<^verbatim>\<open>char\<close>, which is signed on this target: a character from 128 on would set the
  colour byte. The two agree on ASCII characters.
\<close>

definition schar_cell :: "u8 \<Rightarrow> char \<Rightarrow> u16" where
  "schar_cell color c = push_bit 8 (ucast color) OR scast (of_char c :: u8)"

lemma schar_cell_ascii:
  assumes "(of_char c :: nat) < 128"
  shows "schar_cell color c = vga_cell color c"
proof -
  have "(of_char c :: u8) = of_nat (of_char c)" by (simp only: of_nat_of_char)
  moreover have "take_bit 8 (of_char c :: nat) = of_char c" using assms by (intro take_bit_nat_eq_self) simp
  ultimately have "unat (of_char c :: u8) = of_char c" by (simp add: unsigned_of_nat)
  then have "\<not> bit (unat (of_char c :: u8)) 7" using assms by (simp add: bit_iff_odd)
  then have "\<not> bit (of_char c :: u8) 7" by (simp add: bit_unsigned_iff)
  then have "scast (of_char c :: u8) = (ucast (of_char c :: u8) :: u16)"
  proof (intro bit_word_eqI)
    fix n
    assume "n < LENGTH(16)"
    have "n \<le> 7" if "bit (of_char c :: u8) n" using bit_imp_le_length [OF that] by simp
    then show "bit (scast (of_char c :: u8) :: u16) n = bit (ucast (of_char c :: u8) :: u16) n"
      using \<open>\<not> bit (of_char c :: u8) 7\<close> \<open>n < LENGTH(16)\<close> by (auto simp: bit_simps min_def split: if_splits)
  qed
  then show ?thesis by (simp add: schar_cell_def vga_cell_def)
qed

section \<open>Appending without scrolling\<close>

text \<open>A cursor (as a number) and the cells.\<close>

type_synonym console = "u16 \<times> vga"

definition put_clipped :: "u8 \<Rightarrow> char \<Rightarrow> console \<Rightarrow> console" where
  "put_clipped color c = (\<lambda>(cursor, cells).
     if cursor \<ge> 2000 then (cursor, cells)
     else (cursor + 1, cells(unat cursor := vga_cell color c)))"

fun puts_clipped :: "u8 \<Rightarrow> string \<Rightarrow> console \<Rightarrow> console" where
  "puts_clipped color [] con = con"
| "puts_clipped color (c # cs) con = puts_clipped color cs (put_clipped color c con)"

lemma puts_clipped_append:
  "puts_clipped color (xs @ ys) con = puts_clipped color ys (puts_clipped color xs con)"
  by (induction xs arbitrary: con) auto

text \<open>What appending a string does, cell by cell.\<close>

lemma puts_clipped_spec:
  assumes "unat cursor \<le> VGA_MEMSIZE"
  shows "unat (fst (puts_clipped color cs (cursor, cells))) = min VGA_MEMSIZE (unat cursor + length cs) \<and>
    (\<forall>i. snd (puts_clipped color cs (cursor, cells)) i =
      (if unat cursor \<le> i \<and> i < min VGA_MEMSIZE (unat cursor + length cs)
       then vga_cell color (cs ! (i - unat cursor)) else cells i))"
  using assms
proof (induction cs arbitrary: cursor cells)
  case Nil
  then show ?case by auto
next
  case (Cons c cs)
  show ?case
  proof (cases "unat cursor < VGA_MEMSIZE")
    case True
    then have n: "unat (cursor + 1) = Suc (unat cursor)" by (simp add: unat_Suc_u16)
    define cells' where "cells' = cells(unat cursor := vga_cell color c)"
    obtain cursor2 cells2 where r: "puts_clipped color cs (cursor + 1, cells') = (cursor2, cells2)"
      by fastforce
    have "puts_clipped color (c # cs) (cursor, cells) = (cursor2, cells2)"
      using True r by (simp add: put_clipped_def word_le_nat_alt cells'_def)
    moreover have "unat cursor2 = min VGA_MEMSIZE (Suc (unat cursor) + length cs)"
      "cells2 i = (if Suc (unat cursor) \<le> i \<and> i < min VGA_MEMSIZE (Suc (unat cursor) + length cs)
        then vga_cell color (cs ! (i - Suc (unat cursor))) else cells' i)" for i
      using Cons.IH [of "cursor + 1" cells'] True unfolding r n by simp_all
    ultimately show ?thesis
      using True by (auto simp: nth_Cons' cells'_def)
  next
    case False
    with Cons.prems have "put_clipped color c (cursor, cells) = (cursor, cells)"
      by (simp add: put_clipped_def word_le_nat_alt)
    with Cons.IH [of cursor cells] Cons.prems False show ?thesis by auto
  qed
qed

text \<open>The cell at a row and a column.\<close>

lemma cell_eq_iff: "c < VGA_WIDTH \<Longrightarrow> i = r * VGA_WIDTH + c \<longleftrightarrow> i div VGA_WIDTH = r \<and> i mod VGA_WIDTH = c"
  using div_mult_mod_eq [of i VGA_WIDTH] by auto

end
