(* ===== verification/Numbers.thy ===== *)
theory Numbers
  imports Prelude
begin

text \<open>
  Decimal output. The kernel has three routines for it: \<^verbatim>\<open>ck_vga_write_number\<close> and the status line of
  \<^verbatim>\<open>shell.c\<close> collect digits from the low end and print them backwards, \<^verbatim>\<open>vga_write_uint32\<close> of
  \<^verbatim>\<open>visualizer.c\<close> divides by powers of ten from the high end. All of them are compared with one
  reference, the usual decimal representation.
\<close>

section \<open>The routines\<close>

text \<open>\<^verbatim>\<open>'0' + digit\<close>\<close>

definition digit_char :: "nat \<Rightarrow> char" where
  "digit_char d = char_of (48 + d)"

text \<open>The loop \<^verbatim>\<open>while (n > 0) { buf[len++] = '0' + (n % 10); n /= 10; }\<close>: the contents of the buffer.\<close>

function number_buf :: "u32 \<Rightarrow> string" where
  "number_buf n = (if n > 0 then digit_char (unat (n mod 10)) # number_buf (n div 10) else [])"
  by pat_completeness auto
termination
  by (relation "measure unat") (auto simp: unat_div word_less_nat_alt)

declare number_buf.simps [simp del]

text \<open>What \<^verbatim>\<open>ck_vga_write_number\<close> prints.\<close>

definition write_number_text :: "u32 \<Rightarrow> string" where
  "write_number_text num = (if num = 0 then ''0'' else rev (number_buf num))"

text \<open>The loop of \<^verbatim>\<open>vga_write_uint32\<close>, and the buffer it leaves.\<close>

function uint32_loop :: "u32 \<Rightarrow> u32 \<Rightarrow> bool \<Rightarrow> string" where
  "uint32_loop num dv started =
     (if dv > 0 then
        let digit = (num div dv) mod 10 in
        if digit \<noteq> 0 \<or> started then digit_char (unat digit) # uint32_loop num (dv div 10) True
        else uint32_loop num (dv div 10) started
      else [])"
  by pat_completeness auto
termination
  by (relation "measure (\<lambda>(num, dv, started). unat dv)") (auto simp: unat_div word_less_nat_alt)

declare uint32_loop.simps [simp del]

definition write_uint32_text :: "u32 \<Rightarrow> string" where
  "write_uint32_text num = (if num = 0 then ''0'' else uint32_loop num 1000000000 False)"

section \<open>The reference\<close>

fun decimal :: "nat \<Rightarrow> string" where
  "decimal n = (if n < 10 then [digit_char n] else decimal (n div 10) @ [digit_char (n mod 10)])"

declare decimal.simps [simp del]

definition decimal_value :: "string \<Rightarrow> nat" where
  "decimal_value ds = foldl (\<lambda>n c. 10 * n + (of_char c - 48)) 0 ds"

lemma of_char_digit: "d < 10 \<Longrightarrow> (of_char (digit_char d) :: nat) = 48 + d"
  by (simp add: digit_char_def)

lemma decimal_value_decimal: "decimal_value (decimal n) = n"
proof (induction n rule: decimal.induct)
  case (1 n)
  show ?case
  proof (cases "n < 10")
    case True
    then show ?thesis by (simp add: decimal.simps decimal_value_def of_char_digit)
  next
    case False
    then have "decimal_value (decimal n) = 10 * decimal_value (decimal (n div 10)) + n mod 10"
      by (subst decimal.simps) (simp add: decimal_value_def of_char_digit)
    with 1 False show ?thesis by simp
  qed
qed

lemma length_decimal: "n < 10 ^ Suc k \<Longrightarrow> length (decimal n) \<le> Suc k"
proof (induction k arbitrary: n)
  case 0
  then show ?case by (simp add: decimal.simps)
next
  case (Suc k)
  show ?case
  proof (cases "n < 10")
    case False
    have "n div 10 < 10 ^ Suc k" using Suc.prems by (simp add: less_mult_imp_div_less)
    with Suc.IH [of "n div 10"] False show ?thesis by (subst decimal.simps) simp
  qed (simp add: decimal.simps)
qed

lemma digit_char_0: "digit_char 0 = CHR ''0''"
  by code_simp

section \<open>The low-end routine\<close>

lemma unat_div_10: "unat ((n :: u32) div 10) = unat n div 10" and unat_mod_10: "unat ((n :: u32) mod 10) = unat n mod 10"
  by (simp_all add: unat_div unat_mod)

lemma rev_number_buf: "n \<noteq> 0 \<Longrightarrow> rev (number_buf n) = decimal (unat n)"
proof (induction n rule: number_buf.induct)
  case (1 n)
  then have pos: "n > 0" by (simp add: word_gt_0)
  show ?case
  proof (cases "unat n < 10")
    case True
    then have "n div 10 = 0" by (simp add: word_unat_eq_iff unat_div_10)
    with True pos show ?thesis
      by (simp add: number_buf.simps [of n] number_buf.simps [of 0] decimal.simps unat_mod_10)
  next
    case False
    then have "n div 10 \<noteq> 0" by (auto simp: word_unat_eq_iff unat_div_10)
    with 1 pos False show ?thesis
      by (subst number_buf.simps, subst decimal.simps) (simp add: unat_div_10 unat_mod_10)
  qed
qed

lemma write_number_decimal: "write_number_text num = decimal (unat num)"
  by (simp add: write_number_text_def rev_number_buf decimal.simps [of 0] digit_char_0)

section \<open>The high-end routine\<close>

text \<open>The lowest \<open>k\<close> digits of \<open>n\<close>, leading zeros included.\<close>

fun low_digits :: "nat \<Rightarrow> nat \<Rightarrow> string" where
  "low_digits 0 n = []"
| "low_digits (Suc k) n = digit_char (n div 10 ^ k mod 10) # low_digits k n"

lemma low_digits_snoc: "low_digits (Suc k) n = low_digits k (n div 10) @ [digit_char (n mod 10)]"
  by (induction k) (simp_all add: div_mult2_eq [symmetric] mult.commute)

lemma decimal_low_digits: "10 ^ k \<le> n \<Longrightarrow> n < 10 ^ Suc k \<Longrightarrow> decimal n = low_digits (Suc k) n"
proof (induction k arbitrary: n)
  case 0
  then show ?case by (simp add: decimal.simps)
next
  case (Suc k)
  then have "10 ^ k \<le> n div 10" "n div 10 < 10 ^ Suc k"
    by (simp_all add: less_eq_div_iff_mult_less_eq less_mult_imp_div_less mult.commute)
  moreover have "10 * 10 ^ k \<ge> (10 :: nat)" by simp
  with Suc.prems(1) have "\<not> n < 10" by (metis leD order.trans power_Suc)
  ultimately show ?case
    using Suc.IH [of "n div 10"] by (subst decimal.simps, subst low_digits_snoc) simp
qed

lemma unat_pow10: "k \<le> 9 \<Longrightarrow> unat (10 ^ k :: u32) = 10 ^ k"
proof -
  assume "k \<le> 9"
  then have "(10 :: nat) ^ k \<le> 10 ^ 9" by (intro power_increasing) auto
  then have "(10 :: nat) ^ k < 4294967296" by simp
  then show ?thesis using unat_of_nat_u32 [of "10 ^ k"] by simp
qed

lemma uint32_step:
  assumes "k \<le> 9"
  shows "unat (num div 10 ^ k mod 10 :: u32) = unat num div 10 ^ k mod 10"
    and "(10 ^ k :: u32) > 0"
    and "(10 ^ k :: u32) div 10 = (if k = 0 then 0 else 10 ^ (k - 1))"
proof -
  show "unat (num div 10 ^ k mod 10 :: u32) = unat num div 10 ^ k mod 10"
    by (simp only: unat_mod_10 unat_div unat_pow10 [OF assms])
  show "(10 ^ k :: u32) > 0" by (simp add: word_less_nat_alt unat_pow10 [OF assms])
  show "(10 ^ k :: u32) div 10 = (if k = 0 then 0 else 10 ^ (k - 1))"
    using assms by (cases k) (simp_all add: word_unat_eq_iff unat_div_10 unat_pow10 del: power_Suc, simp)
qed

lemma uint32_loop_end: "uint32_loop num 0 st = []"
  by (simp add: uint32_loop.simps)

lemma uint32_loop_unfold:
  assumes "k \<le> 9"
  shows "uint32_loop num (10 ^ k) st =
    (let rest = (\<lambda>st. if k = 0 then [] else uint32_loop num (10 ^ (k - 1)) st) in
     if unat num div 10 ^ k mod 10 \<noteq> 0 \<or> st
     then digit_char (unat num div 10 ^ k mod 10) # rest True else rest st)"
proof -
  have d: "num div 10 ^ k mod 10 = 0 \<longleftrightarrow> unat num div 10 ^ k mod 10 = 0"
    using uint32_step(1) [OF assms, of num] by (metis unat_eq_0)
  show ?thesis
    by (subst uint32_loop.simps) (simp add: Let_def uint32_step [OF assms] d uint32_loop_end)
qed

lemma uint32_loop_started: "k \<le> 9 \<Longrightarrow> uint32_loop num (10 ^ k) True = low_digits (Suc k) (unat num)"
proof (induction k)
  case 0
  then show ?case using uint32_loop_unfold [of 0 num True] by simp
next
  case (Suc k)
  then show ?case by (subst uint32_loop_unfold) simp_all
qed

lemma uint32_loop_leading:
  "k \<le> 9 \<Longrightarrow> unat num < 10 ^ Suc k \<Longrightarrow> num \<noteq> 0 \<Longrightarrow> uint32_loop num (10 ^ k) False = decimal (unat num)"
proof (induction k)
  case 0
  then have "unat num \<noteq> 0" by (simp add: unat_eq_0)
  with 0 show ?case by (subst uint32_loop_unfold) (simp_all add: decimal.simps)
next
  case (Suc k)
  show ?case
  proof (cases "unat num < 10 ^ Suc k")
    case True
    with Suc show ?thesis by (subst uint32_loop_unfold) simp_all
  next
    case False
    then have "1 \<le> unat num div 10 ^ Suc k" by (simp add: less_eq_div_iff_mult_less_eq)
    moreover have "unat num div 10 ^ Suc k < 10" using Suc.prems(2) by (simp add: less_mult_imp_div_less)
    ultimately have "unat num div 10 ^ Suc k mod 10 \<noteq> 0" by simp
    then have "uint32_loop num (10 ^ Suc k) False = low_digits (Suc (Suc k)) (unat num)"
      using Suc.prems(1) uint32_loop_started [of k num] by (subst uint32_loop_unfold) simp_all
    moreover have "decimal (unat num) = low_digits (Suc (Suc k)) (unat num)"
      using False Suc.prems(2) by (intro decimal_low_digits) simp_all
    ultimately show ?thesis by simp
  qed
qed

lemma write_uint32_decimal: "write_uint32_text num = decimal (unat num)"
proof (cases "num = 0")
  case True
  then show ?thesis by (simp add: write_uint32_text_def decimal.simps [of 0] digit_char_0)
next
  case False
  have "unat num < 10 ^ Suc 9" using unat_u32_less [of num] by simp
  with False uint32_loop_leading [of 9 num] show ?thesis by (simp add: write_uint32_text_def)
qed

lemma length_decimal_u32: "length (decimal (unat (num :: u32))) \<le> 10"
  using length_decimal [of "unat num" 9] unat_u32_less [of num] by simp

text \<open>
  C32: the two number formatters agree. For every 32-bit number the routine of the shell and the routine
  of the monitor print the same text, the decimal representation, from which the number can be read
  back; the text has at most 10 characters, so neither the 16-byte buffer of the one nor the 12-byte
  buffer of the other (with its terminating NUL) overflows.
\<close>

theorem number_formatters_agree:
  "write_number_text num = write_uint32_text num \<and> decimal_value (write_number_text num) = unat num \<and>
   length (number_buf num) \<le> 10 \<and> length (write_uint32_text num) + 1 \<le> 12"
proof -
  have "length (number_buf num) \<le> 10"
  proof (cases "num = 0")
    case False
    then have "length (number_buf num) = length (decimal (unat num))"
      by (metis rev_number_buf length_rev)
    then show ?thesis by (simp add: length_decimal_u32)
  qed (simp add: number_buf.simps)
  moreover have "length (write_uint32_text num) \<le> 10" by (simp add: write_uint32_decimal length_decimal_u32)
  ultimately show ?thesis
    by (simp add: write_number_decimal write_uint32_decimal decimal_value_decimal)
qed

end
