(* ===== verification/Terminal.thy ===== *)
theory Terminal
  imports Screen Numbers
begin

text \<open>
  The terminal of the shell, the \<^verbatim>\<open>ck_vga_\<close> functions of \<^verbatim>\<open>src/src/kernel/shell.c\<close>: text output at a
  cursor with scrolling, and the position of the hardware cursor, which the code sets through the ports
  of the VGA controller. The trace of port writes is part of the state.
\<close>

section \<open>State and operations\<close>

abbreviation COLOR_WHITE :: u8 where "COLOR_WHITE \<equiv> 0x0F"
abbreviation COLOR_GREEN :: u8 where "COLOR_GREEN \<equiv> 0x0A"
abbreviation COLOR_YELLOW :: u8 where "COLOR_YELLOW \<equiv> 0x0E"
abbreviation COLOR_RED :: u8 where "COLOR_RED \<equiv> 0x0C"

record terminal =
  cells :: vga
  ports :: "port_io list"
  ck_cursor_pos :: u16

text \<open>\<^verbatim>\<open>(COLOR_WHITE << 8) | 0x20\<close>\<close>

abbreviation blank :: u16 where "blank \<equiv> vga_cell COLOR_WHITE CHR '' ''"

definition ck_vga_update_hw_cursor :: "terminal \<Rightarrow> terminal" where
  "ck_vga_update_hw_cursor t =
     (let pos = ck_cursor_pos t in
      t\<lparr>ports := ports t @ [Outb 0x3D4 0x0F, Outb 0x3D5 (ucast (pos AND 0xFF)),
         Outb 0x3D4 0x0E, Outb 0x3D5 (ucast (drop_bit 8 pos AND 0xFF))]\<rparr>)"

definition ck_vga_clear_line :: "nat \<Rightarrow> vga \<Rightarrow> vga" where
  "ck_vga_clear_line line v =
     (let start = line * VGA_WIDTH; stop = start + VGA_WIDTH
      in for_loop start stop (\<lambda>i v. v(i := blank)) v)"

definition vga_scroll :: "vga \<Rightarrow> vga" where
  "vga_scroll v = ck_vga_clear_line 24 (for_loop 0 (24 * VGA_WIDTH) (\<lambda>i v. v(i := v (i + VGA_WIDTH))) v)"

definition ck_vga_write_char :: "char \<Rightarrow> u8 \<Rightarrow> terminal \<Rightarrow> terminal" where
  "ck_vga_write_char c color t =
     (let t1 = (if ck_cursor_pos t \<ge> 25 * 80
                then t\<lparr>cells := vga_scroll (cells t), ck_cursor_pos := 24 * 80\<rparr> else t);
          t2 = t1\<lparr>cells := (cells t1)(unat (ck_cursor_pos t1) := vga_cell color c),
                  ck_cursor_pos := ck_cursor_pos t1 + 1\<rparr>
      in ck_vga_update_hw_cursor t2)"

text \<open>\<^verbatim>\<open>(ck_cursor_pos / VGA_WIDTH + 1) * VGA_WIDTH\<close>, computed in \<^verbatim>\<open>int\<close> and stored in 16 bits.\<close>

definition next_line :: "u16 \<Rightarrow> u16" where
  "next_line pos = of_nat ((unat pos div VGA_WIDTH + 1) * VGA_WIDTH)"

definition ck_vga_newline :: "terminal \<Rightarrow> terminal" where
  "ck_vga_newline t = ck_vga_update_hw_cursor (t\<lparr>ck_cursor_pos := next_line (ck_cursor_pos t)\<rparr>)"

fun ck_vga_write_string :: "string \<Rightarrow> u8 \<Rightarrow> terminal \<Rightarrow> terminal" where
  "ck_vga_write_string [] color t = t"
| "ck_vga_write_string (c # s) color t =
     ck_vga_write_string s color
       (if c = CHR 0x0A
        then ck_vga_update_hw_cursor (t\<lparr>ck_cursor_pos := next_line (ck_cursor_pos t)\<rparr>)
        else ck_vga_write_char c color t)"

definition ck_vga_write_number :: "u32 \<Rightarrow> u8 \<Rightarrow> terminal \<Rightarrow> terminal" where
  "ck_vga_write_number num color t =
     (if num = 0 then ck_vga_write_char CHR ''0'' color t
      else fold (\<lambda>c. ck_vga_write_char c color) (rev (number_buf num)) t)"

definition ck_vga_clear_screen :: "terminal \<Rightarrow> terminal" where
  "ck_vga_clear_screen t =
     ck_vga_update_hw_cursor (t\<lparr>cells := for_loop 0 (25 * VGA_WIDTH) (\<lambda>i v. v(i := blank)) (cells t),
       ck_cursor_pos := 0\<rparr>)"

section \<open>The hardware cursor\<close>

text \<open>
  What the VGA controller holds after a sequence of port writes: the selected register, and the two
  registers of the cursor position.
\<close>

definition crtc_write :: "port_io \<Rightarrow> u8 \<times> u8 \<times> u8 \<Rightarrow> u8 \<times> u8 \<times> u8" where
  "crtc_write io = (\<lambda>(index, high, low). case io of Outb port v \<Rightarrow>
     if port = 0x3D4 then (v, high, low)
     else if port = 0x3D5 then (index, if index = 0x0E then v else high, if index = 0x0F then v else low)
     else (index, high, low))"

definition hw_cursor :: "port_io list \<Rightarrow> u16" where
  "hw_cursor ios = (case fold crtc_write ios (0, 0, 0) of (index, high, low) \<Rightarrow>
     push_bit 8 (ucast high) OR ucast low)"

definition cursor_synced :: "terminal \<Rightarrow> bool" where
  "cursor_synced t \<longleftrightarrow> hw_cursor (ports t) = ck_cursor_pos t"

lemma split_bytes_u16: "push_bit 8 (ucast (ucast (drop_bit 8 pos AND 0xFF) :: u8)) OR ucast (ucast (pos AND 0xFF) :: u8) = (pos :: u16)"
proof -
  have m: "(0xFF :: u16) = mask 8" by (simp add: mask_eq_exp_minus_1)
  show ?thesis
    unfolding m by (rule bit_word_eqI) (auto simp: bit_simps dest: bit_imp_le_length)
qed

lemma hw_cursor_update: "hw_cursor (ios @ [Outb 0x3D4 0x0F, Outb 0x3D5 (ucast (pos AND 0xFF)),
    Outb 0x3D4 0x0E, Outb 0x3D5 (ucast (drop_bit 8 pos AND 0xFF))]) = pos"
proof -
  obtain index high low where "fold crtc_write ios (0, 0, 0) = (index, high, low)" by (cases "fold crtc_write ios (0, 0, 0)") auto
  then show ?thesis using split_bytes_u16 [of pos] by (simp add: hw_cursor_def crtc_write_def)
qed

lemma update_hw_cursor [simp]:
  "cells (ck_vga_update_hw_cursor t) = cells t"
  "ck_cursor_pos (ck_vga_update_hw_cursor t) = ck_cursor_pos t"
  "cursor_synced (ck_vga_update_hw_cursor t)"
  by (simp_all add: ck_vga_update_hw_cursor_def Let_def cursor_synced_def hw_cursor_update)

section \<open>What the operations do\<close>

lemma clear_line_at: "ck_vga_clear_line line v i = (if i div VGA_WIDTH = line then blank else v i)"
proof -
  have "line * VGA_WIDTH \<le> i \<and> i < line * VGA_WIDTH + VGA_WIDTH \<longleftrightarrow> i div VGA_WIDTH = line"
    by (auto simp: div_nat_eqI dividend_less_div_times)
  then show ?thesis by (simp add: ck_vga_clear_line_def Let_def for_loop_fill)
qed

lemma scroll_at:
  "vga_scroll v i = (if i < 24 * VGA_WIDTH then v (i + VGA_WIDTH)
     else if i < VGA_MEMSIZE then blank else v i)"
proof -
  let ?w = "for_loop 0 1920 (\<lambda>i v. v(i := v (i + VGA_WIDTH))) v"
  have w: "?w j = (if j < 1920 then v (j + VGA_WIDTH) else v j)" for j
  proof -
    have "?w = (\<lambda>j. if j < 1920 then v (j + VGA_WIDTH) else v j)"
      by (rule for_loop_inv [where P = "\<lambda>k u. u = (\<lambda>j. if j < k then v (j + VGA_WIDTH) else v j)"])
        (auto simp: fun_eq_iff)
    then show ?thesis by (rule fun_cong)
  qed
  have "i div VGA_WIDTH = 24 \<longleftrightarrow> 1920 \<le> i \<and> i < 2000" by auto
  then show ?thesis by (auto simp: vga_scroll_def clear_line_at w)
qed

text \<open>A character written on the screen, and one that scrolls it first.\<close>

lemma write_char_plain:
  assumes "unat (ck_cursor_pos t) < VGA_MEMSIZE"
  shows "cells (ck_vga_write_char c color t) = (cells t)(unat (ck_cursor_pos t) := vga_cell color c)"
    and "unat (ck_cursor_pos (ck_vga_write_char c color t)) = Suc (unat (ck_cursor_pos t))"
    and "cursor_synced (ck_vga_write_char c color t)"
  using assms by (simp_all add: ck_vga_write_char_def Let_def word_le_nat_alt unat_Suc_u16)

lemma write_char_scroll:
  assumes "VGA_MEMSIZE \<le> unat (ck_cursor_pos t)"
  shows "cells (ck_vga_write_char c color t) = (vga_scroll (cells t))(1920 := vga_cell color c)"
    and "unat (ck_cursor_pos (ck_vga_write_char c color t)) = 1921"
    and "cursor_synced (ck_vga_write_char c color t)"
  using assms by (simp_all add: ck_vga_write_char_def Let_def word_le_nat_alt unat_Suc_u16)

lemma write_char_clipped: "VGA_MEMSIZE \<le> i \<Longrightarrow> cells (ck_vga_write_char c color t) i = cells t i"
  by (cases "unat (ck_cursor_pos t) < VGA_MEMSIZE")
    (simp_all add: write_char_plain write_char_scroll scroll_at)

lemma write_char_synced: "cursor_synced (ck_vga_write_char c color t)"
  by (simp add: ck_vga_write_char_def Let_def)

lemma newline_fields:
  "cells (ck_vga_newline t) = cells t" "ck_cursor_pos (ck_vga_newline t) = next_line (ck_cursor_pos t)"
  "cursor_synced (ck_vga_newline t)"
  by (simp_all add: ck_vga_newline_def)

lemma write_string_newline:
  "ck_vga_write_string (c # s) color t = ck_vga_write_string s color
     (if c = CHR 0x0A then ck_vga_newline t else ck_vga_write_char c color t)"
  by (simp add: ck_vga_newline_def)

lemma write_string_append:
  "ck_vga_write_string (xs @ ys) color t = ck_vga_write_string ys color (ck_vga_write_string xs color t)"
  by (induction xs arbitrary: t) simp_all

text \<open>A number is its decimal text.\<close>

lemma digits_no_newline: "CHR 0x0A \<notin> set (decimal n)"
proof (induction n rule: decimal.induct)
  case (1 n)
  have "digit_char d \<noteq> CHR 0x0A" if "d < 10" for d
    using of_char_digit [OF that] by auto
  then have "CHR 0x0A \<noteq> digit_char d" if "d < 10" for d using that by metis
  from this [of n] this [of "n mod 10"] 1 show ?case by (subst decimal.simps) auto
qed

lemma write_plain_string:
  "CHR 0x0A \<notin> set s \<Longrightarrow> ck_vga_write_string s color t = fold (\<lambda>c. ck_vga_write_char c color) s t"
  by (induction s arbitrary: t) auto

lemma write_number_string: "ck_vga_write_number num color t = ck_vga_write_string (write_number_text num) color t"
proof -
  have "CHR 0x0A \<notin> set (write_number_text num)" by (simp add: write_number_decimal digits_no_newline)
  then show ?thesis by (auto simp: write_plain_string ck_vga_write_number_def write_number_text_def)
qed

section \<open>Where the cursor can be\<close>

text \<open>
  \<open>cursor_in lo n t\<close>: the cursor is at \<open>lo\<close> or later and at most \<open>n\<close> lines behind the last cell of
  the screen (a newline on the last line moves it there; the next character scrolls).
\<close>

definition cursor_in :: "nat \<Rightarrow> nat \<Rightarrow> terminal \<Rightarrow> bool" where
  "cursor_in lo n t \<longleftrightarrow> lo \<le> 1921 \<and> lo \<le> unat (ck_cursor_pos t) \<and> unat (ck_cursor_pos t) \<le> VGA_MEMSIZE + n * VGA_WIDTH"

lemma cursor_in_mono: "cursor_in lo n t \<Longrightarrow> n \<le> m \<Longrightarrow> cursor_in lo m t"
  by (auto simp: cursor_in_def intro: order_trans)

lemma write_char_cursor: "cursor_in lo n t \<Longrightarrow> cursor_in lo 0 (ck_vga_write_char c color t)"
  by (cases "unat (ck_cursor_pos t) < VGA_MEMSIZE")
    (simp_all add: cursor_in_def write_char_plain write_char_scroll)

lemma write_char_advances:
  "cursor_in lo n t \<Longrightarrow> lo < 1921 \<Longrightarrow> cursor_in (Suc lo) 0 (ck_vga_write_char c color t)"
  by (cases "unat (ck_cursor_pos t) < VGA_MEMSIZE")
    (simp_all add: cursor_in_def write_char_plain write_char_scroll)

lemma next_line_pos:
  assumes "unat pos \<le> VGA_MEMSIZE + n * VGA_WIDTH" and "n \<le> 700"
  shows "unat (next_line pos) = (unat pos div VGA_WIDTH + 1) * VGA_WIDTH"
    and "unat pos < unat (next_line pos)" and "unat (next_line pos) \<le> VGA_MEMSIZE + Suc n * VGA_WIDTH"
proof -
  have d: "unat pos div VGA_WIDTH \<le> 25 + n"
    using assms(1) div_times_less_eq_dividend [of "unat pos" VGA_WIDTH] by linarith
  then have "(unat pos div VGA_WIDTH + 1) * VGA_WIDTH \<le> 726 * VGA_WIDTH"
    using assms(2) by (intro mult_le_mono1) linarith
  then have "(unat pos div VGA_WIDTH + 1) * VGA_WIDTH < 65536" by simp
  then show e: "unat (next_line pos) = (unat pos div VGA_WIDTH + 1) * VGA_WIDTH"
    by (simp only: next_line_def unat_of_nat_u16)
  show "unat pos < unat (next_line pos)"
    unfolding e using dividend_less_div_times [of VGA_WIDTH "unat pos"] by simp
  show "unat (next_line pos) \<le> VGA_MEMSIZE + Suc n * VGA_WIDTH" unfolding e using d by simp
qed

lemma newline_cursor: "cursor_in lo n t \<Longrightarrow> n \<le> 700 \<Longrightarrow> cursor_in lo (Suc n) (ck_vga_newline t)"
  using next_line_pos [of "ck_cursor_pos t" n] by (simp add: cursor_in_def newline_fields)

lemma newline_next_row:
  assumes "cursor_in VGA_WIDTH n t" and "n \<le> 700"
  shows "cursor_in (2 * VGA_WIDTH) (Suc n) (ck_vga_newline t)"
proof -
  have "1 \<le> unat (ck_cursor_pos t) div VGA_WIDTH" using assms(1) by (simp add: cursor_in_def less_eq_div_iff_mult_less_eq)
  then have "2 * VGA_WIDTH \<le> (unat (ck_cursor_pos t) div VGA_WIDTH + 1) * VGA_WIDTH" by simp
  then show ?thesis
    using assms next_line_pos [of "ck_cursor_pos t" n] by (simp add: cursor_in_def newline_fields)
qed

definition newlines :: "string \<Rightarrow> nat" where
  "newlines s = length (filter (\<lambda>c. c = CHR 0x0A) s)"

lemma newlines_append [simp]: "newlines (xs @ ys) = newlines xs + newlines ys"
  by (simp add: newlines_def)

lemma newlines_le: "newlines s \<le> length s"
  by (simp add: newlines_def)

lemma write_string_cursor:
  "cursor_in lo n t \<Longrightarrow> n + newlines s \<le> 700 \<Longrightarrow> cursor_in lo (n + newlines s) (ck_vga_write_string s color t)"
proof (induction s arbitrary: n t)
  case (Cons c s)
  show ?case
  proof (cases "c = CHR 0x0A")
    case True
    with Cons.prems have "cursor_in lo (Suc n) (ck_vga_newline t)" "Suc n + newlines s \<le> 700"
      by (simp_all add: newline_cursor newlines_def)
    from Cons.IH [OF this] True show ?thesis
      by (simp add: write_string_newline newlines_def del: ck_vga_write_string.simps)
  next
    case False
    have "cursor_in lo 0 (ck_vga_write_char c color t)" using Cons.prems(1) by (rule write_char_cursor)
    from cursor_in_mono [OF this, of n] Cons.IH [of n "ck_vga_write_char c color t"] False Cons.prems
    show ?thesis by (simp add: newlines_def)
  qed
qed (simp add: newlines_def)

lemma write_string_clipped: "VGA_MEMSIZE \<le> i \<Longrightarrow> cells (ck_vga_write_string s color t) i = cells t i"
proof (induction s arbitrary: t)
  case (Cons c s)
  then show ?case
    by (simp only: write_string_newline) (simp add: newline_fields write_char_clipped)
qed simp

lemma write_string_synced: "cursor_synced t \<Longrightarrow> cursor_synced (ck_vga_write_string s color t)"
  by (induction s arbitrary: t) (simp_all add: write_char_synced)

lemma clear_screen_at:
  "cells (ck_vga_clear_screen t) i = (if i < VGA_MEMSIZE then blank else cells t i)"
  "ck_cursor_pos (ck_vga_clear_screen t) = 0"
  by (simp_all add: ck_vga_clear_screen_def for_loop_fill)

end
