(* ===== verification/Shell_Text.thy ===== *)
theory Shell_Text
  imports Prelude
begin

text \<open>
  The string helpers and the command history of \<^verbatim>\<open>src/src/kernel/shell.c\<close>. A C string argument is the
  list of its characters before the terminating NUL; a character array in memory is a function from
  indices, and \<open>c_string\<close> reads the string it holds. The history is refined to the list of the last ten
  commands.
\<close>

section \<open>Strings\<close>

definition c_string :: "nat \<Rightarrow> char carray \<Rightarrow> string" where
  "c_string n buf = takeWhile (\<lambda>c. c \<noteq> CHR 0x00) (map buf [0..<n])"

text \<open>A list that can be the contents of a C string.\<close>

definition nul_free :: "string \<Rightarrow> bool" where
  "nul_free s \<longleftrightarrow> CHR 0x00 \<notin> set s"

fun ck_strlen :: "string \<Rightarrow> nat" where
  "ck_strlen [] = 0"
| "ck_strlen (c # s) = ck_strlen s + 1"

text \<open>The value of a \<^verbatim>\<open>char\<close>, which is signed on this target.\<close>

definition schar :: "char \<Rightarrow> int" where
  "schar c = (let n = (of_char c :: nat) in if n < 128 then int n else int n - 256)"

fun ck_strcmp :: "string \<Rightarrow> string \<Rightarrow> int" where
  "ck_strcmp [] [] = 0"
| "ck_strcmp [] (b # bs) = - schar b"
| "ck_strcmp (a # as) [] = schar a"
| "ck_strcmp (a # as) (b # bs) = (if a = b then ck_strcmp as bs else schar a - schar b)"

text \<open>The copying loop of \<^verbatim>\<open>ck_get_first_word\<close>, with \<open>n\<close> characters of room left.\<close>

fun first_word_loop :: "nat \<Rightarrow> string \<Rightarrow> string" where
  "first_word_loop 0 s = []"
| "first_word_loop (Suc n) [] = []"
| "first_word_loop (Suc n) (c # s) = (if c \<noteq> CHR '' '' then c # first_word_loop n s else [])"

definition ck_get_first_word :: "string \<Rightarrow> nat \<Rightarrow> string" where
  "ck_get_first_word s max_len = first_word_loop (max_len - 1) s"

fun skip_word :: "string \<Rightarrow> string" where
  "skip_word [] = []"
| "skip_word (c # s) = (if c \<noteq> CHR '' '' then skip_word s else c # s)"

fun skip_spaces :: "string \<Rightarrow> string" where
  "skip_spaces [] = []"
| "skip_spaces (c # s) = (if c = CHR '' '' then skip_spaces s else c # s)"

fun copy_args :: "nat \<Rightarrow> string \<Rightarrow> string" where
  "copy_args 0 s = []"
| "copy_args (Suc n) [] = []"
| "copy_args (Suc n) (c # s) = c # copy_args n s"

definition ck_get_args :: "string \<Rightarrow> nat \<Rightarrow> string" where
  "ck_get_args s max_len = copy_args (max_len - 1) (skip_spaces (skip_word s))"

lemma ck_strlen_length [simp]: "ck_strlen s = length s"
  by (induction s) simp_all

lemma of_char_less: "(of_char c :: nat) < 256"
  using of_char_mod_256 [of c] mod_less_divisor [of 256 "of_char c :: nat"] by simp

lemma signed_byte_inj:
  fixes x y :: nat
  assumes "x < 256" and "y < 256"
  shows "(if x < 128 then int x else int x - 256) = (if y < 128 then int y else int y - 256) \<longleftrightarrow> x = y"
  using assms by auto

lemma schar_eq_iff: "schar a = schar b \<longleftrightarrow> a = b"
  unfolding schar_def Let_def signed_byte_inj [OF of_char_less of_char_less] by simp

lemma schar_zero: "schar c = 0 \<longleftrightarrow> c = CHR 0x00"
proof -
  have "schar CHR 0x00 = 0" by code_simp
  then show ?thesis using schar_eq_iff [of c "CHR 0x00"] by simp
qed

lemma ck_strcmp_eq_0: "nul_free a \<Longrightarrow> nul_free b \<Longrightarrow> ck_strcmp a b = 0 \<longleftrightarrow> a = b"
  by (induction a b rule: ck_strcmp.induct)
    (auto simp: nul_free_def schar_zero schar_eq_iff)

lemma first_word_eq: "ck_get_first_word s n = take (n - 1) (takeWhile (\<lambda>c. c \<noteq> CHR '' '') s)"
proof -
  have "first_word_loop k s = take k (takeWhile (\<lambda>c. c \<noteq> CHR '' '') s)" for k
    by (induction k s rule: first_word_loop.induct) simp_all
  then show ?thesis by (simp add: ck_get_first_word_def)
qed

lemma args_eq: "ck_get_args s n = take (n - 1) (dropWhile (\<lambda>c. c = CHR '' '') (dropWhile (\<lambda>c. c \<noteq> CHR '' '') s))"
proof -
  have "skip_word s = dropWhile (\<lambda>c. c \<noteq> CHR '' '') s" by (induction s) simp_all
  moreover have "skip_spaces s = dropWhile (\<lambda>c. c = CHR '' '') s" for s by (induction s) simp_all
  moreover have "copy_args k s = take k s" for k s by (induction k s rule: copy_args.induct) simp_all
  ultimately show ?thesis by (simp add: ck_get_args_def)
qed

lemma nul_free_parts:
  "nul_free s \<Longrightarrow> nul_free (ck_get_first_word s n)" "nul_free s \<Longrightarrow> nul_free (ck_get_args s n)"
  by (auto simp: nul_free_def first_word_eq args_eq dest!: in_set_takeD set_takeWhileD set_dropWhileD)

text \<open>An array that holds the characters of a string and then a NUL.\<close>

lemma c_string_eq:
  assumes "\<And>i. i < length s \<Longrightarrow> buf i = s ! i" and "buf (length s) = CHR 0x00" and "length s < n" and "nul_free s"
  shows "c_string n buf = s"
proof -
  have "map buf [0..<n] = map buf [0..<length s] @ buf (length s) # map buf [Suc (length s)..<n]"
    using assms(3) by (metis append.assoc append_Cons append_Nil le_add1 le_add_diff_inverse less_imp_le_nat
        list.simps(9) map_append upt_add_eq_append upt_conv_Cons zero_le)
  moreover have "map buf [0..<length s] = s" using assms(1) by (intro nth_equalityI) simp_all
  ultimately have "map buf [0..<n] = s @ CHR 0x00 # map buf [Suc (length s)..<n]" using assms(2) by simp
  moreover have "\<And>x. x \<in> set s \<Longrightarrow> x \<noteq> CHR 0x00" using assms(4) by (auto simp: nul_free_def)
  ultimately show ?thesis by (simp add: c_string_def takeWhile_append2)
qed

section \<open>The history\<close>

abbreviation CK_HISTORY_SIZE :: nat where "CK_HISTORY_SIZE \<equiv> 10"
abbreviation CK_HISTORY_LINE_SIZE :: nat where "CK_HISTORY_LINE_SIZE \<equiv> 64"

record history =
  ck_history :: "char carray carray"
  ck_history_count :: nat

definition history_static :: history where
  "history_static = \<lparr>ck_history = (\<lambda>_ _. CHR 0x00), ck_history_count = 0\<rparr>"

text \<open>The copy of a command into a row, with its terminating NUL.\<close>

definition copy_line :: "string \<Rightarrow> char carray \<Rightarrow> char carray" where
  "copy_line cmd row =
     (let m = min (CK_HISTORY_LINE_SIZE - 1) (length cmd)
      in (for_loop 0 m (\<lambda>i row. row(i := cmd ! i)) row)(m := CHR 0x00))"

definition history_shift :: "char carray carray \<Rightarrow> char carray carray" where
  "history_shift h =
     for_loop 0 (CK_HISTORY_SIZE - 1) (\<lambda>i h.
       for_loop 0 CK_HISTORY_LINE_SIZE (\<lambda>j h. h(i := (h i)(j := h (i + 1) j))) h) h"

definition ck_history_add :: "string \<Rightarrow> history \<Rightarrow> history" where
  "ck_history_add cmd s =
     (if ck_history_count s < CK_HISTORY_SIZE then
        s\<lparr>ck_history := (ck_history s)(ck_history_count s := copy_line cmd (ck_history s (ck_history_count s))),
          ck_history_count := ck_history_count s + 1\<rparr>
      else
        let h = history_shift (ck_history s)
        in s\<lparr>ck_history := h(CK_HISTORY_SIZE - 1 := copy_line cmd (h (CK_HISTORY_SIZE - 1)))\<rparr>)"

definition history_line :: "history \<Rightarrow> nat \<Rightarrow> string" where
  "history_line s i = c_string CK_HISTORY_LINE_SIZE (ck_history s i)"

definition history_lines :: "history \<Rightarrow> string list" where
  "history_lines s = map (history_line s) [0..<ck_history_count s]"

definition history_inv :: "history \<Rightarrow> bool" where
  "history_inv s \<longleftrightarrow> ck_history_count s \<le> CK_HISTORY_SIZE"

text \<open>The last \<open>n\<close> entries of a list.\<close>

definition last_n :: "nat \<Rightarrow> 'a list \<Rightarrow> 'a list" where
  "last_n n xs = drop (length xs - n) xs"

text \<open>
  The contract of a log that keeps the last entries, and what it contains after any sequence of
  additions.
\<close>

locale recent_log =
  fixes inv :: "'s \<Rightarrow> bool"
    and entries :: "'s \<Rightarrow> 'b list"
    and valid :: "'a \<Rightarrow> bool"
    and record_of :: "'a \<Rightarrow> 'b"
    and add :: "'a \<Rightarrow> 's \<Rightarrow> 's"
    and cap :: nat
  assumes add_inv: "inv s \<Longrightarrow> inv (add x s)"
    and add_entries: "inv s \<Longrightarrow> valid x \<Longrightarrow> entries (add x s) = last_n cap (entries s @ [record_of x])"
    and entries_cap: "inv s \<Longrightarrow> length (entries s) \<le> cap"
begin

lemma log_inv: "inv s \<Longrightarrow> inv (fold add xs s)"
  by (induction xs arbitrary: s) (simp_all add: add_inv)

lemma last_n_append: "last_n cap (last_n cap xs @ ys) = last_n cap (xs @ ys)"
proof (cases "length xs \<le> cap")
  case False
  then have "length ys + (length xs - cap) = length xs + length ys - cap" by simp
  with False show ?thesis by (simp add: last_n_def)
qed (simp add: last_n_def)

lemma log_entries:
  "inv s \<Longrightarrow> \<forall>x \<in> set xs. valid x \<Longrightarrow> entries (fold add xs s) = last_n cap (entries s @ map record_of xs)"
proof (induction xs arbitrary: s)
  case Nil
  then show ?case using entries_cap [of s] by (simp add: last_n_def)
next
  case (Cons x xs)
  then have "entries (fold add (x # xs) s) = last_n cap (last_n cap (entries s @ [record_of x]) @ map record_of xs)"
    by (simp add: add_inv add_entries)
  then show ?case by (simp add: last_n_append)
qed

end

lemma copy_line_string: "nul_free cmd \<Longrightarrow> c_string CK_HISTORY_LINE_SIZE (copy_line cmd row) = take 63 cmd"
proof (rule c_string_eq)
  assume "nul_free cmd"
  then show "nul_free (take 63 cmd)" by (auto simp: nul_free_def dest: in_set_takeD)
qed (auto simp: copy_line_def Let_def for_loop_fill)

lemma history_shift_at:
  "history_shift h i j = (if i < CK_HISTORY_SIZE - 1 \<and> j < CK_HISTORY_LINE_SIZE then h (i + 1) j else h i j)"
proof -
  have row: "for_loop 0 CK_HISTORY_LINE_SIZE (\<lambda>j h. h(i := (h i)(j := h (i + 1) j))) h =
      h(i := (\<lambda>j. if j < CK_HISTORY_LINE_SIZE then h (i + 1) j else h i j))" for h :: "char carray carray" and i
    by (rule for_loop_inv [where P = "\<lambda>k t. t = h(i := (\<lambda>j. if j < k then h (i + 1) j else h i j))"])
      (auto simp: fun_eq_iff)
  have "history_shift h = (\<lambda>i j. if i < 9 \<and> j < CK_HISTORY_LINE_SIZE then h (i + 1) j else h i j)"
    unfolding history_shift_def row
    by (simp, rule for_loop_inv [where P = "\<lambda>k t. t = (\<lambda>i j. if i < k \<and> j < CK_HISTORY_LINE_SIZE then h (i + 1) j else h i j)"])
      (auto simp: fun_eq_iff)
  then show ?thesis by simp
qed

lemma history_shift_line:
  "i < 9 \<Longrightarrow> c_string CK_HISTORY_LINE_SIZE (history_shift h i) = c_string CK_HISTORY_LINE_SIZE (h (Suc i))"
  unfolding c_string_def by (rule arg_cong [of _ _ "takeWhile _"]) (simp add: history_shift_at)

lemma history_add_lines:
  assumes "history_inv s" and "nul_free cmd"
  shows "history_lines (ck_history_add cmd s) = last_n CK_HISTORY_SIZE (history_lines s @ [take 63 cmd])"
proof (cases "ck_history_count s < CK_HISTORY_SIZE")
  case True
  then show ?thesis
    using assms(2) by (simp add: ck_history_add_def history_lines_def history_line_def last_n_def copy_line_string)
next
  case False
  with assms(1) have n: "ck_history_count s = 10" by (simp add: history_inv_def)
  have front: "map (history_line (ck_history_add cmd s)) [0..<9] = map (history_line s) [1..<10]"
    using n by (intro nth_equalityI) (simp_all add: ck_history_add_def history_line_def Let_def history_shift_line)
  have new: "history_line (ck_history_add cmd s) 9 = take 63 cmd"
    using n assms(2) by (simp add: ck_history_add_def history_line_def Let_def copy_line_string)
  have count: "ck_history_count (ck_history_add cmd s) = 10" using n by (simp add: ck_history_add_def Let_def)
  have u: "[0..<10] = [0..<9] @ [9]" and u': "[0..<10] = 0 # [1..<10]" by code_simp+
  have "history_lines (ck_history_add cmd s) = map (history_line s) [1..<10] @ [take 63 cmd]"
    unfolding history_lines_def count u map_append list.map front new ..
  moreover have "history_lines s = history_line s 0 # map (history_line s) [1..<10]"
    unfolding history_lines_def n u' list.map ..
  ultimately show ?thesis by (simp add: last_n_def)
qed

lemma history_add_inv: "history_inv s \<Longrightarrow> history_inv (ck_history_add cmd s)"
  by (simp add: history_inv_def ck_history_add_def Let_def)

interpretation hist: recent_log history_inv history_lines nul_free "take 63" ck_history_add CK_HISTORY_SIZE
  by unfold_locales (simp_all add: history_add_inv history_add_lines, simp add: history_lines_def history_inv_def)

text \<open>
  C28: the history is the last ten commands. After any sequence of commands the lines the \<^verbatim>\<open>history\<close> command
  lists are the last ten commands in order, each cut to 63 characters.
\<close>

theorem history_last_ten:
  assumes "\<forall>cmd \<in> set cmds. nul_free cmd"
  shows "history_lines (fold ck_history_add cmds history_static) = last_n 10 (map (take 63) cmds)"
  using hist.log_entries [of history_static cmds] assms
  by (simp add: history_static_def history_inv_def history_lines_def)

theorem history_last_ten_witness:
  "history_lines (fold ck_history_add [''help'', ''ps''] history_static) = [''help'', ''ps'']"
  using history_last_ten [of "[''help'', ''ps'']"] by (simp add: nul_free_def last_n_def)

text \<open>
  C29: parsing a command line. For a line without NUL, comparing the extracted name with a command name
  gives 0 exactly if the first word of the line (cut to 63 characters) is that name; the arguments are
  the rest of the line after the first run of spaces, cut to 127 characters; so a line that is a name,
  one or more spaces and arguments not starting with a space is taken apart into these two.
\<close>

theorem command_parsing:
  assumes "nul_free line" and "nul_free name"
  shows "(ck_strcmp (ck_get_first_word line 64) name = 0 \<longleftrightarrow>
      take 63 (takeWhile (\<lambda>c. c \<noteq> CHR '' '') line) = name) \<and>
    length (ck_get_first_word line 64) < 64 \<and> length (ck_get_args line 128) < 128 \<and>
    (CHR '' '' \<notin> set w \<and> length w \<le> 63 \<and> 0 < k \<and> length as \<le> 127 \<and> (as = [] \<or> hd as \<noteq> CHR '' '') \<and>
       line = w @ replicate k CHR '' '' @ as \<longrightarrow>
     ck_get_first_word line 64 = w \<and> ck_get_args line 128 = as)"
proof -
  have "ck_strcmp (ck_get_first_word line 64) name = 0 \<longleftrightarrow> ck_get_first_word line 64 = name"
    using assms by (intro ck_strcmp_eq_0 nul_free_parts)
  moreover have "ck_get_first_word line 64 = w \<and> ck_get_args line 128 = as"
    if h: "CHR '' '' \<notin> set w" "length w \<le> 63" "0 < k" "length as \<le> 127" "as = [] \<or> hd as \<noteq> CHR '' ''"
      "line = w @ replicate k CHR '' '' @ as"
  proof -
    have "takeWhile (\<lambda>c. c \<noteq> CHR '' '') line = w" "dropWhile (\<lambda>c. c \<noteq> CHR '' '') line = replicate k CHR '' '' @ as"
      using h by (cases k; force simp: takeWhile_append dropWhile_append)+
    moreover have "dropWhile (\<lambda>c. c = CHR '' '') (replicate k CHR '' '' @ as) = as"
      using h(5) by (cases as) (simp_all add: dropWhile_append)
    ultimately show ?thesis using h(2,4) by (simp add: first_word_eq args_eq)
  qed
  ultimately show ?thesis by (auto simp: first_word_eq args_eq)
qed

theorem command_parsing_witness:
  "ck_get_first_word ''echo  hi there'' 64 = ''echo'' \<and> ck_get_args ''echo  hi there'' 128 = ''hi there''"
  using command_parsing [of "''echo  hi there''" "''echo''" "''echo''" 2 "''hi there''"]
  by (simp add: nul_free_def numeral_2_eq_2)

end
