(* ===== verification/Memory.thy ===== *)
theory Memory
  imports Prelude
begin

text \<open>
  Byte-addressed memory with the little-endian 32-bit accesses that \<^verbatim>\<open>heap.c\<close> performs through
  pointers to \<^verbatim>\<open>struct ck_heap_header\<close> (12 bytes on i386: \<open>size\<close> at offset 0, \<open>allocated\<close> at 4,
  \<open>next\<close> at 8). Addresses wrap around at 4 GB, so overlapping headers interfere exactly as they
  do in the running kernel.
\<close>

section \<open>Accesses\<close>

type_synonym mem = "u32 \<Rightarrow> u8"

definition rd32 :: "mem \<Rightarrow> u32 \<Rightarrow> u32" where
  "rd32 m a = ucast (m a) OR push_bit 8 (ucast (m (a + 1))) OR push_bit 16 (ucast (m (a + 2)))
     OR push_bit 24 (ucast (m (a + 3)))"

definition wr32 :: "u32 \<Rightarrow> u32 \<Rightarrow> mem \<Rightarrow> mem" where
  "wr32 a v m = m(a := ucast v, a + 1 := ucast (drop_bit 8 v), a + 2 := ucast (drop_bit 16 v),
     a + 3 := ucast (drop_bit 24 v))"

text \<open>The fields of a heap header.\<close>

definition hdr_size :: "mem \<Rightarrow> u32 \<Rightarrow> u32" where "hdr_size m p = rd32 m p"
definition hdr_allocated :: "mem \<Rightarrow> u32 \<Rightarrow> u8" where "hdr_allocated m p = m (p + 4)"
definition hdr_next :: "mem \<Rightarrow> u32 \<Rightarrow> u32" where "hdr_next m p = rd32 m (p + 8)"

definition set_size :: "u32 \<Rightarrow> u32 \<Rightarrow> mem \<Rightarrow> mem" where "set_size p v m = wr32 p v m"
definition set_allocated :: "u32 \<Rightarrow> u8 \<Rightarrow> mem \<Rightarrow> mem" where "set_allocated p b m = m(p + 4 := b)"
definition set_next :: "u32 \<Rightarrow> u32 \<Rightarrow> mem \<Rightarrow> mem" where "set_next p v m = wr32 (p + 8) v m"

text \<open>Two headers that share no byte.\<close>

definition apart :: "u32 \<Rightarrow> u32 \<Rightarrow> bool" where
  "apart p q \<longleftrightarrow> 12 \<le> unat (p - q) \<and> 12 \<le> unat (q - p)"

section \<open>Reading what was written\<close>

lemma rd32_wr32_same [simp]: "rd32 (wr32 a v m) a = v"
proof (rule bit_word_eqI)
  fix n :: nat
  assume "n < LENGTH(32)"
  then consider "n < 8" | "8 \<le> n" "n < 16" | "16 \<le> n" "n < 24" | "24 \<le> n" "n < 32"
    by (simp) linarith
  then show "bit (rd32 (wr32 a v m) a) n = bit v n"
    by cases (auto simp: rd32_def wr32_def bit_simps)
qed

lemma wr32_other: "4 \<le> unat (x - a) \<Longrightarrow> wr32 a v m x = m x"
  by (auto simp: wr32_def)

lemma unat_shift_back:
  assumes "12 \<le> unat ((x :: u32) - p)" "k \<le> 8"
  shows "4 \<le> unat (x - (p + of_nat k))"
proof -
  have "unat (of_nat k :: u32) = k" using assms(2) by (simp add: ck_word)
  then have "unat ((x - p) - of_nat k) = unat (x - p) - k"
    using assms unat_diff_u32 [of "x - p" "of_nat k"] by simp
  with assms show ?thesis by (simp add: diff_diff_eq)
qed

lemma header_write_other:
  assumes "12 \<le> unat (x - p)"
  shows "set_size p v m x = m x" "set_next p v m x = m x" "set_allocated p b m x = m x"
proof -
  show "set_size p v m x = m x" using assms by (simp add: set_size_def wr32_other)
  show "set_next p v m x = m x"
    using unat_shift_back [OF assms, of 8] by (simp add: set_next_def wr32_other)
  show "set_allocated p b m x = m x" using assms by (auto simp: set_allocated_def)
qed

lemma header_cong:
  assumes "\<And>i. i < 12 \<Longrightarrow> m' (p + of_nat i) = m (p + of_nat i)"
  shows "hdr_size m' p = hdr_size m p" "hdr_next m' p = hdr_next m p"
    "hdr_allocated m' p = hdr_allocated m p"
proof -
  note b = assms [of 0] assms [of 1] assms [of 2] assms [of 3] assms [of 4] assms [of 8]
    assms [of 9] assms [of 10] assms [of 11]
  show "hdr_size m' p = hdr_size m p" using b by (simp add: hdr_size_def rd32_def)
  show "hdr_next m' p = hdr_next m p" using b by (simp add: hdr_next_def rd32_def add.assoc)
  show "hdr_allocated m' p = hdr_allocated m p" using b by (simp add: hdr_allocated_def)
qed

lemma header_read_write [simp]:
  "hdr_size (set_size p v m) p = v" "hdr_size (set_allocated p b m) p = hdr_size m p"
  "hdr_size (set_next p v m) p = hdr_size m p"
  "hdr_next (set_next p v m) p = v" "hdr_next (set_allocated p b m) p = hdr_next m p"
  "hdr_next (set_size p v m) p = hdr_next m p"
  "hdr_allocated (set_allocated p b m) p = b" "hdr_allocated (set_size p v m) p = hdr_allocated m p"
  "hdr_allocated (set_next p v m) p = hdr_allocated m p"
  by (simp_all add: hdr_size_def set_size_def hdr_next_def set_next_def hdr_allocated_def
      set_allocated_def) (simp_all add: rd32_def wr32_def add.assoc)

lemma apart_offset:
  assumes "apart p q" "i < 12"
  shows "12 \<le> unat (p + of_nat i - q)"
proof -
  have pq: "12 \<le> unat (p - q)" "12 \<le> unat (q - p)" using assms(1) by (simp_all add: apart_def)
  have "unat (p - q) + unat (q - p) = 4294967296"
    using pq unat_u32_less [of p] unat_u32_less [of q] by (auto simp: unat_diff_u32 split: if_splits)
  then have "unat (p - q + of_nat i) = unat (p - q) + i"
    using pq assms(2) by (subst unat_add_u32) (simp_all add: ck_word)
  moreover have "p - q + of_nat i = p + of_nat i - q" by (simp add: algebra_simps)
  ultimately show ?thesis using pq(1) by (metis trans_le_add1)
qed

lemma apart_sym: "apart p q \<Longrightarrow> apart q p"
  by (simp add: apart_def)

lemma header_read_apart:
  assumes "apart p q"
  shows "hdr_size (set_size q v m) p = hdr_size m p" "hdr_size (set_next q v m) p = hdr_size m p"
    "hdr_size (set_allocated q b m) p = hdr_size m p"
    "hdr_next (set_size q v m) p = hdr_next m p" "hdr_next (set_next q v m) p = hdr_next m p"
    "hdr_next (set_allocated q b m) p = hdr_next m p"
    "hdr_allocated (set_size q v m) p = hdr_allocated m p"
    "hdr_allocated (set_next q v m) p = hdr_allocated m p"
    "hdr_allocated (set_allocated q b m) p = hdr_allocated m p"
  by (rule header_cong, rule header_write_other, rule apart_offset [OF assms], assumption)+

lemma apartI:
  assumes "unat p + 12 \<le> unat q" "unat q + 12 \<le> 4294967296"
  shows "apart p q"
  using assms unat_u32_less [of q] by (simp add: apart_def unat_diff_u32) linarith

end
