(* ===== verification/Pmem.thy ===== *)
theory Pmem
  imports Prelude
begin

text \<open>
  The physical page allocator, \<^verbatim>\<open>src/src/memory/pmem.c\<close>: a bitmap of 65536 page frames and
  two counters. The state is the three static variables of the file. The abstraction of a
  state is the set of page numbers whose bit is set.
\<close>

section \<open>State and operations\<close>

abbreviation CK_PAGE_SIZE :: u32 where "CK_PAGE_SIZE \<equiv> 4096"
abbreviation CK_MAX_PAGES :: "'a::numeral" where "CK_MAX_PAGES \<equiv> 65536"
abbreviation CK_BITMAP_SIZE :: nat where "CK_BITMAP_SIZE \<equiv> 8192"

record pmem =
  ck_pmem_bitmap :: "u8 carray"
  ck_pmem_total_pages :: u32
  ck_pmem_used_pages :: u32

text \<open>The zero-initialised statics before \<^verbatim>\<open>ck_pmem_init\<close> runs.\<close>

definition pmem_static :: pmem where
  "pmem_static =
     \<lparr>ck_pmem_bitmap = (\<lambda>_. 0), ck_pmem_total_pages = 0, ck_pmem_used_pages = 0\<rparr>"

definition ck_pmem_set_bit :: "u32 \<Rightarrow> pmem \<Rightarrow> pmem" where
  "ck_pmem_set_bit page s =
     (if page \<ge> CK_MAX_PAGES then s
      else let byte_idx = unat (page div 8); bit_idx = unat (page mod 8) in
        s\<lparr>ck_pmem_bitmap := (ck_pmem_bitmap s)
            (byte_idx := ck_pmem_bitmap s byte_idx OR push_bit bit_idx 1)\<rparr>)"

definition ck_pmem_clear_bit :: "u32 \<Rightarrow> pmem \<Rightarrow> pmem" where
  "ck_pmem_clear_bit page s =
     (if page \<ge> CK_MAX_PAGES then s
      else let byte_idx = unat (page div 8); bit_idx = unat (page mod 8) in
        s\<lparr>ck_pmem_bitmap := (ck_pmem_bitmap s)
            (byte_idx := ck_pmem_bitmap s byte_idx AND NOT (push_bit bit_idx 1))\<rparr>)"

definition ck_pmem_test_bit :: "u32 \<Rightarrow> pmem \<Rightarrow> u32" where
  "ck_pmem_test_bit page s =
     (if page \<ge> CK_MAX_PAGES then 1
      else let byte_idx = unat (page div 8); bit_idx = unat (page mod 8) in
        ucast (drop_bit bit_idx (ck_pmem_bitmap s byte_idx)) AND 1)"

text \<open>The two loop bodies of \<^verbatim>\<open>ck_pmem_init\<close>: a reserved page and a free page.\<close>

definition pmem_init_reserve :: "nat \<Rightarrow> pmem \<Rightarrow> pmem" where
  "pmem_init_reserve page s =
     (let s1 = ck_pmem_set_bit (of_nat page) s in
      s1\<lparr>ck_pmem_total_pages := ck_pmem_total_pages s1 + 1,
         ck_pmem_used_pages := ck_pmem_used_pages s1 + 1\<rparr>)"

definition pmem_init_release :: "nat \<Rightarrow> pmem \<Rightarrow> pmem" where
  "pmem_init_release page s =
     (let s1 = ck_pmem_clear_bit (of_nat page) s in
      s1\<lparr>ck_pmem_total_pages := ck_pmem_total_pages s1 + 1\<rparr>)"

definition ck_pmem_init :: "pmem \<Rightarrow> pmem" where
  "ck_pmem_init s =
     (let s0 = s\<lparr>ck_pmem_bitmap := for_loop 0 CK_BITMAP_SIZE (\<lambda>i b. b(i := 0)) (ck_pmem_bitmap s),
                 ck_pmem_total_pages := 0, ck_pmem_used_pages := 0\<rparr>;
          s1 = for_loop 0 384 pmem_init_reserve s0
      in for_loop 384 CK_MAX_PAGES pmem_init_release s1)"

text \<open>
  The search loop of \<^verbatim>\<open>ck_pmem_alloc_page\<close> from page number \<open>page\<close> on; the function starts it
  at 0. The loop leaves at the first page whose bit is clear.
\<close>

function pmem_alloc_from :: "nat \<Rightarrow> pmem \<Rightarrow> u32 \<times> pmem" where
  "pmem_alloc_from page s =
     (if page < CK_MAX_PAGES then
        if ck_pmem_test_bit (of_nat page) s = 0 then
          let s1 = ck_pmem_set_bit (of_nat page) s in
          (of_nat page * CK_PAGE_SIZE, s1\<lparr>ck_pmem_used_pages := ck_pmem_used_pages s1 + 1\<rparr>)
        else pmem_alloc_from (Suc page) s
      else (0, s))"
  by pat_completeness auto
termination
  by (relation "measure (\<lambda>(page, s). CK_MAX_PAGES - page)") auto

declare pmem_alloc_from.simps [simp del]

definition ck_pmem_alloc_page :: "pmem \<Rightarrow> u32 \<times> pmem" where
  "ck_pmem_alloc_page s = pmem_alloc_from 0 s"

definition ck_pmem_free_page :: "u32 \<Rightarrow> pmem \<Rightarrow> pmem" where
  "ck_pmem_free_page addr s =
     (if addr mod CK_PAGE_SIZE \<noteq> 0 then s
      else let page = addr div CK_PAGE_SIZE in
        if ck_pmem_test_bit page s \<noteq> 0 then
          let s1 = ck_pmem_clear_bit page s in
          s1\<lparr>ck_pmem_used_pages := ck_pmem_used_pages s1 - 1\<rparr>
        else s)"

definition ck_pmem_get_total_memory :: "pmem \<Rightarrow> u32" where
  "ck_pmem_get_total_memory s = ck_pmem_total_pages s * CK_PAGE_SIZE"

definition ck_pmem_get_free_pages :: "pmem \<Rightarrow> u32" where
  "ck_pmem_get_free_pages s = ck_pmem_total_pages s - ck_pmem_used_pages s"

definition ck_pmem_get_used_pages :: "pmem \<Rightarrow> u32" where
  "ck_pmem_get_used_pages s = ck_pmem_used_pages s"

section \<open>Abstraction and invariant\<close>

definition page_used :: "pmem \<Rightarrow> nat \<Rightarrow> bool" where
  "page_used s n \<longleftrightarrow> bit (ck_pmem_bitmap s (n div 8)) (n mod 8)"

definition used_set :: "pmem \<Rightarrow> nat set" where
  "used_set s = {n. n < CK_MAX_PAGES \<and> page_used s n}"

definition pmem_inv :: "pmem \<Rightarrow> bool" where
  "pmem_inv s \<longleftrightarrow>
     ck_pmem_total_pages s = CK_MAX_PAGES \<and> unat (ck_pmem_used_pages s) = card (used_set s)"

section \<open>What the bit operations do to the abstraction\<close>

lemma unat_page_idx:
  "unat ((page :: u32) div 8) = unat page div 8" "unat (page mod 8) = unat page mod 8"
  by (simp_all add: unat_div unat_mod)

lemma page_used_set_bit [ck_spec]:
  "page < CK_MAX_PAGES \<Longrightarrow> page_used (ck_pmem_set_bit page s) n \<longleftrightarrow> n = unat page \<or> page_used s n"
  using div_mod_eq_iff [of n "unat page" 8]
  by (auto simp: page_used_def ck_pmem_set_bit_def Let_def unat_page_idx bit_or_iff
      bit_two_power_u8)

lemma page_used_clear_bit [ck_spec]:
  "page < CK_MAX_PAGES \<Longrightarrow> page_used (ck_pmem_clear_bit page s) n \<longleftrightarrow> n \<noteq> unat page \<and> page_used s n"
  using div_mod_eq_iff [of n "unat page" 8]
  by (auto simp: page_used_def ck_pmem_clear_bit_def Let_def unat_page_idx bit_and_iff bit_not_iff
      bit_two_power_u8)

lemma test_bit_iff [ck_spec]:
  "ck_pmem_test_bit page s = 0 \<longleftrightarrow> page < CK_MAX_PAGES \<and> \<not> page_used s (unat page)"
  by (auto simp: page_used_def ck_pmem_test_bit_def Let_def unat_page_idx ucast_and_1_eq_0
      bit_drop_bit_eq)

lemma bit_op_counters [simp]:
  "ck_pmem_total_pages (ck_pmem_set_bit page s) = ck_pmem_total_pages s"
  "ck_pmem_used_pages (ck_pmem_set_bit page s) = ck_pmem_used_pages s"
  "ck_pmem_total_pages (ck_pmem_clear_bit page s) = ck_pmem_total_pages s"
  "ck_pmem_used_pages (ck_pmem_clear_bit page s) = ck_pmem_used_pages s"
  by (simp_all add: ck_pmem_set_bit_def ck_pmem_clear_bit_def Let_def)

lemma used_set_counters [simp]:
  "used_set (s\<lparr>ck_pmem_used_pages := u\<rparr>) = used_set s"
  "used_set (s\<lparr>ck_pmem_total_pages := t\<rparr>) = used_set s"
  by (simp_all add: used_set_def page_used_def)

lemma finite_used_set [simp]: "finite (used_set s)"
  by (simp add: used_set_def)

lemma used_set_bound: "used_set s \<subseteq> {..<CK_MAX_PAGES}"
  by (auto simp: used_set_def)

lemma of_nat_page_less: "n < CK_MAX_PAGES \<Longrightarrow> (of_nat n :: u32) < CK_MAX_PAGES"
  by (simp add: ck_word)

lemma used_set_set_bit [ck_spec]:
  "n < CK_MAX_PAGES \<Longrightarrow> used_set (ck_pmem_set_bit (of_nat n) s) = insert n (used_set s)"
  by (auto simp: used_set_def page_used_set_bit of_nat_page_less ck_word)

lemma used_set_clear_bit [ck_spec]:
  "n < CK_MAX_PAGES \<Longrightarrow> used_set (ck_pmem_clear_bit (of_nat n) s) = used_set s - {n}"
  by (auto simp: used_set_def page_used_clear_bit of_nat_page_less ck_word)

lemma test_bit_used [ck_spec]:
  "n < CK_MAX_PAGES \<Longrightarrow> ck_pmem_test_bit (of_nat n) s = 0 \<longleftrightarrow> n \<notin> used_set s"
  by (auto simp: used_set_def test_bit_iff of_nat_page_less ck_word)

lemma test_bit_out_of_range:
  "page \<ge> CK_MAX_PAGES \<Longrightarrow> ck_pmem_test_bit page s = 1"
  "page \<ge> CK_MAX_PAGES \<Longrightarrow> ck_pmem_clear_bit page s = s"
  by (simp_all add: ck_pmem_test_bit_def ck_pmem_clear_bit_def)

section \<open>Initialisation\<close>

lemma init_reserve_loop:
  assumes "used_set s = {}" "ck_pmem_total_pages s = 0" "ck_pmem_used_pages s = 0" "k \<le> 384"
  shows "used_set (for_loop 0 k pmem_init_reserve s) = {..<k} \<and>
     ck_pmem_total_pages (for_loop 0 k pmem_init_reserve s) = of_nat k \<and>
     ck_pmem_used_pages (for_loop 0 k pmem_init_reserve s) = of_nat k"
  by (rule for_loop_inv [where P = "\<lambda>i t. used_set t = {..<i} \<and>
      ck_pmem_total_pages t = of_nat i \<and> ck_pmem_used_pages t = of_nat i"])
    (use assms in \<open>auto simp: pmem_init_reserve_def Let_def ck_spec lessThan_Suc\<close>)

lemma init_release_loop:
  assumes "used_set s = {..<384}" "ck_pmem_total_pages s = 384" "ck_pmem_used_pages s = 384"
    "384 \<le> k" "k \<le> CK_MAX_PAGES"
  shows "used_set (for_loop 384 k pmem_init_release s) = {..<384} \<and>
     ck_pmem_total_pages (for_loop 384 k pmem_init_release s) = of_nat k \<and>
     ck_pmem_used_pages (for_loop 384 k pmem_init_release s) = 384"
  by (rule for_loop_inv [where P = "\<lambda>i t. used_set t = {..<384} \<and>
      ck_pmem_total_pages t = of_nat i \<and> ck_pmem_used_pages t = 384"])
    (use assms in \<open>auto simp: pmem_init_release_def Let_def ck_spec\<close>)

lemma used_set_cleared:
  "used_set (s\<lparr>ck_pmem_bitmap := for_loop 0 CK_BITMAP_SIZE (\<lambda>i b. b(i := 0)) b,
     ck_pmem_total_pages := t, ck_pmem_used_pages := u\<rparr>) = {}"
  by (auto simp: used_set_def page_used_def for_loop_fill)

lemma init_state:
  "used_set (ck_pmem_init s) = {..<384}"
  "ck_pmem_total_pages (ck_pmem_init s) = CK_MAX_PAGES"
  "ck_pmem_used_pages (ck_pmem_init s) = 384"
  using init_release_loop [of "for_loop 0 384 pmem_init_reserve (s\<lparr>ck_pmem_bitmap :=
      for_loop 0 CK_BITMAP_SIZE (\<lambda>i b. b(i := 0)) (ck_pmem_bitmap s),
      ck_pmem_total_pages := 0, ck_pmem_used_pages := 0\<rparr>)" CK_MAX_PAGES]
    init_reserve_loop [OF used_set_cleared, where k = 384]
  by (auto simp: ck_pmem_init_def Let_def)

lemma pmem_inv_init [simp]: "pmem_inv (ck_pmem_init s)"
  by (simp add: pmem_inv_def init_state)

section \<open>Allocation and release\<close>

lemma alloc_from_cases:
  assumes "{..<page} \<subseteq> used_set s"
  obtains (full) "used_set s = {..<CK_MAX_PAGES}" "pmem_alloc_from page s = (0, s)"
  | (found) p where "p < CK_MAX_PAGES" "p \<notin> used_set s" "{..<p} \<subseteq> used_set s"
      "pmem_alloc_from page s = (of_nat p * CK_PAGE_SIZE,
         (ck_pmem_set_bit (of_nat p) s)\<lparr>ck_pmem_used_pages := ck_pmem_used_pages s + 1\<rparr>)"
  using assms
proof (induction page s arbitrary: thesis rule: pmem_alloc_from.induct)
  case (1 page s)
  consider (out) "\<not> page < CK_MAX_PAGES" | (free) "page < CK_MAX_PAGES" "page \<notin> used_set s"
    | (used) "page < CK_MAX_PAGES" "page \<in> used_set s" by blast
  then show ?case
  proof cases
    case out
    with "1.prems"(3) used_set_bound [of s] have "used_set s = {..<CK_MAX_PAGES}" by fastforce
    with out show ?thesis by (intro "1.prems"(1)) (simp_all add: pmem_alloc_from.simps)
  next
    case free
    with "1.prems"(3) show ?thesis
      by (intro "1.prems"(2) [of page])
        (simp_all add: pmem_alloc_from.simps [of page] test_bit_used)
  next
    case used
    then have "pmem_alloc_from page s = pmem_alloc_from (Suc page) s"
      by (simp add: pmem_alloc_from.simps [of page] test_bit_used)
    with used "1.prems" "1.IH" show ?thesis
      by (metis lessThan_Suc insert_subset test_bit_used)
  qed
qed

lemma Min_free_eq:
  assumes "p < n" "p \<notin> U" "{..<p} \<subseteq> U"
  shows "Min ({..<n} - U) = (p :: nat)"
  using assms by (intro Min_eqI) (auto simp: not_less [symmetric])

lemma unat_page_addr: "p < CK_MAX_PAGES \<Longrightarrow> unat (of_nat p * CK_PAGE_SIZE) = p * 4096"
  by (simp add: unat_mult_lem [THEN iffD1] ck_word)

lemma page_addr_split:
  assumes "p < CK_MAX_PAGES"
  shows "(of_nat p * CK_PAGE_SIZE) mod CK_PAGE_SIZE = 0"
    and "(of_nat p * CK_PAGE_SIZE) div CK_PAGE_SIZE = of_nat p"
  using assms by (simp_all only: word_unat_eq_iff unat_div unat_mod unat_page_addr)
    (simp_all add: ck_word)

lemma pmem_inv_used_less:
  assumes "pmem_inv s" "p < CK_MAX_PAGES" "p \<notin> used_set s"
  shows "unat (ck_pmem_used_pages s) < CK_MAX_PAGES"
proof -
  have "card (insert p (used_set s)) \<le> card {..<CK_MAX_PAGES :: nat}"
    using assms used_set_bound by (intro card_mono) auto
  with assms show ?thesis by (simp add: pmem_inv_def)
qed

lemma pmem_inv_alloc:
  assumes "pmem_inv s" "p < CK_MAX_PAGES" "p \<notin> used_set s"
  shows "pmem_inv ((ck_pmem_set_bit (of_nat p) s)\<lparr>ck_pmem_used_pages := ck_pmem_used_pages s + 1\<rparr>)"
  using assms pmem_inv_used_less [OF assms]
  by (simp add: pmem_inv_def used_set_set_bit unat_Suc_u32)

lemma free_page_eq:
  assumes "p < CK_MAX_PAGES"
  shows "ck_pmem_free_page (of_nat p * CK_PAGE_SIZE) s =
     (if p \<in> used_set s then
        (ck_pmem_clear_bit (of_nat p) s)\<lparr>ck_pmem_used_pages := ck_pmem_used_pages s - 1\<rparr>
      else s)"
  using assms by (simp add: ck_pmem_free_page_def page_addr_split Let_def test_bit_used)

lemma pmem_inv_free:
  assumes "pmem_inv s" "p < CK_MAX_PAGES"
  shows "pmem_inv (ck_pmem_free_page (of_nat p * CK_PAGE_SIZE) s)"
proof (cases "p \<in> used_set s")
  case True
  then have "0 < card (used_set s)" by (auto simp: card_gt_0_iff)
  with True assms show ?thesis
    by (simp add: free_page_eq pmem_inv_def used_set_clear_bit unat_pred_u32)
qed (use assms in \<open>simp add: free_page_eq\<close>)

section \<open>The interface of the page allocator\<close>

text \<open>
  What the users of the allocator (the heap, and the boot code) rely on: a state stands for
  the set of pages in use, allocation takes the least free page and fails with address 0 only
  when no page is free, and releasing the address of a page removes exactly that page.
\<close>

locale page_allocator =
  fixes alloc :: "'s \<Rightarrow> u32 \<times> 's"
    and release :: "u32 \<Rightarrow> 's \<Rightarrow> 's"
    and pages :: "'s \<Rightarrow> nat set"
    and invar :: "'s \<Rightarrow> bool"
  assumes pages_bound: "invar s \<Longrightarrow> pages s \<subseteq> {..<CK_MAX_PAGES}"
    and alloc_full: "invar s \<Longrightarrow> pages s = {..<CK_MAX_PAGES} \<Longrightarrow> alloc s = (0, s)"
    and alloc_least: "invar s \<Longrightarrow> pages s \<noteq> {..<CK_MAX_PAGES} \<Longrightarrow>
      fst (alloc s) = of_nat (Min ({..<CK_MAX_PAGES} - pages s)) * CK_PAGE_SIZE \<and>
      pages (snd (alloc s)) = insert (Min ({..<CK_MAX_PAGES} - pages s)) (pages s) \<and>
      invar (snd (alloc s))"
    and release_page: "invar s \<Longrightarrow> p < CK_MAX_PAGES \<Longrightarrow>
      pages (release (of_nat p * CK_PAGE_SIZE) s) = pages s - {p} \<and>
      invar (release (of_nat p * CK_PAGE_SIZE) s)"
begin

lemma alloc_fresh:
  assumes "invar s" "pages s \<noteq> {..<CK_MAX_PAGES}"
  obtains p where "p < CK_MAX_PAGES" "p \<notin> pages s" "fst (alloc s) = of_nat p * CK_PAGE_SIZE"
    "pages (snd (alloc s)) = insert p (pages s)" "invar (snd (alloc s))"
proof -
  have "{..<CK_MAX_PAGES} - pages s \<noteq> {}" using assms pages_bound by blast
  then have "Min ({..<CK_MAX_PAGES} - pages s) \<in> {..<CK_MAX_PAGES} - pages s"
    by (intro Min_in) auto
  with that alloc_least [OF assms] show ?thesis by blast
qed

lemma invar_alloc: "invar s \<Longrightarrow> invar (snd (alloc s))"
  using alloc_least alloc_full by (cases "pages s = {..<CK_MAX_PAGES}") auto

lemma alloc_release:
  assumes "invar s" "pages s \<noteq> {..<CK_MAX_PAGES}"
  shows "pages (release (fst (alloc s)) (snd (alloc s))) = pages s"
  using alloc_fresh [OF assms] release_page by (metis Diff_insert_absorb)

end

text \<open>Repeated allocation, as a client performs it; the results in the order they are returned.\<close>

fun alloc_many :: "('s \<Rightarrow> u32 \<times> 's) \<Rightarrow> nat \<Rightarrow> 's \<Rightarrow> u32 list \<times> 's" where
  "alloc_many alloc 0 s = ([], s)"
| "alloc_many alloc (Suc n) s =
     (let (a, s1) = alloc s; (as, s2) = alloc_many alloc n s1 in (a # as, s2))"

context page_allocator
begin

lemma alloc_many_fresh:
  assumes "invar s" "n + card (pages s) \<le> CK_MAX_PAGES"
  shows "\<exists>ps. fst (alloc_many alloc n s) = map (\<lambda>p. of_nat p * CK_PAGE_SIZE) ps \<and> length ps = n \<and>
     distinct ps \<and> set ps \<subseteq> {..<CK_MAX_PAGES} - pages s \<and>
     pages (snd (alloc_many alloc n s)) = pages s \<union> set ps \<and> invar (snd (alloc_many alloc n s))"
  using assms
proof (induction n arbitrary: s)
  case 0
  then show ?case by simp
next
  case (Suc n)
  have "pages s \<noteq> {..<CK_MAX_PAGES}"
  proof
    assume "pages s = {..<CK_MAX_PAGES}"
    with Suc.prems(2) show False by simp
  qed
  with Suc.prems(1) obtain p where p: "p < CK_MAX_PAGES" "p \<notin> pages s"
    "fst (alloc s) = of_nat p * CK_PAGE_SIZE" "pages (snd (alloc s)) = insert p (pages s)"
    "invar (snd (alloc s))" by (rule alloc_fresh)
  have "finite (pages s)" using pages_bound [OF Suc.prems(1)] finite_subset by blast
  with p Suc.prems(2) have "n + card (pages (snd (alloc s))) \<le> CK_MAX_PAGES" by simp
  from Suc.IH [OF p(5) this] obtain ps where
    "fst (alloc_many alloc n (snd (alloc s))) = map (\<lambda>p. of_nat p * CK_PAGE_SIZE) ps"
    "length ps = n" "distinct ps" "set ps \<subseteq> {..<CK_MAX_PAGES} - pages (snd (alloc s))"
    "pages (snd (alloc_many alloc n (snd (alloc s)))) = pages (snd (alloc s)) \<union> set ps"
    "invar (snd (alloc_many alloc n (snd (alloc s))))" by blast
  with p show ?case
    by (intro exI [of _ "p # ps"]) (auto simp: case_prod_unfold Let_def)
qed

end

interpretation pm: page_allocator ck_pmem_alloc_page ck_pmem_free_page used_set pmem_inv
proof unfold_locales
  fix s :: pmem
  assume "pmem_inv s"
  show "used_set s \<subseteq> {..<CK_MAX_PAGES}" by (rule used_set_bound)
next
  fix s :: pmem
  assume "used_set s = {..<CK_MAX_PAGES}"
  then show "ck_pmem_alloc_page s = (0, s)"
    unfolding ck_pmem_alloc_page_def by - (rule alloc_from_cases [of 0 s], auto)
next
  fix s :: pmem
  assume inv: "pmem_inv s" and "used_set s \<noteq> {..<CK_MAX_PAGES}"
  then obtain p where p: "p < CK_MAX_PAGES" "p \<notin> used_set s" "{..<p} \<subseteq> used_set s"
    "ck_pmem_alloc_page s = (of_nat p * CK_PAGE_SIZE,
       (ck_pmem_set_bit (of_nat p) s)\<lparr>ck_pmem_used_pages := ck_pmem_used_pages s + 1\<rparr>)"
    unfolding ck_pmem_alloc_page_def by - (rule alloc_from_cases [of 0 s], auto)
  show "fst (ck_pmem_alloc_page s) =
      of_nat (Min ({..<CK_MAX_PAGES} - used_set s)) * CK_PAGE_SIZE \<and>
    used_set (snd (ck_pmem_alloc_page s)) =
      insert (Min ({..<CK_MAX_PAGES} - used_set s)) (used_set s) \<and>
    pmem_inv (snd (ck_pmem_alloc_page s))"
    using p by (simp add: Min_free_eq used_set_set_bit pmem_inv_alloc [OF inv p(1,2)])
next
  fix s :: pmem and p :: nat
  assume "pmem_inv s" and "p < CK_MAX_PAGES"
  then show "used_set (ck_pmem_free_page (of_nat p * CK_PAGE_SIZE) s) = used_set s - {p} \<and>
    pmem_inv (ck_pmem_free_page (of_nat p * CK_PAGE_SIZE) s)"
    by (auto simp: pmem_inv_free) (auto simp: free_page_eq used_set_clear_bit split: if_splits)
qed

lemma alloc_next:
  assumes "pmem_inv s" "used_set s = {..<k}" "k < CK_MAX_PAGES"
  shows "fst (ck_pmem_alloc_page s) = of_nat k * CK_PAGE_SIZE"
    and "used_set (snd (ck_pmem_alloc_page s)) = {..<Suc k}"
    and "pmem_inv (snd (ck_pmem_alloc_page s))"
proof -
  have "used_set s \<noteq> {..<CK_MAX_PAGES}" using assms(2,3) by (simp add: lessThan_eq_iff)
  moreover have "Min ({..<CK_MAX_PAGES} - used_set s) = k"
    using assms(2,3) by (intro Min_free_eq) simp_all
  ultimately show "fst (ck_pmem_alloc_page s) = of_nat k * CK_PAGE_SIZE"
    "used_set (snd (ck_pmem_alloc_page s)) = {..<Suc k}" "pmem_inv (snd (ck_pmem_alloc_page s))"
    using pm.alloc_least [OF assms(1)] assms(2) by (simp_all add: lessThan_Suc)
qed

section \<open>Properties of the page allocator\<close>

text \<open>
  C7: \<^verbatim>\<open>ck_pmem_alloc_page\<close> returns the address of the least page that was free, marks exactly
  that page as used and keeps the counter equal to the number of used pages; when every page is in
  use it returns 0 and changes nothing. While page 0 is in use, as it is from \<^verbatim>\<open>ck_pmem_init\<close> on, the
  result 0 means exactly that no page is free. (With page 0 free the least free page is page 0 and
  its address is the value that stands for failure: \<open>pmem_page_zero_reported_as_failure\<close> below.)
\<close>

theorem pmem_alloc_page_spec:
  assumes "pmem_inv s" "ck_pmem_alloc_page s = (a, s')"
  shows "pmem_inv s' \<and>
    (if used_set s = {..<CK_MAX_PAGES} then a = 0 \<and> s' = s
     else \<exists>p. p < CK_MAX_PAGES \<and> p \<notin> used_set s \<and> {..<p} \<subseteq> used_set s \<and>
       unat a = p * 4096 \<and> used_set s' = insert p (used_set s)) \<and>
    (0 \<in> used_set s \<longrightarrow> (a = 0 \<longleftrightarrow> used_set s = {..<CK_MAX_PAGES}) \<and> 0 \<in> used_set s')"
proof -
  have "pmem_inv s' \<and>
    (if used_set s = {..<CK_MAX_PAGES} then a = 0 \<and> s' = s
     else \<exists>p. p < CK_MAX_PAGES \<and> p \<notin> used_set s \<and> {..<p} \<subseteq> used_set s \<and>
       unat a = p * 4096 \<and> used_set s' = insert p (used_set s))"
    using assms unfolding ck_pmem_alloc_page_def
    by - (rule alloc_from_cases [of 0 s],
      auto simp: pmem_inv_alloc unat_page_addr used_set_set_bit)
  moreover have "a \<noteq> 0" if "unat a = p * 4096" "p \<notin> used_set s" "0 \<in> used_set s" for p
    using that by (metis mult_eq_0_iff unat_0 zero_neq_numeral)
  ultimately show ?thesis by (auto split: if_splits)
qed

theorem pmem_alloc_page_spec_witness:
  "pmem_inv (snd (ck_pmem_alloc_page (ck_pmem_init pmem_static))) \<and>
   fst (ck_pmem_alloc_page (ck_pmem_init pmem_static)) \<noteq> 0 \<and>
   unat (fst (ck_pmem_alloc_page (ck_pmem_init pmem_static))) = 384 * 4096"
proof -
  obtain a s' where e: "ck_pmem_alloc_page (ck_pmem_init pmem_static) = (a, s')" by force
  have ne: "{..<384} \<noteq> {..<CK_MAX_PAGES :: nat}" by (simp add: lessThan_eq_iff)
  have least: "p = 384" if "p \<notin> {..<384}" "{..<p} \<subseteq> {..<384}" for p :: nat
    using that by (auto simp: lessThan_subset_iff)
  from pmem_alloc_page_spec [OF pmem_inv_init e] ne least show ?thesis
    by (auto simp: e init_state)
qed

text \<open>
  Any number of allocations that the free pages can satisfy return pairwise distinct,
  page-aligned, nonzero addresses of pages that were not in use, provided page 0 is in use
  (as it is after \<^verbatim>\<open>ck_pmem_init\<close>).
\<close>

theorem pmem_alloc_many_distinct:
  assumes "pmem_inv s" "0 \<in> used_set s" "n + card (used_set s) \<le> CK_MAX_PAGES"
  shows "length (fst (alloc_many ck_pmem_alloc_page n s)) = n \<and>
    distinct (fst (alloc_many ck_pmem_alloc_page n s)) \<and>
    (\<forall>a \<in> set (fst (alloc_many ck_pmem_alloc_page n s)).
       a \<noteq> 0 \<and> a mod CK_PAGE_SIZE = 0 \<and> unat a div 4096 \<notin> used_set s)"
proof -
  obtain ps where ps: "fst (alloc_many ck_pmem_alloc_page n s) = map (\<lambda>p. of_nat p * CK_PAGE_SIZE) ps"
    "length ps = n" "distinct ps" "set ps \<subseteq> {..<CK_MAX_PAGES} - used_set s"
    using pm.alloc_many_fresh [OF assms(1,3)] by blast
  have "inj_on (\<lambda>p. of_nat p * CK_PAGE_SIZE) (set ps)"
  proof (rule inj_onI)
    fix p q
    assume "p \<in> set ps" "q \<in> set ps" and e: "of_nat p * CK_PAGE_SIZE = of_nat q * CK_PAGE_SIZE"
    with ps(4) have "p < CK_MAX_PAGES" "q < CK_MAX_PAGES" by auto
    with arg_cong [OF e, of unat] show "p = q" by (simp add: unat_page_addr)
  qed
  moreover have "of_nat p * CK_PAGE_SIZE \<noteq> 0 \<and> (of_nat p * CK_PAGE_SIZE) mod CK_PAGE_SIZE = 0 \<and>
      unat (of_nat p * CK_PAGE_SIZE) div 4096 \<notin> used_set s" if "p \<in> set ps" for p
  proof -
    have p: "p < CK_MAX_PAGES" "p \<notin> used_set s" using that ps(4) by auto
    with assms(2) have "0 < p" by (metis gr0I)
    with p(1) have "unat (of_nat p * CK_PAGE_SIZE) \<noteq> 0" by (simp only: unat_page_addr)
    then have "of_nat p * CK_PAGE_SIZE \<noteq> 0" by (metis unat_0)
    with p show ?thesis by (simp add: page_addr_split unat_page_addr)
  qed
  ultimately show ?thesis using ps(2,3) by (auto simp: ps(1) distinct_map)
qed

theorem pmem_alloc_many_distinct_witness:
  "distinct (fst (alloc_many ck_pmem_alloc_page 65152 (ck_pmem_init pmem_static)))"
  using pmem_alloc_many_distinct [of "ck_pmem_init pmem_static" 65152]
  by (simp add: init_state)

text \<open>
  C17: releasing the address of a page below the 256 MB limit removes exactly that page from the
  used set and keeps the invariant (a page that is already free stays free: a double free
  changes nothing), and releasing what was just allocated restores the set of used pages.
\<close>

theorem pmem_free_page_spec:
  assumes "pmem_inv s" "p < CK_MAX_PAGES"
  shows "pmem_inv (ck_pmem_free_page (of_nat p * CK_PAGE_SIZE) s) \<and>
    used_set (ck_pmem_free_page (of_nat p * CK_PAGE_SIZE) s) = used_set s - {p} \<and>
    (p \<notin> used_set s \<longrightarrow> ck_pmem_free_page (of_nat p * CK_PAGE_SIZE) s = s) \<and>
    (used_set s \<noteq> {..<CK_MAX_PAGES} \<longrightarrow>
      used_set (ck_pmem_free_page (fst (ck_pmem_alloc_page s)) (snd (ck_pmem_alloc_page s))) =
        used_set s)"
  using assms pm.release_page pm.alloc_release by (auto simp: free_page_eq)

theorem pmem_free_page_spec_witness:
  "used_set (ck_pmem_free_page (of_nat 7 * CK_PAGE_SIZE) (ck_pmem_init pmem_static)) = {..<384} - {7}"
  using pmem_free_page_spec [of "ck_pmem_init pmem_static" 7] by (simp add: init_state)

text \<open>
  The statistics agree with the bitmap: the free page count is the number of pages whose
  bit is clear, the used count the number of pages whose bit is set, and the total is 256 MB.
\<close>

theorem pmem_statistics:
  assumes "pmem_inv s"
  shows "unat (ck_pmem_get_free_pages s) = card ({..<CK_MAX_PAGES} - used_set s) \<and>
    unat (ck_pmem_get_used_pages s) = card (used_set s) \<and>
    unat (ck_pmem_get_total_memory s) = 256 * 1024 * 1024"
proof -
  have "card (used_set s) \<le> CK_MAX_PAGES"
    using card_mono [OF _ used_set_bound, of s] by simp
  then have "ck_pmem_used_pages s \<le> ck_pmem_total_pages s"
    using assms by (simp add: pmem_inv_def ck_word)
  then show ?thesis using assms
    by (simp add: ck_pmem_get_free_pages_def ck_pmem_get_used_pages_def
        ck_pmem_get_total_memory_def pmem_inv_def unat_sub card_Diff_subset used_set_bound)
qed

theorem pmem_statistics_witness:
  "unat (ck_pmem_get_free_pages (ck_pmem_init pmem_static)) = card ({..<CK_MAX_PAGES} - {..<384 :: nat})"
  using pmem_statistics [of "ck_pmem_init pmem_static"] by (simp add: init_state)

text \<open>
  C39: releasing a page-aligned address at or above 256 MB frees no page and yet decrements the
  used-page counter, because \<^verbatim>\<open>ck_pmem_test_bit\<close> answers "allocated" out of range: the counter
  stops agreeing with the bitmap.
\<close>

theorem pmem_free_out_of_range:
  assumes "addr mod CK_PAGE_SIZE = 0" "addr \<ge> 0x10000000"
  shows "ck_pmem_free_page addr s = s\<lparr>ck_pmem_used_pages := ck_pmem_used_pages s - 1\<rparr> \<and>
    (pmem_inv s \<longrightarrow> \<not> pmem_inv (ck_pmem_free_page addr s))"
proof -
  have "addr div CK_PAGE_SIZE \<ge> CK_MAX_PAGES"
    using assms(2) by (simp add: u32_le_unat unat_div)
  then have e: "ck_pmem_free_page addr s = s\<lparr>ck_pmem_used_pages := ck_pmem_used_pages s - 1\<rparr>"
    using assms(1) by (simp add: ck_pmem_free_page_def Let_def test_bit_out_of_range)
  have "unat (ck_pmem_used_pages s - 1) \<noteq> unat (ck_pmem_used_pages s)"
    by (simp flip: word_unat_eq_iff)
  with e show ?thesis by (simp add: pmem_inv_def)
qed

theorem pmem_free_out_of_range_witness:
  "ck_pmem_used_pages (ck_pmem_free_page 0x10000000 (ck_pmem_init pmem_static)) = 383"
  using pmem_free_out_of_range [of "0x10000000" "ck_pmem_init pmem_static"]
  by (simp add: init_state)

text \<open>
  If the reserved page 0 is ever released, the next allocation takes it and returns its
  address 0, which every caller reads as "out of memory".
\<close>

theorem pmem_page_zero_reported_as_failure:
  assumes "pmem_inv s" "0 \<in> used_set s"
  shows "fst (ck_pmem_alloc_page (ck_pmem_free_page 0 s)) = 0 \<and>
    used_set (snd (ck_pmem_alloc_page (ck_pmem_free_page 0 s))) = used_set s"
proof -
  let ?s = "ck_pmem_free_page 0 s"
  have inv: "pmem_inv ?s" and used: "used_set ?s = used_set s - {0}"
    using pm.release_page [OF assms(1), of 0] by simp_all
  then have "0 \<notin> used_set ?s" by simp
  moreover have "used_set ?s \<noteq> {..<CK_MAX_PAGES}"
    using calculation by (metis lessThan_iff zero_less_numeral)
  ultimately have "Min ({..<CK_MAX_PAGES} - used_set ?s) = 0"
    by (intro Min_free_eq) auto
  with pm.alloc_least [OF inv \<open>used_set ?s \<noteq> _\<close>] used assms(2) show ?thesis by auto
qed

theorem pmem_page_zero_reported_as_failure_witness:
  "fst (ck_pmem_alloc_page (ck_pmem_free_page 0 (ck_pmem_init pmem_static))) = 0"
  using pmem_page_zero_reported_as_failure [of "ck_pmem_init pmem_static"]
  by (simp add: init_state)

end
