(* ===== verification/Heap.thy ===== *)
theory Heap
  imports Memory Pmem
begin

text \<open>
  The kernel heap, \<^verbatim>\<open>src/src/memory/heap.c\<close>: a first-fit allocator over a singly linked list of
  block headers that live in byte memory. The state is the four static variables of the file,
  the memory they point into and the page allocator the heap grows from. The search loop of
  \<^verbatim>\<open>ck_malloc\<close> follows \<open>next\<close> pointers without a bound, so \<open>ck_malloc\<close> returns an option:
  \<open>None\<close> means that the call never returns.
\<close>

section \<open>State and operations\<close>

abbreviation CK_HEAP_HEADER_SIZE :: u32 where "CK_HEAP_HEADER_SIZE \<equiv> 12"
abbreviation CK_HEAP_MAX_SIZE :: u32 where "CK_HEAP_MAX_SIZE \<equiv> 268435456"

record heap =
  ck_heap_total_allocated :: u32
  ck_heap_total_freed :: u32
  ck_heap_freelist :: u32
  ck_heap_size :: u32
  hp_mem :: mem
  hp_pmem :: pmem

text \<open>The zero-initialised statics, over the page allocator the heap will draw from.\<close>

definition heap_static :: "pmem \<Rightarrow> heap" where
  "heap_static pm = \<lparr>ck_heap_total_allocated = 0, ck_heap_total_freed = 0, ck_heap_freelist = 0,
     ck_heap_size = 0, hp_mem = (\<lambda>_. 0), hp_pmem = pm\<rparr>"

definition ck_heap_expand :: "u32 \<Rightarrow> heap \<Rightarrow> u32 \<times> heap" where
  "ck_heap_expand needed_size s =
     (if ck_heap_size s + needed_size > CK_HEAP_MAX_SIZE then (0, s)
      else let (phys_addr, pm) = ck_pmem_alloc_page (hp_pmem s); s1 = s\<lparr>hp_pmem := pm\<rparr> in
        if phys_addr = 0 then (0, s1)
        else (phys_addr, s1\<lparr>ck_heap_size := ck_heap_size s1 + 4096\<rparr>))"

definition ck_heap_init :: "heap \<Rightarrow> heap" where
  "ck_heap_init s =
     (let s0 = s\<lparr>ck_heap_freelist := 0, ck_heap_size := 0, ck_heap_total_allocated := 0,
                 ck_heap_total_freed := 0\<rparr>;
          (first_page, s1) = ck_heap_expand 4096 s0 in
      if first_page = 0 then s1
      else s1\<lparr>hp_mem := set_next first_page 0 (set_allocated first_page 0
                 (set_size first_page 4096 (hp_mem s1))),
              ck_heap_freelist := first_page\<rparr>)"

text \<open>
  The search loop of \<^verbatim>\<open>ck_malloc\<close>: the address of the first header on the list that is not
  allocated and large enough, or 0 when the list ends.
\<close>

definition fits :: "mem \<Rightarrow> u32 \<Rightarrow> u32 \<Rightarrow> bool" where
  "fits m total_size p \<longleftrightarrow> hdr_allocated m p = 0 \<and> hdr_size m p \<ge> total_size"

partial_function (option) malloc_search :: "mem \<Rightarrow> u32 \<Rightarrow> u32 \<Rightarrow> u32 option" where
  "malloc_search m total_size current =
     (if current = 0 then Some 0
      else if fits m total_size current then Some current
      else malloc_search m total_size (hdr_next m current))"

text \<open>The body of the loop when a block is found: split it if it is larger, then take it.\<close>

definition malloc_split :: "u32 \<Rightarrow> u32 \<Rightarrow> mem \<Rightarrow> mem" where
  "malloc_split total_size current m =
     (let new_block = current + total_size;
          m1 = set_size new_block (hdr_size m current - total_size) m;
          m2 = set_allocated new_block 0 m1;
          m3 = set_next new_block (hdr_next m2 current) m2;
          m4 = set_size current total_size m3
      in set_next current new_block m4)"

definition malloc_take :: "u32 \<Rightarrow> u32 \<Rightarrow> heap \<Rightarrow> u32 \<times> heap" where
  "malloc_take total_size current s =
     (let m = (if hdr_size (hp_mem s) current > total_size
               then malloc_split total_size current (hp_mem s) else hp_mem s)
      in (current + CK_HEAP_HEADER_SIZE,
          s\<lparr>hp_mem := set_allocated current 1 m,
            ck_heap_total_allocated := ck_heap_total_allocated s + total_size\<rparr>))"

text \<open>The tail of \<^verbatim>\<open>ck_malloc\<close>, when no block on the list fits.\<close>

definition malloc_grow :: "u32 \<Rightarrow> heap \<Rightarrow> u32 \<times> heap" where
  "malloc_grow total_size s =
     (let (new_heap, s1) = ck_heap_expand total_size s in
      if new_heap = 0 then (0, s1)
      else
        let m1 = set_allocated new_heap 1 (set_size new_heap total_size (hp_mem s1));
            s2 = (if 4096 > total_size then
                let remaining = new_heap + total_size;
                    m2 = set_next remaining (ck_heap_freelist s1)
                      (set_allocated remaining 0 (set_size remaining (4096 - total_size) m1))
                in s1\<lparr>hp_mem := set_next new_heap remaining m2, ck_heap_freelist := remaining\<rparr>
              else s1\<lparr>hp_mem := set_next new_heap (ck_heap_freelist s1) m1,
                      ck_heap_freelist := new_heap\<rparr>)
        in (new_heap + CK_HEAP_HEADER_SIZE,
            s2\<lparr>ck_heap_total_allocated := ck_heap_total_allocated s2 + total_size\<rparr>))"

definition ck_malloc :: "u32 \<Rightarrow> heap \<Rightarrow> (u32 \<times> heap) option" where
  "ck_malloc sz s =
     (if sz = 0 then Some (0, s)
      else let total_size = sz + CK_HEAP_HEADER_SIZE in
        case malloc_search (hp_mem s) total_size (ck_heap_freelist s) of
          None \<Rightarrow> None
        | Some current \<Rightarrow>
            Some (if current \<noteq> 0 then malloc_take total_size current s else malloc_grow total_size s))"

definition ck_free :: "u32 \<Rightarrow> heap \<Rightarrow> heap" where
  "ck_free ptr s =
     (if ptr = 0 then s
      else let header = ptr - CK_HEAP_HEADER_SIZE in
        if hdr_allocated (hp_mem s) header = 0 then s
        else let m1 = set_allocated header 0 (hp_mem s) in
          s\<lparr>hp_mem := set_next header (ck_heap_freelist s) m1,
            ck_heap_total_freed := ck_heap_total_freed s + hdr_size m1 header,
            ck_heap_freelist := header\<rparr>)"

definition ck_heap_get_total_allocated :: "heap \<Rightarrow> u32" where
  "ck_heap_get_total_allocated s = ck_heap_total_allocated s"

definition ck_heap_get_total_freed :: "heap \<Rightarrow> u32" where
  "ck_heap_get_total_freed s = ck_heap_total_freed s"

section \<open>The list of headers\<close>

text \<open>\<open>chain m p xs\<close>: following \<open>next\<close> from \<open>p\<close> visits \<open>xs\<close> and then reaches NULL.\<close>

fun chain :: "mem \<Rightarrow> u32 \<Rightarrow> u32 list \<Rightarrow> bool" where
  "chain m p [] \<longleftrightarrow> p = 0"
| "chain m p (x # xs) \<longleftrightarrow> p = x \<and> x \<noteq> 0 \<and> chain m (hdr_next m x) xs"

text \<open>\<open>segment m p xs q\<close>: following \<open>next\<close> from \<open>p\<close> visits \<open>xs\<close> and then reaches \<open>q\<close>.\<close>

fun segment :: "mem \<Rightarrow> u32 \<Rightarrow> u32 list \<Rightarrow> u32 \<Rightarrow> bool" where
  "segment m p [] q \<longleftrightarrow> p = q"
| "segment m p (x # xs) q \<longleftrightarrow> p = x \<and> x \<noteq> 0 \<and> segment m (hdr_next m x) xs q"

lemma chain_cong:
  "(\<And>x. x \<in> set xs \<Longrightarrow> hdr_next m' x = hdr_next m x) \<Longrightarrow> chain m' p xs = chain m p xs"
  by (induction xs arbitrary: p) auto

lemma segment_cong:
  "(\<And>x. x \<in> set xs \<Longrightarrow> hdr_next m' x = hdr_next m x) \<Longrightarrow> segment m' p xs q = segment m p xs q"
  by (induction xs arbitrary: p) auto

lemma chain_append: "chain m p (xs @ ys) \<longleftrightarrow> (\<exists>q. segment m p xs q \<and> chain m q ys)"
  by (induction xs arbitrary: p) auto

lemma segment_closed:
  "segment m p ys q \<Longrightarrow> p \<in> insert q (set ys)"
  "segment m p ys q \<Longrightarrow> 0 \<notin> set ys"
  "segment m p ys q \<Longrightarrow> y \<in> set ys \<Longrightarrow> hdr_next m y \<in> insert q (set ys)"
proof -
  show start: "segment m p ys q \<Longrightarrow> p \<in> insert q (set ys)" for p ys by (cases ys) auto
  show "segment m p ys q \<Longrightarrow> 0 \<notin> set ys" by (induction ys arbitrary: p) auto
  show "segment m p ys q \<Longrightarrow> y \<in> set ys \<Longrightarrow> hdr_next m y \<in> insert q (set ys)"
    using start by (induction ys arbitrary: p) fastforce+
qed

lemma chain_nonzero: "chain m p xs \<Longrightarrow> 0 \<notin> set xs"
  by (induction xs arbitrary: p) auto

text \<open>On a list that ends, the search returns and it is first fit.\<close>

lemma malloc_search_chain:
  "chain m p xs \<Longrightarrow> malloc_search m t p = Some (case find (fits m t) xs of None \<Rightarrow> 0 | Some x \<Rightarrow> x)"
proof (induction xs arbitrary: p)
  case Nil
  then show ?case by (simp add: malloc_search.simps)
next
  case (Cons x xs)
  then show ?case by (subst malloc_search.simps) simp
qed

text \<open>Where no header that the list can reach fits and none ends it, the search never returns.\<close>

lemma malloc_search_diverges:
  assumes "p \<in> S" "0 \<notin> S" "\<And>x. x \<in> S \<Longrightarrow> \<not> fits m t x \<and> hdr_next m x \<in> S"
  shows "malloc_search m t p = None"
proof (rule ccontr)
  assume "malloc_search m t p \<noteq> None"
  then obtain r where r: "malloc_search m t p = Some r" by auto
  have "m = m \<and> t = t \<longrightarrow> p \<notin> S"
  proof (rule malloc_search.raw_induct
      [where P = "\<lambda>m' t' p' r'. m' = m \<and> t' = t \<longrightarrow> p' \<notin> S", OF _ r])
    fix f m' t' p' r'
    assume IH: "\<And>m' t' p' r'. f m' t' p' = Some r' \<Longrightarrow> m' = m \<and> t' = t \<longrightarrow> p' \<notin> S"
      and step: "(if p' = 0 then Some 0 else if fits m' t' p' then Some p'
        else f m' t' (hdr_next m' p')) = Some r'"
    show "m' = m \<and> t' = t \<longrightarrow> p' \<notin> S"
      using step IH assms(2,3) by (metis option.inject)
  qed
  with assms(1) show False by simp
qed

lemma chain_unique: "chain m p xs \<Longrightarrow> chain m p ys \<Longrightarrow> xs = ys"
proof (induction xs arbitrary: p ys)
  case Nil
  then show ?case by (cases ys) auto
next
  case (Cons x xs)
  then show ?case by (cases ys) auto
qed

lemma segment_end_unique: "segment m p xs q \<Longrightarrow> segment m p xs q' \<Longrightarrow> q = q'"
  by (induction xs arbitrary: p) auto

lemma chain_distinct: "chain m p xs \<Longrightarrow> distinct xs"
proof (induction xs arbitrary: p)
  case Nil
  then show ?case by simp
next
  case (Cons x xs)
  have "x \<notin> set xs"
  proof
    assume "x \<in> set xs"
    then obtain ys zs where xs: "xs = ys @ x # zs" by (meson split_list)
    from Cons.prems have x: "chain m x (x # xs)" by auto
    then have "chain m x ((x # ys) @ x # zs)" by (simp only: xs append_Cons)
    then have "chain m x (x # zs)" unfolding chain_append by auto
    with x have "xs = zs" using chain_unique by blast
    with arg_cong [OF xs, of length] show False by simp
  qed
  with Cons show ?case by auto
qed

section \<open>Regions of memory\<close>

text \<open>\<open>agree l h m m'\<close>: the memories differ at most on the addresses from \<open>l\<close> up to \<open>h\<close>.\<close>

definition agree :: "nat \<Rightarrow> nat \<Rightarrow> mem \<Rightarrow> mem \<Rightarrow> bool" where
  "agree l h m m' \<longleftrightarrow> (\<forall>a. unat a < l \<or> h \<le> unat a \<longrightarrow> m' a = m a)"

lemma agree_refl [simp]: "agree l h m m"
  and agree_trans: "agree l h m m1 \<Longrightarrow> agree l h m1 m2 \<Longrightarrow> agree l h m m2"
  by (simp_all add: agree_def)

lemma agree_header_write:
  assumes "l \<le> unat p" "unat p + 12 \<le> h" "h \<le> 4294967296"
  shows "agree l h m (set_size p v m)" "agree l h m (set_next p v m)"
    "agree l h m (set_allocated p b m)"
proof -
  have "12 \<le> unat (a - p)" if "unat a < l \<or> h \<le> unat a" for a :: u32
    using that assms unat_u32_less [of a] by (auto simp: unat_diff_u32)
  then show "agree l h m (set_size p v m)" "agree l h m (set_next p v m)"
    "agree l h m (set_allocated p b m)" by (auto simp: agree_def header_write_other)
qed

definition block_end :: "mem \<Rightarrow> u32 \<Rightarrow> nat" where
  "block_end m b = unat b + unat (hdr_size m b)"

lemma unat_in_block:
  "unat b + n \<le> 4294967296 \<Longrightarrow> i < n \<Longrightarrow> unat (b + of_nat i :: u32) = unat b + i"
  by (subst unat_add_u32) (simp_all add: ck_word)

lemma agree_block:
  assumes "agree l h m m'" "block_end m b \<le> l \<or> h \<le> unat b" "12 \<le> unat (hdr_size m b)"
    "block_end m b \<le> 4294967296"
  shows "i < unat (hdr_size m b) \<Longrightarrow> m' (b + of_nat i) = m (b + of_nat i)"
    and "hdr_size m' b = hdr_size m b" "hdr_next m' b = hdr_next m b"
    and "hdr_allocated m' b = hdr_allocated m b" "block_end m' b = block_end m b"
proof -
  have bytes: "m' (b + of_nat i) = m (b + of_nat i)" if "i < unat (hdr_size m b)" for i
    using assms that unat_in_block [of b "unat (hdr_size m b)" i]
    by (auto simp: agree_def block_end_def)
  then show "i < unat (hdr_size m b) \<Longrightarrow> m' (b + of_nat i) = m (b + of_nat i)" .
  have "m' (b + of_nat i) = m (b + of_nat i)" if "i < 12" for i
    using bytes that assms(3) by simp
  note same = header_cong [of m' b m, OF this]
  show "hdr_size m' b = hdr_size m b" "hdr_next m' b = hdr_next m b"
    "hdr_allocated m' b = hdr_allocated m b" by (rule same; assumption)+
  then show "block_end m' b = block_end m b" by (simp add: block_end_def)
qed

section \<open>Well-formed heaps\<close>

text \<open>
  A block is well formed when it has room for its header, its size is a multiple of 16 (which
  keeps every remainder of a split large enough for a header) and it lies inside one page that
  the page allocator has handed out.
\<close>

definition block_ok :: "nat set \<Rightarrow> mem \<Rightarrow> u32 \<Rightarrow> bool" where
  "block_ok U m b \<longleftrightarrow> b \<noteq> 0 \<and> 0 < unat (hdr_size m b) \<and> unat (hdr_size m b) mod 16 = 0 \<and>
     (\<exists>p \<in> U. p < CK_MAX_PAGES \<and> p * 4096 \<le> unat b \<and> block_end m b \<le> Suc p * 4096)"

definition blocks_disjoint :: "mem \<Rightarrow> u32 \<Rightarrow> u32 \<Rightarrow> bool" where
  "blocks_disjoint m b c \<longleftrightarrow> block_end m b \<le> unat c \<or> block_end m c \<le> unat b"

text \<open>
  \<open>heap_wf B xs s\<close>: the blocks \<open>B\<close> are well formed and pairwise disjoint, and the free list
  visits \<open>xs\<close>, all of them blocks, and ends.
\<close>

definition heap_wf :: "u32 set \<Rightarrow> u32 list \<Rightarrow> heap \<Rightarrow> bool" where
  "heap_wf B xs s \<longleftrightarrow> pmem_inv (hp_pmem s) \<and> 0 \<in> used_set (hp_pmem s) \<and>
     (\<forall>b \<in> B. block_ok (used_set (hp_pmem s)) (hp_mem s) b) \<and>
     (\<forall>b \<in> B. \<forall>c \<in> B. b \<noteq> c \<longrightarrow> blocks_disjoint (hp_mem s) b c) \<and>
     chain (hp_mem s) (ck_heap_freelist s) xs \<and> set xs \<subseteq> B"

lemma pos_multiple_16: "0 < n \<Longrightarrow> n mod 16 = 0 \<Longrightarrow> 16 \<le> (n :: nat)"
  and diff_multiple_16: "k < n \<Longrightarrow> k mod 16 = 0 \<Longrightarrow> n mod 16 = 0 \<Longrightarrow>
    16 \<le> n - k \<and> (n - k) mod 16 = (0 :: nat)"
  by presburger+

lemma block_ok_bounds:
  assumes "block_ok U m b"
  shows "16 \<le> unat (hdr_size m b)" "block_end m b \<le> 268435456"
proof -
  have "0 < unat (hdr_size m b)" "unat (hdr_size m b) mod 16 = 0"
    using assms by (simp_all add: block_ok_def)
  then show "16 \<le> unat (hdr_size m b)" by (rule pos_multiple_16)
  obtain p where "p < CK_MAX_PAGES" "block_end m b \<le> Suc p * 4096"
    using assms by (auto simp: block_ok_def)
  then show "block_end m b \<le> 268435456" by simp
qed

lemma blocks_apart:
  assumes "block_ok U m b" "block_ok U m c" "blocks_disjoint m b c"
  shows "apart b c"
  using assms(3) apartI [of b c] apart_sym [OF apartI [of c b]]
    block_ok_bounds [OF assms(1)] block_ok_bounds [OF assms(2)]
  unfolding blocks_disjoint_def block_end_def by force

text \<open>
  The one step behind every operation: inside the region from \<open>l\<close> to \<open>h\<close> the new blocks \<open>N\<close>
  replace what was there, outside nothing changes.
\<close>

lemma heap_wf_replace:
  assumes wf: "heap_wf B xs s" and D: "D \<subseteq> B"
    and out: "\<And>b. b \<in> D \<Longrightarrow> block_end (hp_mem s) b \<le> l \<or> h \<le> unat b"
    and agree: "agree l h (hp_mem s) (hp_mem s')"
    and N: "\<And>b. b \<in> N \<Longrightarrow> block_ok (used_set (hp_pmem s')) (hp_mem s') b \<and>
        l \<le> unat b \<and> block_end (hp_mem s') b \<le> h"
    and N_disj: "\<And>b c. b \<in> N \<Longrightarrow> c \<in> N \<Longrightarrow> b \<noteq> c \<Longrightarrow> blocks_disjoint (hp_mem s') b c"
    and pm: "pmem_inv (hp_pmem s')" "used_set (hp_pmem s) \<subseteq> used_set (hp_pmem s')"
    and ch: "chain (hp_mem s') (ck_heap_freelist s') xs'" "set xs' \<subseteq> D \<union> N"
  shows "heap_wf (D \<union> N) xs' s' \<and>
    (\<forall>b \<in> D. \<forall>i < unat (hdr_size (hp_mem s) b). hp_mem s' (b + of_nat i) = hp_mem s (b + of_nat i))"
proof -
  have ok: "block_ok (used_set (hp_pmem s)) (hp_mem s) b" if "b \<in> D" for b
    using wf D that by (auto simp: heap_wf_def)
  have same: "hdr_size (hp_mem s') b = hdr_size (hp_mem s) b"
    "block_end (hp_mem s') b = block_end (hp_mem s) b"
    "\<And>i. i < unat (hdr_size (hp_mem s) b) \<Longrightarrow> hp_mem s' (b + of_nat i) = hp_mem s (b + of_nat i)"
    if "b \<in> D" for b
    using agree_block [OF agree out [OF that]] block_ok_bounds [OF ok [OF that]] by simp_all
  have ok': "block_ok (used_set (hp_pmem s')) (hp_mem s') b" if "b \<in> D" for b
    using ok [OF that] pm(2) by (auto simp: block_ok_def same [OF that])
  have old: "blocks_disjoint (hp_mem s') b c" if "b \<in> D" "c \<in> D" "b \<noteq> c" for b c
  proof -
    have "blocks_disjoint (hp_mem s) b c" using that wf D unfolding heap_wf_def by blast
    with that show ?thesis by (simp add: blocks_disjoint_def same)
  qed
  have mixed: "blocks_disjoint (hp_mem s') b c" "blocks_disjoint (hp_mem s') c b"
    if "b \<in> D" "c \<in> N" for b c
    using out [OF that(1)] N [OF that(2)] by (auto simp: blocks_disjoint_def same [OF that(1)])
  have "blocks_disjoint (hp_mem s') b c" if "b \<in> D \<union> N" "c \<in> D \<union> N" "b \<noteq> c" for b c
    using that old mixed N_disj by blast
  then show ?thesis using wf ok' N pm ch same(3) by (auto simp: heap_wf_def)
qed

section \<open>Allocation keeps the heap well formed\<close>

text \<open>
  \<open>allocated_block B s t b s'\<close>: in \<open>s'\<close> the block \<open>b\<close> is allocated with size \<open>t\<close>, it was not in use
  before, and every block that was allocated in \<open>s\<close> is still a block with every byte unchanged.
\<close>

definition allocated_block :: "u32 set \<Rightarrow> heap \<Rightarrow> u32 \<Rightarrow> u32 \<Rightarrow> heap \<Rightarrow> bool" where
  "allocated_block B s t b s' \<longleftrightarrow> (\<exists>B' xs'. heap_wf B' xs' s' \<and> b \<in> B' \<and>
     hdr_allocated (hp_mem s') b \<noteq> 0 \<and> hdr_size (hp_mem s') b = t \<and>
     (b \<in> B \<longrightarrow> hdr_allocated (hp_mem s) b = 0) \<and>
     (\<forall>c \<in> B. hdr_allocated (hp_mem s) c \<noteq> 0 \<longrightarrow> c \<in> B' \<and>
        (\<forall>i < unat (hdr_size (hp_mem s) c). hp_mem s' (c + of_nat i) = hp_mem s (c + of_nat i))))"

lemma heap_wf_blockD:
  assumes "heap_wf B xs s" "b \<in> B"
  shows "block_ok (used_set (hp_pmem s)) (hp_mem s) b"
    and "c \<in> B \<Longrightarrow> c \<noteq> b \<Longrightarrow> blocks_disjoint (hp_mem s) c b"
    and "c \<in> B \<Longrightarrow> c \<noteq> b \<Longrightarrow> apart c b"
proof -
  show ok: "block_ok (used_set (hp_pmem s)) (hp_mem s) b"
    using assms by (auto simp: heap_wf_def)
  show dj: "blocks_disjoint (hp_mem s) c b" if "c \<in> B" "c \<noteq> b"
    using assms that by (auto simp: heap_wf_def)
  show "apart c b" if "c \<in> B" "c \<noteq> b"
    using blocks_apart [OF _ ok dj [OF that]] assms(1) that(1) by (auto simp: heap_wf_def)
qed

lemma take_exact_wf:
  assumes wf: "heap_wf B xs s" and x: "x \<in> set xs" and free: "hdr_allocated (hp_mem s) x = 0"
    and sz: "hdr_size (hp_mem s) x = t"
  shows "allocated_block B s t x (s\<lparr>hp_mem := set_allocated x 1 (hp_mem s),
    ck_heap_total_allocated := n\<rparr>)"
proof -
  let ?m = "hp_mem s" and ?m' = "set_allocated x 1 (hp_mem s)"
  let ?s' = "s\<lparr>hp_mem := ?m', ck_heap_total_allocated := n\<rparr>"
  have xB: "x \<in> B" using wf x by (auto simp: heap_wf_def)
  note ok = heap_wf_blockD [OF wf xB]
  have bound: "unat x + 12 \<le> block_end ?m x" "block_end ?m x \<le> 4294967296"
    using block_ok_bounds [OF ok(1)] by (simp_all add: block_end_def)
  have "heap_wf ((B - {x}) \<union> {x}) xs ?s' \<and> (\<forall>b \<in> B - {x}. \<forall>i < unat (hdr_size ?m b).
      hp_mem ?s' (b + of_nat i) = ?m (b + of_nat i))"
  proof (rule heap_wf_replace [OF wf, where l = "unat x" and h = "block_end ?m x"])
    show "agree (unat x) (block_end ?m x) ?m (hp_mem ?s')"
      using agree_header_write(3) [OF _ bound] by simp
    show "chain (hp_mem ?s') (ck_heap_freelist ?s') xs"
    proof -
      have "hdr_next ?m' y = hdr_next ?m y" if "y \<in> set xs" for y
        using that wf ok(3) by (cases "y = x") (auto simp: heap_wf_def header_read_apart)
      then show ?thesis using wf chain_cong [of xs ?m' ?m] by (simp add: heap_wf_def)
    qed
  qed (use wf ok in \<open>auto simp: heap_wf_def block_ok_def block_end_def blocks_disjoint_def\<close>)
  then show ?thesis unfolding allocated_block_def
    using xB free sz by (intro exI [of _ B] exI [of _ xs]) (auto simp: insert_absorb)
qed

text \<open>The headers after a split, when the remainder has room for its header.\<close>

lemma malloc_split_headers:
  fixes m :: mem
  assumes "apart x (x + t)"
  defines "m' \<equiv> set_allocated x 1 (malloc_split t x m)"
  shows "hdr_size m' x = t" "hdr_next m' x = x + t" "hdr_allocated m' x = 1"
    "hdr_size m' (x + t) = hdr_size m x - t" "hdr_next m' (x + t) = hdr_next m x"
    "hdr_allocated m' (x + t) = 0"
    "apart y x \<Longrightarrow> apart y (x + t) \<Longrightarrow> hdr_next m' y = hdr_next m y"
  unfolding m'_def malloc_split_def Let_def
  by (simp_all add: header_read_apart assms(1) apart_sym [OF assms(1)])

lemma split_agree:
  assumes "unat x + 12 \<le> unat (x + t)" "unat (x + t) + 12 \<le> h" "h \<le> 4294967296"
  shows "agree (unat x) h m (set_allocated x 1 (malloc_split t x m))"
  unfolding malloc_split_def Let_def
  by (intro agree_trans [OF _ agree_header_write(3)] agree_trans [OF _ agree_header_write(2)]
      agree_trans [OF _ agree_header_write(1)] agree_refl) (use assms in simp_all)

lemma take_split_wf:
  assumes wf: "heap_wf B xs s" and x: "x \<in> set xs" and free: "hdr_allocated (hp_mem s) x = 0"
    and sz: "hdr_size (hp_mem s) x > t" and t: "0 < unat t" "unat t mod 16 = 0"
  shows "allocated_block B s t x (s\<lparr>hp_mem := set_allocated x 1 (malloc_split t x (hp_mem s)),
    ck_heap_total_allocated := n\<rparr>)"
proof -
  let ?m = "hp_mem s" and ?m' = "set_allocated x 1 (malloc_split t x (hp_mem s))" and ?nb = "x + t"
  let ?s' = "s\<lparr>hp_mem := ?m', ck_heap_total_allocated := n\<rparr>"
  have xB: "x \<in> B" using wf x by (auto simp: heap_wf_def)
  note ok = heap_wf_blockD [OF wf xB]
  have lt: "unat t < unat (hdr_size ?m x)" using sz by (simp add: u32_less_unat)
  have m16: "unat (hdr_size ?m x) mod 16 = 0" using ok(1) by (simp add: block_ok_def)
  have t16: "16 \<le> unat t" using t by (rule pos_multiple_16)
  have r16: "unat (hdr_size ?m x) - unat t \<ge> 16" "(unat (hdr_size ?m x) - unat t) mod 16 = 0"
    using diff_multiple_16 [OF lt t(2) m16] by simp_all
  have fin: "block_end ?m x \<le> 268435456" using block_ok_bounds [OF ok(1)] by simp
  have nb: "unat ?nb = unat x + unat t"
    using fin lt by (intro unat_add_u32) (simp add: block_end_def)
  have rest: "unat (hdr_size ?m x - t) = unat (hdr_size ?m x) - unat t"
    using lt by (simp add: unat_diff_u32)
  have ap: "apart x ?nb" using nb t16 fin lt r16 by (intro apartI) (simp_all add: block_end_def)
  note h = malloc_split_headers [OF ap, where m = ?m]
  have ends: "block_end ?m' x = unat ?nb" "block_end ?m' ?nb = block_end ?m x"
    using nb lt rest by (simp_all add: block_end_def h del: header_read_write)
  have okN: "block_ok (used_set (hp_pmem s)) ?m' b \<and> unat x \<le> unat b \<and> block_end ?m' b \<le> block_end ?m x"
    if "b \<in> {x, ?nb}" for b
    using that ok(1) nb rest r16 t t16 lt unfolding block_ok_def
    by (auto simp: ends h simp del: header_read_write) (auto simp: block_end_def word_unat_eq_iff)
  obtain ys zs where xs: "xs = ys @ x # zs" using x by (meson split_list)
  have nx: "hdr_next ?m' y = hdr_next ?m y" if "y \<in> set ys \<union> set zs" for y
  proof -
    have "y \<in> B" "y \<noteq> x" using that wf xs chain_distinct [of ?m "ck_heap_freelist s" xs]
      by (auto simp: heap_wf_def)
    then have "apart y x" "blocks_disjoint ?m y x" "block_ok (used_set (hp_pmem s)) ?m y"
      using ok(2,3) wf by (auto simp: heap_wf_def)
    moreover have "apart y ?nb"
      using calculation(2) block_ok_bounds [OF calculation(3)] nb rest r16 lt fin
        apartI [of y ?nb] apart_sym [OF apartI [of ?nb y]]
      unfolding blocks_disjoint_def block_end_def by force
    ultimately show ?thesis by (intro h(7))
  qed
  have "heap_wf ((B - {x}) \<union> {x, ?nb}) (ys @ x # ?nb # zs) ?s' \<and>
    (\<forall>b \<in> B - {x}. \<forall>i < unat (hdr_size ?m b). hp_mem ?s' (b + of_nat i) = ?m (b + of_nat i))"
  proof (rule heap_wf_replace [OF wf, where l = "unat x" and h = "block_end ?m x"])
    show "agree (unat x) (block_end ?m x) ?m (hp_mem ?s')"
      using split_agree [of x t "block_end ?m x" ?m] nb t16 r16 lt fin by (simp add: block_end_def)
    show "chain (hp_mem ?s') (ck_heap_freelist ?s') (ys @ x # ?nb # zs)"
    proof -
      have "chain ?m (ck_heap_freelist s) (ys @ x # zs)" using wf xs by (simp add: heap_wf_def)
      then have "segment ?m (ck_heap_freelist s) ys x" "chain ?m (hdr_next ?m x) zs" "x \<noteq> 0"
        by (auto simp: chain_append)
      moreover have "?nb \<noteq> 0" using okN [of ?nb] by (simp add: block_ok_def)
      ultimately show ?thesis
        using nx segment_cong [of ys ?m' ?m] chain_cong [of zs ?m' ?m]
        by (auto simp: chain_append h simp del: header_read_write)
    qed
    show "blocks_disjoint (hp_mem ?s') b c" if "b \<in> {x, ?nb}" "c \<in> {x, ?nb}" "b \<noteq> c" for b c
      using that ends by (auto simp: blocks_disjoint_def)
  qed (use wf ok okN xs in \<open>auto simp: heap_wf_def blocks_disjoint_def\<close>)
  then show ?thesis unfolding allocated_block_def
    using free by (intro exI [of _ "(B - {x}) \<union> {x, ?nb}"] exI [of _ "ys @ x # ?nb # zs"])
      (auto simp: h simp del: header_read_write)
qed

text \<open>Growing the heap: the new page is disjoint from every block, by the contract of \<open>Pmem\<close>.\<close>

lemma expand_cases:
  assumes "pmem_inv (hp_pmem s)" "0 \<in> used_set (hp_pmem s)"
  obtains (fail) "ck_heap_expand n s = (0, s)"
      "ck_heap_size s + n > CK_HEAP_MAX_SIZE \<or> used_set (hp_pmem s) = {..<CK_MAX_PAGES}"
  | (page) p pm where "0 < p" "p < CK_MAX_PAGES" "p \<notin> used_set (hp_pmem s)" "pmem_inv pm"
      "used_set pm = insert p (used_set (hp_pmem s))"
      "ck_heap_expand n s = (of_nat p * CK_PAGE_SIZE,
         s\<lparr>hp_pmem := pm, ck_heap_size := ck_heap_size s + 4096\<rparr>)"
      "\<not> (ck_heap_size s + n > CK_HEAP_MAX_SIZE \<or> used_set (hp_pmem s) = {..<CK_MAX_PAGES})"
proof (cases "ck_heap_size s + n > CK_HEAP_MAX_SIZE \<or> used_set (hp_pmem s) = {..<CK_MAX_PAGES}")
  case True
  then have "ck_heap_size s + n > CK_HEAP_MAX_SIZE \<or>
      ck_pmem_alloc_page (hp_pmem s) = (0, hp_pmem s)" using pm.alloc_full [OF assms(1)] by blast
  then have "ck_heap_expand n s = (0, s)" by (auto simp: ck_heap_expand_def)
  then show ?thesis using True by (rule fail)
next
  case False
  then obtain p where p: "p < CK_MAX_PAGES" "p \<notin> used_set (hp_pmem s)"
    "fst (ck_pmem_alloc_page (hp_pmem s)) = of_nat p * CK_PAGE_SIZE"
    "used_set (snd (ck_pmem_alloc_page (hp_pmem s))) = insert p (used_set (hp_pmem s))"
    "pmem_inv (snd (ck_pmem_alloc_page (hp_pmem s)))"
    using pm.alloc_fresh [OF assms(1)] by blast
  have "0 < p" using p(2) assms(2) by (metis gr0I)
  then have "of_nat p * CK_PAGE_SIZE \<noteq> 0" using unat_page_addr [OF p(1)] by (metis mult_eq_0_iff
    not_gr_zero numeral_neq_zero unat_0)
  with False p(3) have "ck_heap_expand n s = (of_nat p * CK_PAGE_SIZE,
      s\<lparr>hp_pmem := snd (ck_pmem_alloc_page (hp_pmem s)), ck_heap_size := ck_heap_size s + 4096\<rparr>)"
    by (simp add: ck_heap_expand_def case_prod_unfold Let_def)
  with p \<open>0 < p\<close> False show ?thesis by (intro page)
qed

lemma new_page_outside:
  assumes "heap_wf B xs s" "p \<notin> used_set (hp_pmem s)" "b \<in> B"
  shows "block_end (hp_mem s) b \<le> p * 4096 \<or> Suc p * 4096 \<le> unat b"
proof -
  obtain q where "q \<in> used_set (hp_pmem s)" "q * 4096 \<le> unat b" "block_end (hp_mem s) b \<le> Suc q * 4096"
    using heap_wf_blockD(1) [OF assms(1,3)] by (auto simp: block_ok_def)
  moreover from this assms(2) have "Suc q \<le> p \<or> Suc p \<le> q" by (metis not_less_eq_eq le_antisym)
  ultimately show ?thesis using mult_le_mono1 [of "Suc q" p 4096] mult_le_mono1 [of "Suc p" q 4096]
    by linarith
qed

lemma grow_replace:
  assumes wf: "heap_wf B xs s"
    and p: "0 < p" "p < CK_MAX_PAGES" "p \<notin> used_set (hp_pmem s)" "pmem_inv pm"
      "used_set pm = insert p (used_set (hp_pmem s))"
    and agree: "agree (p * 4096) (Suc p * 4096) (hp_mem s) m'"
    and N: "\<And>b. b \<in> N \<Longrightarrow> 0 < unat (hdr_size m' b) \<and> unat (hdr_size m' b) mod 16 = 0 \<and>
        p * 4096 \<le> unat b \<and> block_end m' b \<le> Suc p * 4096"
    and N_disj: "\<And>b c. b \<in> N \<Longrightarrow> c \<in> N \<Longrightarrow> b \<noteq> c \<Longrightarrow> blocks_disjoint m' b c"
    and fl: "fl \<in> N" "hdr_next m' fl = ck_heap_freelist s"
    and b: "b \<in> N" "hdr_allocated m' b \<noteq> 0"
  shows "allocated_block B s (hdr_size m' b) b
    (s\<lparr>hp_pmem := pm, ck_heap_size := k, hp_mem := m', ck_heap_freelist := fl,
       ck_heap_total_allocated := n\<rparr>)" (is "allocated_block B s _ b ?s'")
proof -
  note out = new_page_outside [OF wf p(3)]
  have nz: "c \<noteq> 0" if "c \<in> N" for c using N [OF that] p(1) by (auto simp: word_unat_eq_iff)
  have "b \<notin> B" using out [of b] N [OF b(1)] heap_wf_blockD(1) [OF wf, of b]
    by (auto simp: block_end_def block_ok_def)
  have "hdr_next m' y = hdr_next (hp_mem s) y" if "y \<in> set xs" for y
  proof -
    have y: "y \<in> B" using that wf by (auto simp: heap_wf_def)
    show ?thesis using agree_block(3) [OF agree out [OF y]]
        block_ok_bounds [OF heap_wf_blockD(1) [OF wf y]] by simp
  qed
  then have ch: "chain m' fl (fl # xs)"
    using wf chain_cong [of xs m' "hp_mem s"] fl nz by (auto simp: heap_wf_def)
  have "heap_wf (B \<union> N) (fl # xs) ?s' \<and> (\<forall>c \<in> B. \<forall>i < unat (hdr_size (hp_mem s) c).
      hp_mem ?s' (c + of_nat i) = hp_mem s (c + of_nat i))"
  proof (rule heap_wf_replace [OF wf, where l = "p * 4096" and h = "Suc p * 4096"])
    show "block_ok (used_set (hp_pmem ?s')) (hp_mem ?s') c \<and> p * 4096 \<le> unat c \<and>
        block_end (hp_mem ?s') c \<le> Suc p * 4096" if "c \<in> N" for c
      using N [OF that] nz [OF that] p(2) by (auto simp: block_ok_def p(5))
  qed (use wf out agree N_disj p ch fl in \<open>auto simp: heap_wf_def\<close>)
  then show ?thesis unfolding allocated_block_def
    using b \<open>b \<notin> B\<close> by (intro exI [of _ "B \<union> N"] exI [of _ "fl # xs"]) auto
qed

lemma grow_wf:
  assumes wf: "heap_wf B xs s" and t: "0 < unat t" "unat t mod 16 = 0" "unat t \<le> 4096"
  shows "malloc_grow t s = (0, s) \<or> (\<exists>b s'. malloc_grow t s = (b + CK_HEAP_HEADER_SIZE, s') \<and>
     b + CK_HEAP_HEADER_SIZE \<noteq> 0 \<and> allocated_block B s t b s')"
proof -
  have pinv: "pmem_inv (hp_pmem s)" "0 \<in> used_set (hp_pmem s)" using wf by (auto simp: heap_wf_def)
  show ?thesis
  proof (rule expand_cases [OF pinv, of t])
    assume "ck_heap_expand t s = (0, s)"
    then show ?thesis by (simp add: malloc_grow_def)
  next
    fix p pm
    assume p: "0 < p" "p < CK_MAX_PAGES" "p \<notin> used_set (hp_pmem s)" "pmem_inv pm"
        "used_set pm = insert p (used_set (hp_pmem s))"
      and e: "ck_heap_expand t s = (of_nat p * CK_PAGE_SIZE,
         s\<lparr>hp_pmem := pm, ck_heap_size := ck_heap_size s + 4096\<rparr>)"
    define a where "a = of_nat p * CK_PAGE_SIZE"
    have a: "unat a = p * 4096" unfolding a_def by (rule unat_page_addr [OF p(2)])
    have nz: "a \<noteq> 0" using a p(1) by (auto simp: word_unat_eq_iff)
    have a12: "a + CK_HEAP_HEADER_SIZE \<noteq> 0"
    proof -
      have "unat (a + 12) = p * 4096 + 12" using a p(2) by (subst unat_add_u32) simp_all
      then show ?thesis by (metis add_eq_0_iff_both_eq_0 unat_0 zero_neq_numeral)
    qed
    have t16: "16 \<le> unat t" using t by (intro pos_multiple_16)
    note replace = grow_replace [OF wf p, where k = "ck_heap_size s + 4096"
        and n = "ck_heap_total_allocated s + t" and b = a]
    show ?thesis
    proof (cases "4096 > t")
      case False
      then have t4: "t = 4096" using t(3) by (simp add: word_unat_eq_iff u32_less_unat)
      let ?m = "set_next a (ck_heap_freelist s) (set_allocated a 1 (set_size a t (hp_mem s)))"
      have ag: "agree (p * 4096) (Suc p * 4096) (hp_mem s) ?m"
        by (intro agree_trans [OF _ agree_header_write(2)] agree_trans [OF _ agree_header_write(3)]
            agree_trans [OF _ agree_header_write(1)] agree_refl) (use a p(2) in simp_all)
      have "allocated_block B s (hdr_size ?m a) a (s\<lparr>hp_pmem := pm, ck_heap_size := ck_heap_size s + 4096,
          hp_mem := ?m, ck_heap_freelist := a, ck_heap_total_allocated := ck_heap_total_allocated s + t\<rparr>)"
        by (rule replace [where N = "{a}", OF ag]) (use a t t4 in \<open>auto simp: block_end_def\<close>)
      then show ?thesis using e nz a12 False
        by (simp add: malloc_grow_def Let_def flip: a_def)
    next
      case True
      then have lt: "unat t < 4096" by (simp add: u32_less_unat)
      have r16: "16 \<le> 4096 - unat t" "(4096 - unat t) mod 16 = 0"
        using diff_multiple_16 [OF lt t(2)] by simp_all
      have t80: "unat t \<le> 4080" using r16(1) by linarith
      define r where "r = a + t"
      have r: "unat r = p * 4096 + unat t" unfolding r_def using a p(2) lt by (subst unat_add_u32) simp_all
      have sz: "unat (4096 - t) = 4096 - unat t" using lt by (simp add: unat_diff_u32)
      have ap: "apart a r" using a r t16 lt p(2) by (intro apartI) simp_all
      let ?m = "set_next a r (set_next r (ck_heap_freelist s) (set_allocated r 0
        (set_size r (4096 - t) (set_allocated a 1 (set_size a t (hp_mem s))))))"
      have h: "hdr_size ?m a = t" "hdr_allocated ?m a = 1" "hdr_size ?m r = 4096 - t"
        "hdr_next ?m r = ck_heap_freelist s"
        by (simp_all add: header_read_apart ap apart_sym [OF ap])
      have ag: "agree (p * 4096) (Suc p * 4096) (hp_mem s) ?m"
        by (intro agree_trans [OF _ agree_header_write(2)] agree_trans [OF _ agree_header_write(3)]
            agree_trans [OF _ agree_header_write(1)] agree_refl) (use a r t80 p(2) in simp_all)
      have N: "0 < unat (hdr_size ?m b) \<and> unat (hdr_size ?m b) mod 16 = 0 \<and>
          p * 4096 \<le> unat b \<and> block_end ?m b \<le> Suc p * 4096" if "b \<in> {a, r}" for b
        using that a r r16 t lt sz unfolding block_end_def by (elim insertE) (simp_all only: h, simp_all)
      have dj: "blocks_disjoint ?m b c" if "b \<in> {a, r}" "c \<in> {a, r}" "b \<noteq> c" for b c
        using that a r unfolding blocks_disjoint_def block_end_def
        by (elim insertE) (simp_all only: h, simp_all)
      have "allocated_block B s (hdr_size ?m a) a (s\<lparr>hp_pmem := pm, ck_heap_size := ck_heap_size s + 4096,
          hp_mem := ?m, ck_heap_freelist := r, ck_heap_total_allocated := ck_heap_total_allocated s + t\<rparr>)"
        by (rule replace [where N = "{a, r}", OF ag N dj]) (simp_all only: h, simp_all)
      then show ?thesis using e nz a12 True unfolding h
        by (simp add: malloc_grow_def Let_def flip: a_def r_def)
    qed
  qed
qed

lemma malloc_wf:
  assumes wf: "heap_wf B xs s" and t: "(unat sz + 12) mod 16 = 0" "unat sz + 12 \<le> 4096"
  shows "\<exists>r s'. ck_malloc sz s = Some (r, s') \<and>
    (r = 0 \<and> s' = s \<or>
     r \<noteq> 0 \<and> allocated_block B s (sz + CK_HEAP_HEADER_SIZE) (r - CK_HEAP_HEADER_SIZE) s')"
proof -
  let ?t = "sz + CK_HEAP_HEADER_SIZE"
  have ut: "unat ?t = unat sz + 12" using t(2) by (subst unat_add_u32) simp_all
  then have t': "0 < unat ?t" "unat ?t mod 16 = 0" "unat ?t \<le> 4096" using t by simp_all
  have nz: "sz \<noteq> 0" using t(1) by auto
  have ch: "chain (hp_mem s) (ck_heap_freelist s) xs" "set xs \<subseteq> B" using wf by (auto simp: heap_wf_def)
  show ?thesis
  proof (cases "find (fits (hp_mem s) ?t) xs")
    case None
    then have "ck_malloc sz s = Some (malloc_grow ?t s)"
      using nz malloc_search_chain [OF ch(1), of ?t] by (simp add: ck_malloc_def Let_def)
    then show ?thesis using grow_wf [OF wf t'] by force
  next
    case (Some x)
    then have x: "x \<in> set xs" "fits (hp_mem s) ?t x" by (auto simp: find_Some_iff)
    then have x0: "x \<noteq> 0" using chain_nonzero [OF ch(1)] by auto
    have ok: "block_ok (used_set (hp_pmem s)) (hp_mem s) x"
      using heap_wf_blockD(1) [OF wf] x(1) ch(2) by blast
    have "unat (x + 12) = unat x + 12"
      using block_ok_bounds [OF ok] by (subst unat_add_u32) (simp_all add: block_end_def)
    then have r: "x + CK_HEAP_HEADER_SIZE \<noteq> 0" by (metis add_eq_0_iff_both_eq_0 unat_0 zero_neq_numeral)
    have "ck_malloc sz s = Some (malloc_take ?t x s)"
      using nz x0 Some malloc_search_chain [OF ch(1), of ?t] by (simp add: ck_malloc_def Let_def)
    moreover have "allocated_block B s ?t x (snd (malloc_take ?t x s))"
      using x take_split_wf [OF wf x(1) _ _ t'(1,2)] take_exact_wf [OF wf x(1), of ?t]
      by (auto simp: malloc_take_def Let_def fits_def)
    moreover have "fst (malloc_take ?t x s) = x + CK_HEAP_HEADER_SIZE" by (simp add: malloc_take_def)
    ultimately show ?thesis using r
      by (intro exI [of _ "x + CK_HEAP_HEADER_SIZE"] exI [of _ "snd (malloc_take ?t x s)"])
        (simp add: prod_eq_iff)
  qed
qed

section \<open>Initialisation and release\<close>

lemma heap_init_page:
  assumes "pmem_inv (hp_pmem s)" "used_set (hp_pmem s) = {..<k}" "0 < k" "k < CK_MAX_PAGES"
  defines "b \<equiv> of_nat k * CK_PAGE_SIZE"
  shows "ck_heap_init s = \<lparr>ck_heap_total_allocated = 0, ck_heap_total_freed = 0,
      ck_heap_freelist = b, ck_heap_size = 4096,
      hp_mem = set_next b 0 (set_allocated b 0 (set_size b 4096 (hp_mem s))),
      hp_pmem = snd (ck_pmem_alloc_page (hp_pmem s))\<rparr>"
proof -
  have "b \<noteq> 0" using unat_page_addr [OF assms(4)] assms(3) by (auto simp: b_def word_unat_eq_iff)
  then show ?thesis using alloc_next(1) [OF assms(1,2,4)]
    by (cases s) (simp add: ck_heap_init_def ck_heap_expand_def Let_def case_prod_unfold b_def)
qed

lemma heap_wf_init:
  assumes "pmem_inv (hp_pmem s)" "used_set (hp_pmem s) = {..<k}" "0 < k" "k < CK_MAX_PAGES"
  shows "heap_wf {of_nat k * CK_PAGE_SIZE} [of_nat k * CK_PAGE_SIZE] (ck_heap_init s)"
proof -
  have "of_nat k * CK_PAGE_SIZE \<noteq> 0"
    using unat_page_addr [OF assms(4)] assms(3) by (auto simp: word_unat_eq_iff)
  then show ?thesis
    using alloc_next [OF assms(1,2,4)] unat_page_addr [OF assms(4)] assms(3,4)
    by (auto simp: heap_init_page [OF assms] heap_wf_def block_ok_def block_end_def)
qed

lemma free_allocated:
  assumes "b + CK_HEAP_HEADER_SIZE \<noteq> 0" "hdr_allocated (hp_mem s) b \<noteq> 0"
  shows "ck_free (b + CK_HEAP_HEADER_SIZE) s =
    s\<lparr>hp_mem := set_next b (ck_heap_freelist s) (set_allocated b 0 (hp_mem s)),
      ck_heap_total_freed := ck_heap_total_freed s + hdr_size (hp_mem s) b, ck_heap_freelist := b\<rparr>"
  using assms by (simp add: ck_free_def Let_def)

lemma block_data_nonzero:
  assumes "block_ok U m b"
  shows "b + CK_HEAP_HEADER_SIZE \<noteq> 0"
proof -
  have "unat (b + 12) = unat b + 12"
    using block_ok_bounds [OF assms] by (subst unat_add_u32) (simp_all add: block_end_def)
  then show ?thesis by (metis add_eq_0_iff_both_eq_0 unat_0 zero_neq_numeral)
qed

text \<open>Releasing a block that is not on the free list puts it in front and disturbs nothing else.\<close>

lemma free_wf:
  assumes wf: "heap_wf B xs s" and b: "b \<in> B" "b \<notin> set xs" "hdr_allocated (hp_mem s) b \<noteq> 0"
  shows "heap_wf B (b # xs) (ck_free (b + CK_HEAP_HEADER_SIZE) s) \<and>
    hdr_allocated (hp_mem (ck_free (b + CK_HEAP_HEADER_SIZE) s)) b = 0 \<and>
    (\<forall>c \<in> B - {b}. \<forall>i < unat (hdr_size (hp_mem s) c).
       hp_mem (ck_free (b + CK_HEAP_HEADER_SIZE) s) (c + of_nat i) = hp_mem s (c + of_nat i))"
proof -
  note ok = heap_wf_blockD [OF wf b(1)]
  let ?m = "hp_mem s" and ?m' = "set_next b (ck_heap_freelist s) (set_allocated b 0 (hp_mem s))"
  let ?s' = "ck_free (b + CK_HEAP_HEADER_SIZE) s"
  have e: "?s' = s\<lparr>hp_mem := ?m', ck_heap_total_freed := ck_heap_total_freed s + hdr_size ?m b,
      ck_heap_freelist := b\<rparr>" by (rule free_allocated [OF block_data_nonzero [OF ok(1)] b(3)])
  have bound: "unat b + 12 \<le> block_end ?m b" "block_end ?m b \<le> 4294967296"
    using block_ok_bounds [OF ok(1)] by (simp_all add: block_end_def)
  have "apart y b" if "y \<in> set xs" for y
    using that wf b(2) ok(3) by (metis heap_wf_def subsetD)
  then have "hdr_next ?m' y = hdr_next ?m y" if "y \<in> set xs" for y
    using that by (simp add: header_read_apart)
  then have ch: "chain ?m' b (b # xs)"
    using wf ok(1) chain_cong [of xs ?m' ?m] by (auto simp: heap_wf_def block_ok_def)
  have "heap_wf ((B - {b}) \<union> {b}) (b # xs) ?s' \<and> (\<forall>c \<in> B - {b}. \<forall>i < unat (hdr_size ?m c).
      hp_mem ?s' (c + of_nat i) = ?m (c + of_nat i))"
  proof (rule heap_wf_replace [OF wf, where l = "unat b" and h = "block_end ?m b"])
    show "agree (unat b) (block_end ?m b) ?m (hp_mem ?s')"
      using agree_trans [OF agree_header_write(3) [OF _ bound] agree_header_write(2) [OF _ bound]]
      by (simp add: e)
    show "chain (hp_mem ?s') (ck_heap_freelist ?s') (b # xs)" using ch by (simp add: e)
  qed (use wf ok b(1) in \<open>auto simp: e heap_wf_def block_ok_def block_end_def blocks_disjoint_def\<close>)
  then show ?thesis using b(1) by (simp add: e insert_absorb)
qed

section \<open>What a block looks like when it is handed out\<close>

text \<open>
  The header of a block that is taken, whatever its remainder overwrites: the fields of the block
  itself are written last.
\<close>

lemma malloc_take_block:
  assumes "t \<le> hdr_size (hp_mem s) x"
  defines "s' \<equiv> snd (malloc_take t x s)"
  shows "malloc_take t x s = (x + CK_HEAP_HEADER_SIZE, s')"
    and "hdr_allocated (hp_mem s') x = 1" "hdr_size (hp_mem s') x = t"
    and "t < hdr_size (hp_mem s) x \<Longrightarrow> hdr_next (hp_mem s') x = x + t"
    and "hdr_size (hp_mem s) x = t \<Longrightarrow> hp_mem s' = (hp_mem s)(x + 4 := 1)"
    and "t < hdr_size (hp_mem s) x \<Longrightarrow> apart x (x + t) \<Longrightarrow>
      hdr_size (hp_mem s') (x + t) = hdr_size (hp_mem s) x - t \<and>
      hdr_allocated (hp_mem s') (x + t) = 0 \<and> hdr_next (hp_mem s') (x + t) = hdr_next (hp_mem s) x"
    and "ck_heap_total_allocated s' = ck_heap_total_allocated s + t"
    and "s' = s\<lparr>hp_mem := hp_mem s', ck_heap_total_allocated := ck_heap_total_allocated s'\<rparr>"
proof -
  let ?m = "hp_mem s"
  have e: "hp_mem s' = set_allocated x 1 (if t < hdr_size ?m x then malloc_split t x ?m else ?m)"
    by (simp add: s'_def malloc_take_def)
  have split: "hdr_size (malloc_split t x ?m) x = t" "hdr_next (malloc_split t x ?m) x = x + t"
    by (simp_all add: malloc_split_def Let_def)
  show "malloc_take t x s = (x + CK_HEAP_HEADER_SIZE, s')"
    "ck_heap_total_allocated s' = ck_heap_total_allocated s + t"
    "s' = s\<lparr>hp_mem := hp_mem s', ck_heap_total_allocated := ck_heap_total_allocated s'\<rparr>"
    by (simp_all add: s'_def malloc_take_def Let_def)
  show "hdr_allocated (hp_mem s') x = 1" "hdr_size (hp_mem s') x = t"
    using assms(1) split by (simp_all add: e)
  show "hdr_next (hp_mem s') x = x + t" if "t < hdr_size ?m x" using that split by (simp add: e)
  show "hp_mem s' = ?m(x + 4 := 1)" if "hdr_size ?m x = t"
    using that by (simp add: e set_allocated_def)
  show "hdr_size (hp_mem s') (x + t) = hdr_size ?m x - t \<and> hdr_allocated (hp_mem s') (x + t) = 0 \<and>
      hdr_next (hp_mem s') (x + t) = hdr_next ?m x" if "t < hdr_size ?m x" "apart x (x + t)"
    using that(1) malloc_split_headers(4-6) [OF that(2), of ?m] by (simp add: e)
qed

text \<open>The headers written into a new page; the request does not wrap, so its header fits.\<close>

lemma malloc_grow_block:
  assumes e: "ck_heap_expand t s = (a, s1)" and "a \<noteq> 0" and t: "12 \<le> t"
  defines "s' \<equiv> snd (malloc_grow t s)"
  shows "malloc_grow t s = (a + CK_HEAP_HEADER_SIZE, s')"
    and "hdr_allocated (hp_mem s') a = 1" "hdr_size (hp_mem s') a = t"
    and "t < 4096 \<Longrightarrow> ck_heap_freelist s' = a + t \<and> hdr_size (hp_mem s') (a + t) = 4096 - t \<and>
      hdr_allocated (hp_mem s') (a + t) = 0 \<and> hdr_next (hp_mem s') (a + t) = ck_heap_freelist s1"
    and "4096 \<le> t \<Longrightarrow> ck_heap_freelist s' = a \<and> hdr_next (hp_mem s') a = ck_heap_freelist s1 \<and>
      (\<forall>y. apart y a \<longrightarrow> hdr_size (hp_mem s') y = hdr_size (hp_mem s1) y \<and>
        hdr_allocated (hp_mem s') y = hdr_allocated (hp_mem s1) y \<and>
        hdr_next (hp_mem s') y = hdr_next (hp_mem s1) y)"
    and "ck_heap_total_allocated s' = ck_heap_total_allocated s1 + t"
    and "ck_heap_size s' = ck_heap_size s1" "hp_pmem s' = hp_pmem s1"
    and "ck_heap_total_freed s' = ck_heap_total_freed s1"
proof -
  have ap: "apart a (a + t)" "apart (a + t) a" if "t < 4096"
  proof -
    have "unat (0 - t) = 4294967296 - unat t"
      using t by (subst unat_diff_u32) (auto simp: u32_le_unat)
    with that t show "apart a (a + t)" "apart (a + t) a"
      by (simp_all add: apart_def u32_le_unat u32_less_unat)
  qed
  define m1 where "m1 = set_allocated a 1 (set_size a t (hp_mem s1))"
  define m2 where "m2 = (if t < 4096 then set_next a (a + t) (set_next (a + t) (ck_heap_freelist s1)
      (set_allocated (a + t) 0 (set_size (a + t) (4096 - t) m1)))
    else set_next a (ck_heap_freelist s1) m1)"
  have g: "malloc_grow t s = (a + CK_HEAP_HEADER_SIZE, s1\<lparr>hp_mem := m2,
      ck_heap_freelist := (if t < 4096 then a + t else a),
      ck_heap_total_allocated := ck_heap_total_allocated s1 + t\<rparr>)"
    using e \<open>a \<noteq> 0\<close> by (simp add: malloc_grow_def Let_def m1_def m2_def)
  then have s': "s' = s1\<lparr>hp_mem := m2, ck_heap_freelist := (if t < 4096 then a + t else a),
      ck_heap_total_allocated := ck_heap_total_allocated s1 + t\<rparr>" by (simp add: s'_def)
  show "malloc_grow t s = (a + CK_HEAP_HEADER_SIZE, s')" by (simp only: g s')
  show "ck_heap_total_allocated s' = ck_heap_total_allocated s1 + t"
    "ck_heap_size s' = ck_heap_size s1" "hp_pmem s' = hp_pmem s1"
    "ck_heap_total_freed s' = ck_heap_total_freed s1" by (simp_all add: s')
  have m1: "hdr_allocated m1 a = 1" "hdr_size m1 a = t" by (simp_all add: m1_def)
  show "hdr_allocated (hp_mem s') a = 1" "hdr_size (hp_mem s') a = t"
    using ap m1 by (simp_all add: s' m2_def header_read_apart)
  show "ck_heap_freelist s' = a + t \<and> hdr_size (hp_mem s') (a + t) = 4096 - t \<and>
      hdr_allocated (hp_mem s') (a + t) = 0 \<and> hdr_next (hp_mem s') (a + t) = ck_heap_freelist s1"
    if "t < 4096" using that ap by (simp add: s' m2_def header_read_apart)
  show "ck_heap_freelist s' = a \<and> hdr_next (hp_mem s') a = ck_heap_freelist s1 \<and>
      (\<forall>y. apart y a \<longrightarrow> hdr_size (hp_mem s') y = hdr_size (hp_mem s1) y \<and>
        hdr_allocated (hp_mem s') y = hdr_allocated (hp_mem s1) y \<and>
        hdr_next (hp_mem s') y = hdr_next (hp_mem s1) y)" if "4096 \<le> t"
  proof -
    from that have "\<not> t < 4096" by simp
    then have "m2 = set_next a (ck_heap_freelist s1) m1" "ck_heap_freelist s' = a"
      by (simp_all add: m2_def s')
    then show ?thesis by (simp add: s' m1_def header_read_apart)
  qed
qed

text \<open>
  A weaker well-formedness, which the kernel's own requests keep: the free list ends, every header on
  it lies inside one page that the page allocator has handed out, and no free block is larger than a
  page. Blocks may overlap.
\<close>

definition headers_wf :: "u32 list \<Rightarrow> heap \<Rightarrow> bool" where
  "headers_wf xs s \<longleftrightarrow> pmem_inv (hp_pmem s) \<and> 0 \<in> used_set (hp_pmem s) \<and>
     chain (hp_mem s) (ck_heap_freelist s) xs \<and>
     (\<forall>x \<in> set xs. (hdr_allocated (hp_mem s) x = 0 \<longrightarrow> hdr_size (hp_mem s) x \<le> 4096) \<and>
        (\<exists>p \<in> used_set (hp_pmem s). p < CK_MAX_PAGES \<and> p * 4096 \<le> unat x \<and> unat x + 12 \<le> Suc p * 4096))"

lemma heap_wf_headers_wf:
  assumes "heap_wf B xs s"
  shows "headers_wf xs s"
proof -
  have "(hdr_allocated (hp_mem s) x = 0 \<longrightarrow> hdr_size (hp_mem s) x \<le> 4096) \<and>
      (\<exists>p \<in> used_set (hp_pmem s). p < CK_MAX_PAGES \<and> p * 4096 \<le> unat x \<and> unat x + 12 \<le> Suc p * 4096)"
    if "x \<in> set xs" for x
  proof -
    have ok: "block_ok (used_set (hp_pmem s)) (hp_mem s) x"
      using assms that by (auto simp: heap_wf_def)
    then obtain p where p: "p \<in> used_set (hp_pmem s)" "p < CK_MAX_PAGES" "p * 4096 \<le> unat x"
      "block_end (hp_mem s) x \<le> Suc p * 4096" by (auto simp: block_ok_def)
    then have "unat (hdr_size (hp_mem s) x) \<le> 4096" "unat x + 12 \<le> Suc p * 4096"
      using block_ok_bounds [OF ok] by (simp_all add: block_end_def)
    with p show ?thesis by (auto simp: u32_le_unat)
  qed
  with assms show ?thesis by (simp add: headers_wf_def heap_wf_def)
qed

lemma header_apart_page:
  assumes "q \<noteq> p" "p < CK_MAX_PAGES" "q < CK_MAX_PAGES"
    and "q * 4096 \<le> unat y" "unat y + 12 \<le> Suc q * 4096"
  shows "apart y (of_nat p * CK_PAGE_SIZE)"
proof -
  have a: "unat (of_nat p * CK_PAGE_SIZE) = p * 4096" by (rule unat_page_addr [OF assms(2)])
  consider "Suc q \<le> p" | "Suc p \<le> q" using assms(1) by linarith
  then show ?thesis
  proof cases
    case 1
    then have "Suc q * 4096 \<le> p * 4096" by (rule mult_le_mono1)
    with assms a show ?thesis by (intro apartI) simp_all
  next
    case 2
    then have "Suc p * 4096 \<le> q * 4096" by (rule mult_le_mono1)
    with assms a show ?thesis by (intro apart_sym [OF apartI]) simp_all
  qed
qed

text \<open>
  A request larger than a page always grows the heap by one page; it fails exactly at the limit of
  256 MB or when no page is free, and keeps the list in order.
\<close>

lemma malloc_large:
  assumes wf: "headers_wf xs s" and sz: "4096 < unat sz + 12" "unat sz + 12 < 2 ^ 32"
  obtains (fail) "ck_malloc sz s = Some (0, s)"
      "ck_heap_size s + (sz + 12) > CK_HEAP_MAX_SIZE \<or> used_set (hp_pmem s) = {..<CK_MAX_PAGES}"
  | (page) a s' where "ck_malloc sz s = Some (a + CK_HEAP_HEADER_SIZE, s')" "headers_wf (a # xs) s'"
      "a + CK_HEAP_HEADER_SIZE \<noteq> 0" "a \<notin> set xs" "hdr_allocated (hp_mem s') a = 1"
      "\<not> (ck_heap_size s + (sz + 12) > CK_HEAP_MAX_SIZE \<or> used_set (hp_pmem s) = {..<CK_MAX_PAGES})"
      "\<And>y. y \<in> set xs \<Longrightarrow> hdr_size (hp_mem s') y = hdr_size (hp_mem s) y \<and>
         hdr_allocated (hp_mem s') y = hdr_allocated (hp_mem s) y"
proof -
  let ?t = "sz + CK_HEAP_HEADER_SIZE"
  have t: "unat ?t = unat sz + 12" using sz(2) by (subst unat_add_u32) simp_all
  have inv: "pmem_inv (hp_pmem s)" "0 \<in> used_set (hp_pmem s)" and
    ch: "chain (hp_mem s) (ck_heap_freelist s) xs" using wf by (simp_all add: headers_wf_def)
  have "\<not> fits (hp_mem s) ?t x" if "x \<in> set xs" for x
    using that wf sz(1) t by (auto simp: headers_wf_def fits_def u32_le_unat)
  then have "find (fits (hp_mem s) ?t) xs = None" by (auto simp: find_None_iff)
  moreover have "sz \<noteq> 0" using sz(1) by auto
  ultimately have m: "ck_malloc sz s = Some (malloc_grow ?t s)"
    using malloc_search_chain [OF ch] by (simp add: ck_malloc_def Let_def)
  show ?thesis
  proof (cases rule: expand_cases [OF inv, of ?t, case_names fail page])
    case fail
    then show ?thesis using m by (intro that(1)) (simp_all add: malloc_grow_def)
  next
    case (page p pg)
    define a where "a = of_nat p * CK_PAGE_SIZE"
    have a: "unat a = p * 4096" unfolding a_def by (rule unat_page_addr [OF page(2)])
    then have "a \<noteq> 0" using page(1) by (auto simp: word_unat_eq_iff)
    have "unat (a + 12) = p * 4096 + 12" using a page(2) by (subst unat_add_u32) simp_all
    then have a12: "a + CK_HEAP_HEADER_SIZE \<noteq> 0"
      by (metis add_eq_0_iff_both_eq_0 unat_0 zero_neq_numeral)
    have t': "12 \<le> ?t" "4096 \<le> ?t" using t sz(1) by (simp_all add: u32_le_unat)
    note g = malloc_grow_block [OF page(6) [folded a_def] \<open>a \<noteq> 0\<close> t'(1)]
    note h = g(5) [OF t'(2)]
    let ?s = "snd (malloc_grow ?t s)"
    have ap: "apart y a" if y: "y \<in> set xs" for y
    proof -
      obtain q where "q \<in> used_set (hp_pmem s)" "q < CK_MAX_PAGES" "q * 4096 \<le> unat y"
        "unat y + 12 \<le> Suc q * 4096" using wf y by (auto simp: headers_wf_def)
      then show ?thesis using page(2,3) unfolding a_def by (intro header_apart_page) auto
    qed
    then have same: "hdr_size (hp_mem ?s) y = hdr_size (hp_mem s) y \<and>
        hdr_allocated (hp_mem ?s) y = hdr_allocated (hp_mem s) y"
      "hdr_next (hp_mem ?s) y = hdr_next (hp_mem s) y" if "y \<in> set xs" for y
      using h that by simp_all
    have "chain (hp_mem ?s) (ck_heap_freelist ?s) (a # xs)"
      using h ch chain_cong [of xs "hp_mem ?s" "hp_mem s"] same(2) \<open>a \<noteq> 0\<close> by simp
    moreover have "a \<notin> set xs" using ap [of a] by (auto simp: apart_def)
    moreover have "hp_pmem ?s = pg" using g(8) by simp
    ultimately have "headers_wf (a # xs) ?s"
      using wf page(2,4,5) a g(2) same(1) by (auto simp: headers_wf_def)
    then show ?thesis
      using m g(1,2) a12 \<open>a \<notin> set xs\<close> page(7) same(1) by (intro that(2) [of a ?s]) simp_all
  qed
qed

section \<open>Properties of the heap\<close>

text \<open>A freshly initialised heap for the witnesses: its first page is at 0x180000.\<close>

definition fresh_heap :: heap where
  "fresh_heap = ck_heap_init (heap_static (ck_pmem_init pmem_static))"

lemma fresh_heap_eq:
  "fresh_heap = \<lparr>ck_heap_total_allocated = 0, ck_heap_total_freed = 0, ck_heap_freelist = 0x180000,
     ck_heap_size = 4096,
     hp_mem = set_next 0x180000 0 (set_allocated 0x180000 0 (set_size 0x180000 4096 (\<lambda>_. 0))),
     hp_pmem = snd (ck_pmem_alloc_page (ck_pmem_init pmem_static))\<rparr>"
  using heap_init_page [of "heap_static (ck_pmem_init pmem_static)" 384]
  by (simp add: fresh_heap_def heap_static_def init_state)

lemma fresh_heap_wf: "heap_wf {0x180000} [0x180000] fresh_heap"
  using heap_wf_init [of "heap_static (ck_pmem_init pmem_static)" 384]
  by (simp add: fresh_heap_def heap_static_def init_state)

text \<open>Two real continuations of it: a request larger than a page, and one after the page is used up.\<close>

lemma second_page:
  assumes "hp_pmem s = hp_pmem fresh_heap" "ck_heap_size s = 4096" "t \<le> 8192"
  shows "ck_heap_expand t s = (0x181000,
    s\<lparr>hp_pmem := snd (ck_pmem_alloc_page (hp_pmem fresh_heap)), ck_heap_size := 8192\<rparr>)"
proof -
  have fh: "hp_pmem fresh_heap = snd (ck_pmem_alloc_page (ck_pmem_init pmem_static))"
    by (simp add: fresh_heap_eq)
  have "used_set (hp_pmem fresh_heap) = {..<385}" "pmem_inv (hp_pmem fresh_heap)"
    using alloc_next(2,3) [of "ck_pmem_init pmem_static" 384] by (simp_all add: fh init_state)
  from alloc_next(1) [OF this(2,1)] have "fst (ck_pmem_alloc_page (hp_pmem s)) = 0x181000"
    by (simp add: assms(1))
  moreover have "\<not> ck_heap_size s + t > CK_HEAP_MAX_SIZE"
  proof -
    have "unat (4096 + t) \<le> 268435456"
      using assms(3) by (subst unat_add_u32) (simp_all add: u32_le_unat)
    then show ?thesis by (simp add: assms(2) u32_less_unat not_less)
  qed
  ultimately show ?thesis
    by (cases "ck_pmem_alloc_page (hp_pmem s)") (simp add: ck_heap_expand_def assms(1,2))
qed

lemma fresh_malloc_stack:
  obtains s1 where "ck_malloc 4096 fresh_heap = Some (0x18100C, s1)"
    "chain (hp_mem s1) (ck_heap_freelist s1) [0x181000, 0x180000]"
    "hdr_size (hp_mem s1) 0x181000 = 4108" "hdr_allocated (hp_mem s1) 0x181000 = 1"
    "hdr_size (hp_mem s1) 0x180000 = 4096" "hdr_allocated (hp_mem s1) 0x180000 = 0"
    "hdr_next (hp_mem s1) 0x180000 = 0"
proof -
  let ?s1 = "snd (malloc_grow 4108 fresh_heap)"
  have e: "ck_heap_expand 4108 fresh_heap = (0x181000,
      fresh_heap\<lparr>hp_pmem := snd (ck_pmem_alloc_page (hp_pmem fresh_heap)), ck_heap_size := 8192\<rparr>)"
    by (rule second_page) (simp_all add: fresh_heap_eq)
  note g = malloc_grow_block [OF e]
  have "malloc_search (hp_mem fresh_heap) 4108 (ck_heap_freelist fresh_heap) = Some 0"
    by (simp add: malloc_search_chain [of _ _ "[0x180000]"] fresh_heap_eq fits_def)
  then have "ck_malloc 4096 fresh_heap = Some (0x18100C, ?s1)"
    using g(1) by (simp add: ck_malloc_def Let_def)
  moreover have "apart 0x180000 0x181000" by (simp add: apart_def)
  with g(5) have "ck_heap_freelist ?s1 = 0x181000 \<and> hdr_next (hp_mem ?s1) 0x181000 = 0x180000 \<and>
      hdr_size (hp_mem ?s1) 0x180000 = 4096 \<and> hdr_allocated (hp_mem ?s1) 0x180000 = 0 \<and>
      hdr_next (hp_mem ?s1) 0x180000 = 0"
    by (simp add: fresh_heap_eq)
  ultimately show ?thesis using g(2,3) by (intro that [of ?s1]) simp_all
qed

lemma fresh_malloc_off_list:
  obtains s1 s2 B where "ck_malloc 4084 fresh_heap = Some (0x18000C, s1)"
    "ck_malloc 20 s1 = Some (0x18100C, s2)" "heap_wf B [0x181020, 0x180000] s2" "0x181000 \<in> B"
    "hdr_allocated (hp_mem s2) 0x181000 = 1" "hdr_size (hp_mem s2) 0x181000 = 32"
    "ck_heap_total_freed s2 = 0"
proof -
  let ?m = "hp_mem fresh_heap"
  let ?s1 = "snd (malloc_take 4096 0x180000 fresh_heap)"
  have sz: "hdr_size ?m 0x180000 = 4096" by (simp add: fresh_heap_eq)
  note t = malloc_take_block [where s = fresh_heap and x = "0x180000" and t = 4096]
  have m1: "hp_mem ?s1 = set_allocated 0x180000 1 ?m"
    using t(5) sz by (simp add: set_allocated_def)
  have "malloc_search ?m 4096 (ck_heap_freelist fresh_heap) = Some 0x180000"
    by (simp add: malloc_search_chain [of _ _ "[0x180000]"] fresh_heap_eq fits_def)
  then have 1: "ck_malloc 4084 fresh_heap = Some (0x18000C, ?s1)"
    using t(1) sz by (simp add: ck_malloc_def Let_def)
  have s1: "ck_heap_freelist ?s1 = 0x180000" "hp_pmem ?s1 = hp_pmem fresh_heap" "ck_heap_size ?s1 = 4096"
    "ck_heap_total_freed ?s1 = 0"
    by (simp_all add: malloc_take_def Let_def fresh_heap_eq)
  have ch1: "chain (hp_mem ?s1) (ck_heap_freelist ?s1) [0x180000]"
    by (simp add: m1 s1) (simp add: fresh_heap_eq)
  obtain B1 xs1 where wf1: "heap_wf B1 xs1 ?s1"
    using malloc_wf [OF fresh_heap_wf, of 4084] 1 by (auto simp: allocated_block_def)
  let ?s2 = "snd (malloc_grow 32 ?s1)"
  have e: "ck_heap_expand 32 ?s1 = (0x181000,
      ?s1\<lparr>hp_pmem := snd (ck_pmem_alloc_page (hp_pmem fresh_heap)), ck_heap_size := 8192\<rparr>)"
    by (rule second_page [OF s1(2,3)]) simp
  note g = malloc_grow_block [OF e]
  have "find (fits (hp_mem ?s1) 32) [0x180000] = None" by (simp add: fits_def m1)
  then have 2: "ck_malloc 20 ?s1 = Some (0x18100C, ?s2)"
    using malloc_search_chain [OF ch1, of 32] g(1) by (simp add: ck_malloc_def Let_def)
  obtain B2 xs2 where wf2: "heap_wf B2 xs2 ?s2" "0x181000 \<in> B2" and
    keep: "\<And>c i. c \<in> B1 \<Longrightarrow> hdr_allocated (hp_mem ?s1) c \<noteq> 0 \<Longrightarrow> i < unat (hdr_size (hp_mem ?s1) c) \<Longrightarrow>
      hp_mem ?s2 (c + of_nat i) = hp_mem ?s1 (c + of_nat i)"
    using malloc_wf [OF wf1, of 20] 2 by (auto simp: allocated_block_def)
  have "xs1 = [0x180000]" using wf1 chain_unique [OF ch1, of xs1] by (simp add: heap_wf_def)
  then have "0x180000 \<in> B1" using wf1 by (simp add: heap_wf_def)
  from keep [OF this] have "hp_mem ?s2 (0x180000 + of_nat i) = hp_mem ?s1 (0x180000 + of_nat i)" if "i < 12" for i
    using that sz by (simp add: m1)
  from header_cong(2) [of "hp_mem ?s2" "0x180000" "hp_mem ?s1", OF this] have "hdr_next (hp_mem ?s2) 0x180000 = 0"
    by (simp add: m1) (simp add: fresh_heap_eq)
  then have "chain (hp_mem ?s2) (ck_heap_freelist ?s2) [0x181020, 0x180000]"
    using g(4) s1(1) by simp
  then have "xs2 = [0x181020, 0x180000]" using wf2(1) chain_unique by (auto simp: heap_wf_def)
  with 1 2 wf2 g(2,3,9) s1(4) show ?thesis by (intro that [of ?s1 ?s2 B2]) simp_all
qed

text \<open>
  C6: on a well-formed heap, a request whose total size (with its header) is a multiple of 16
  that fits in a page always returns. It returns NULL and changes nothing, or it returns the data
  address of an allocated block of exactly that total size that was not in use; the heap is well
  formed again (all blocks pairwise disjoint, inside allocated pages), and every block that was
  allocated before is still there with every byte unchanged.
\<close>

theorem heap_malloc_safe:
  assumes "heap_wf B xs s" "(unat sz + 12) mod 16 = 0" "unat sz + 12 \<le> 4096"
  shows "\<exists>r s'. ck_malloc sz s = Some (r, s') \<and>
    (r = 0 \<and> s' = s \<or>
     r \<noteq> 0 \<and> allocated_block B s (sz + CK_HEAP_HEADER_SIZE) (r - CK_HEAP_HEADER_SIZE) s')"
  using assms by (rule malloc_wf)

theorem heap_malloc_safe_witness:
  "\<exists>r s'. ck_malloc 52 fresh_heap = Some (r, s') \<and> (r = 0 \<and> s' = fresh_heap \<or>
     r \<noteq> 0 \<and> allocated_block {0x180000} fresh_heap 64 (r - CK_HEAP_HEADER_SIZE) s')"
  using heap_malloc_safe [OF fresh_heap_wf, of 52] by simp

text \<open>
  C21: as long as the free list ends in NULL, \<^verbatim>\<open>ck_malloc\<close> returns and is first fit. A request for
  \<open>sz\<close> bytes takes the first block of the list whose \<open>allocated\<close> byte is 0 and whose size is at least
  \<open>sz + 12\<close>: it returns that block's data address, the block is marked allocated and cut to exactly
  \<open>sz + 12\<close> bytes, what is left of a larger block (where its header does not overlap) is a free block
  linked behind it, and a block of exactly that size changes in no other byte. Only when there is
  none does the heap grow: NULL past the limit of 256 MB or without a free page, and otherwise a
  new page starts with the allocated block, and its rest, if there is any, becomes the head of the list.
\<close>

theorem heap_malloc_first_fit:
  fixes s :: heap and sz :: u32
  assumes "chain (hp_mem s) (ck_heap_freelist s) xs" "sz \<noteq> 0"
  defines "m \<equiv> hp_mem s" and "t \<equiv> sz + 12"
  shows "case find (\<lambda>x. hdr_allocated m x = 0 \<and> t \<le> hdr_size m x) xs of
      Some x \<Rightarrow> \<exists>s'. ck_malloc sz s = Some (x + 12, s') \<and>
        hdr_allocated (hp_mem s') x = 1 \<and> hdr_size (hp_mem s') x = t \<and>
        ck_heap_total_allocated s' = ck_heap_total_allocated s + t \<and>
        s' = s\<lparr>hp_mem := hp_mem s', ck_heap_total_allocated := ck_heap_total_allocated s'\<rparr> \<and>
        (hdr_size m x = t \<longrightarrow> hp_mem s' = m(x + 4 := 1)) \<and>
        (t < hdr_size m x \<longrightarrow> hdr_next (hp_mem s') x = x + t) \<and>
        (t < hdr_size m x \<and> apart x (x + t) \<longrightarrow> hdr_size (hp_mem s') (x + t) = hdr_size m x - t \<and>
           hdr_allocated (hp_mem s') (x + t) = 0 \<and> hdr_next (hp_mem s') (x + t) = hdr_next m x)
    | None \<Rightarrow>
        (if ck_heap_size s + t > CK_HEAP_MAX_SIZE then ck_malloc sz s = Some (0, s)
         else case ck_pmem_alloc_page (hp_pmem s) of (a, pg) \<Rightarrow>
           if a = 0 then ck_malloc sz s = Some (0, s\<lparr>hp_pmem := pg\<rparr>)
           else \<exists>s'. ck_malloc sz s = Some (a + 12, s') \<and> (12 \<le> t \<longrightarrow>
             hdr_allocated (hp_mem s') a = 1 \<and> hdr_size (hp_mem s') a = t \<and>
             ck_heap_total_allocated s' = ck_heap_total_allocated s + t \<and>
             ck_heap_size s' = ck_heap_size s + 4096 \<and> hp_pmem s' = pg \<and>
             ck_heap_total_freed s' = ck_heap_total_freed s \<and>
             (if t < 4096
              then ck_heap_freelist s' = a + t \<and> hdr_size (hp_mem s') (a + t) = 4096 - t \<and>
                hdr_allocated (hp_mem s') (a + t) = 0 \<and>
                hdr_next (hp_mem s') (a + t) = ck_heap_freelist s
              else ck_heap_freelist s' = a \<and> hdr_next (hp_mem s') a = ck_heap_freelist s)))"
proof (cases "find (\<lambda>x. hdr_allocated m x = 0 \<and> t \<le> hdr_size m x) xs")
  case None
  have "fits m t = (\<lambda>x. hdr_allocated m x = 0 \<and> t \<le> hdr_size m x)" by (simp add: fits_def fun_eq_iff)
  with None have c: "ck_malloc sz s = Some (malloc_grow t s)"
    using malloc_search_chain [OF assms(1)] assms(2) by (simp add: ck_malloc_def m_def t_def)
  obtain a pg where p: "ck_pmem_alloc_page (hp_pmem s) = (a, pg)" by fastforce
  show ?thesis
  proof (cases "ck_heap_size s + t > CK_HEAP_MAX_SIZE \<or> a = 0")
    case True
    then show ?thesis using None c p by (auto simp: malloc_grow_def ck_heap_expand_def)
  next
    case False
    then have e: "ck_heap_expand t s = (a, s\<lparr>hp_pmem := pg, ck_heap_size := ck_heap_size s + 4096\<rparr>)"
      using p by (simp add: ck_heap_expand_def)
    with False have "fst (malloc_grow t s) = a + 12" by (simp add: malloc_grow_def Let_def)
    moreover note g = malloc_grow_block [OF e]
    ultimately show ?thesis using None c p False
      by (auto simp: not_less prod_eq_iff intro!: exI [of _ "snd (malloc_grow t s)"])
  qed
next
  case (Some x)
  have "fits m t = (\<lambda>x. hdr_allocated m x = 0 \<and> t \<le> hdr_size m x)" by (simp add: fits_def fun_eq_iff)
  moreover have x: "t \<le> hdr_size m x" "x \<noteq> 0"
    using Some chain_nonzero [OF assms(1)] by (auto simp: find_Some_iff dest: nth_mem)
  ultimately have "ck_malloc sz s = Some (malloc_take t x s)"
    using Some malloc_search_chain [OF assms(1)] assms(2) by (simp add: ck_malloc_def m_def t_def)
  with Some malloc_take_block [OF x(1) [unfolded m_def]] show ?thesis
    by (auto simp: m_def intro!: exI [of _ "snd (malloc_take t x s)"])
qed

theorem heap_malloc_first_fit_witness:
  "\<exists>s1 s2. ck_malloc 4096 fresh_heap = Some (0x18100C, s1) \<and> ck_malloc 20 s1 = Some (0x18000C, s2) \<and>
     hdr_allocated (hp_mem s1) 0x181000 = 1 \<and> hdr_allocated (hp_mem s1) 0x180000 = 0 \<and>
     hdr_allocated (hp_mem s2) 0x180000 = 1 \<and> hdr_size (hp_mem s2) 0x180000 = 32 \<and>
     hdr_size (hp_mem s2) 0x180020 = 4064 \<and> hdr_allocated (hp_mem s2) 0x180020 = 0"
proof (rule fresh_malloc_stack)
  fix s1
  assume s1: "ck_malloc 4096 fresh_heap = Some (0x18100C, s1)"
    "chain (hp_mem s1) (ck_heap_freelist s1) [0x181000, 0x180000]"
    "hdr_size (hp_mem s1) 0x181000 = 4108" "hdr_allocated (hp_mem s1) 0x181000 = 1"
    "hdr_size (hp_mem s1) 0x180000 = 4096" "hdr_allocated (hp_mem s1) 0x180000 = 0"
    "hdr_next (hp_mem s1) 0x180000 = 0"
  have ap: "apart 0x180000 (0x180000 + 32)" by (simp add: apart_def)
  from heap_malloc_first_fit [OF s1(2), of 20] s1 ap show ?thesis by auto
qed



text \<open>
  C35: \<^verbatim>\<open>ck_malloc\<close> leaves a block it takes on the free list, so \<^verbatim>\<open>ck_free\<close> of a block that the list
  reaches closes the list into a cycle; a later request larger than every block of the cycle then
  never returns.
\<close>

theorem heap_free_cycle_diverges:
  assumes "segment (hp_mem s) (ck_heap_freelist s) ys b" "b \<noteq> 0" "b + CK_HEAP_HEADER_SIZE \<noteq> 0"
    and "hdr_allocated (hp_mem s) b \<noteq> 0" "\<And>y. y \<in> set ys \<Longrightarrow> apart y b" "sz \<noteq> 0"
    and "\<And>y. y \<in> insert b (set ys) \<Longrightarrow> hdr_size (hp_mem s) y < sz + CK_HEAP_HEADER_SIZE"
  shows "ck_malloc sz (ck_free (b + CK_HEAP_HEADER_SIZE) s) = None"
proof -
  let ?m' = "set_next b (ck_heap_freelist s) (set_allocated b 0 (hp_mem s))"
  have size: "hdr_size ?m' y = hdr_size (hp_mem s) y" if "y \<in> insert b (set ys)" for y
    using that assms(5) by (auto simp: header_read_apart)
  have "malloc_search ?m' (sz + CK_HEAP_HEADER_SIZE) b = None"
  proof (rule malloc_search_diverges [where S = "insert b (set ys)"])
    fix y
    assume y: "y \<in> insert b (set ys)"
    then have "\<not> fits ?m' (sz + CK_HEAP_HEADER_SIZE) y"
      using assms(7) [OF y] size [OF y] by (auto simp: fits_def not_le)
    moreover have "hdr_next ?m' y \<in> insert b (set ys)"
      using y assms(5) segment_closed [OF assms(1)] by (cases "y = b") (auto simp: header_read_apart)
    ultimately show "\<not> fits ?m' (sz + CK_HEAP_HEADER_SIZE) y \<and> hdr_next ?m' y \<in> insert b (set ys)" ..
  qed (use assms(2) segment_closed(2) [OF assms(1)] in auto)
  then show ?thesis using assms(6) by (simp add: free_allocated [OF assms(3,4)] ck_malloc_def Let_def)
qed

theorem heap_free_cycle_diverges_witness:
  "\<exists>p s1. ck_malloc 20 fresh_heap = Some (p, s1) \<and> p \<noteq> 0 \<and> ck_malloc 21 (ck_free p s1) = None"
proof -
  have ap: "apart 0x180000 (0x180000 + 32)" by (simp add: apart_def)
  define s1 where "s1 = snd (malloc_take 32 0x180000 fresh_heap)"
  have s1: "ck_heap_freelist s1 = 0x180000"
    "hp_mem s1 = set_allocated 0x180000 1 (malloc_split 32 0x180000 (hp_mem fresh_heap))"
    by (simp_all add: s1_def malloc_take_def fresh_heap_eq)
  have "malloc_search (hp_mem fresh_heap) 32 (ck_heap_freelist fresh_heap) = Some 0x180000"
    by (subst malloc_search.simps) (simp add: fresh_heap_eq fits_def)
  then have e: "ck_malloc 20 fresh_heap = Some (0x18000C, s1)"
    by (simp add: ck_malloc_def Let_def s1_def malloc_take_def)
  note h = malloc_split_headers [OF ap, where m = "hp_mem fresh_heap"]
  have "ck_malloc 21 (ck_free (0x180000 + CK_HEAP_HEADER_SIZE) s1) = None"
    by (rule heap_free_cycle_diverges [where ys = "[]"])
      (simp_all add: s1 h del: header_read_write)
  with e show ?thesis by simp
qed

text \<open>
  C36: the addition of the header size wraps around: a request for 4294967284 bytes or more (up to
  12 bytes short of the whole address space) succeeds on any heap whose first block is free. The block
  it gets is cut down to fewer bytes than its own header, so the data address lies past its end, and
  the remainder's header is linked into the list at an address inside the header of the block.
\<close>

theorem heap_malloc_size_wraps:
  assumes "ck_heap_freelist s = x" "x \<noteq> 0" "hdr_allocated (hp_mem s) x = 0"
    "hdr_size (hp_mem s) x \<ge> 16" "sz \<ge> 0xFFFFFFF4"
  shows "\<exists>s'. ck_malloc sz s = Some (x + CK_HEAP_HEADER_SIZE, s') \<and>
    hdr_allocated (hp_mem s') x = 1 \<and> unat (hdr_size (hp_mem s') x) = unat sz - 4294967284 \<and>
    unat (hdr_size (hp_mem s') x) < 12 \<and> hdr_next (hp_mem s') x = x + hdr_size (hp_mem s') x"
proof -
  have "unat sz \<ge> 4294967284" using assms(5) by (simp add: u32_le_unat)
  then have small: "unat (sz + 12) < 12" "unat (sz + 12) = unat sz - 4294967284"
    using unat_u32_less [of sz] by (simp_all add: unat_word_ariths le_mod_geq)
  then have le: "sz + 12 < hdr_size (hp_mem s) x"
    using assms(4) by (simp add: u32_le_unat u32_less_unat)
  then have "fits (hp_mem s) (sz + CK_HEAP_HEADER_SIZE) x"
    using assms(3) by (simp add: fits_def)
  then have "malloc_search (hp_mem s) (sz + CK_HEAP_HEADER_SIZE) x = Some x"
    using assms(2) by (simp add: malloc_search.simps)
  moreover have "sz \<noteq> 0" using assms(5) by auto
  ultimately have "ck_malloc sz s = Some (malloc_take (sz + 12) x s)"
    using assms(1,2) by (simp add: ck_malloc_def Let_def)
  with malloc_take_block(1-4) [OF order_less_imp_le [OF le]] le small show ?thesis
    by (intro exI [of _ "snd (malloc_take (sz + 12) x s)"]) simp
qed

theorem heap_malloc_size_wraps_witness:
  "\<exists>s'. ck_malloc 0xFFFFFFFF fresh_heap = Some (0x18000C, s') \<and>
     unat (hdr_size (hp_mem s') 0x180000) = 11 \<and> hdr_next (hp_mem s') 0x180000 = 0x18000B"
proof -
  obtain s' where s': "ck_malloc 0xFFFFFFFF fresh_heap = Some (0x18000C, s')"
    "unat (hdr_size (hp_mem s') 0x180000) = 11"
    "hdr_next (hp_mem s') 0x180000 = 0x180000 + hdr_size (hp_mem s') 0x180000"
    using heap_malloc_size_wraps [of fresh_heap "0x180000" "0xFFFFFFFF"] by (auto simp: fresh_heap_eq)
  then have "hdr_size (hp_mem s') 0x180000 = 11" by (simp add: word_unat_eq_iff)
  with s' show ?thesis by simp
qed

text \<open>
  C37: a split does not check that the remainder has room for a header. When 8 bytes remain, the
  \<open>next\<close> field of the remainder lies past the end of the block: it overwrites the size of the
  block that follows with the free-list pointer.
\<close>

theorem heap_split_overwrites_neighbour:
  assumes "malloc_search (hp_mem s) t (ck_heap_freelist s) = Some x" "x \<noteq> 0"
    and "hdr_size (hp_mem s) x = t + 8" "t < t + 8" "t = sz + CK_HEAP_HEADER_SIZE" "sz \<noteq> 0"
    and "apart x (x + t)" "apart x (x + t + 8)"
  shows "\<exists>s'. ck_malloc sz s = Some (x + CK_HEAP_HEADER_SIZE, s') \<and>
    hdr_size (hp_mem s') (x + t + 8) = hdr_next (hp_mem s) x"
proof -
  have over: "hdr_size (set_next nb v m) (nb + 8) = v" for nb v m
    by (simp add: hdr_size_def set_next_def)
  have "hdr_size (set_allocated x 1 (malloc_split t x (hp_mem s))) (x + t + 8) = hdr_next (hp_mem s) x"
    using assms(7) apart_sym [OF assms(8)]
    by (simp add: malloc_split_def Let_def header_read_apart over)
  moreover have "ck_malloc sz s = Some (malloc_take t x s)"
    using assms(1,2,6) by (simp add: ck_malloc_def Let_def flip: assms(5))
  moreover have "hdr_size (hp_mem s) x > t" using assms(3,4) by (simp only:)
  ultimately show ?thesis by (simp add: malloc_take_def)
qed

theorem heap_split_overwrites_neighbour_witness:
  "\<exists>s1 s2. ck_malloc 4096 fresh_heap = Some (0x18100C, s1) \<and> hdr_size (hp_mem s1) 0x181000 = 4108 \<and>
     ck_malloc 4076 s1 = Some (0x18000C, s2) \<and> hdr_size (hp_mem s2) 0x181000 = 0"
proof (rule fresh_malloc_stack)
  fix s1
  assume s1: "ck_malloc 4096 fresh_heap = Some (0x18100C, s1)"
    "chain (hp_mem s1) (ck_heap_freelist s1) [0x181000, 0x180000]"
    "hdr_size (hp_mem s1) 0x181000 = 4108" "hdr_allocated (hp_mem s1) 0x181000 = 1"
    "hdr_size (hp_mem s1) 0x180000 = 4096" "hdr_allocated (hp_mem s1) 0x180000 = 0"
    "hdr_next (hp_mem s1) 0x180000 = 0"
  have found: "malloc_search (hp_mem s1) 4088 (ck_heap_freelist s1) = Some 0x180000"
    using malloc_search_chain [OF s1(2), of 4088] s1 by (simp add: fits_def)
  have ap: "apart 0x180000 (0x180000 + 4088)" "apart 0x180000 (0x180000 + 4088 + 8)"
    by (simp_all add: apart_def)
  have "\<exists>s2. ck_malloc 4076 s1 = Some (0x180000 + CK_HEAP_HEADER_SIZE, s2) \<and>
      hdr_size (hp_mem s2) (0x180000 + 4088 + 8) = hdr_next (hp_mem s1) 0x180000"
    by (rule heap_split_overwrites_neighbour [OF found _ _ _ _ _ ap]) (simp_all add: s1)
  with s1 show ?thesis by auto
qed

end
