(* ===== verification/Scheduler.thy ===== *)
theory Scheduler
  imports Heap
begin

text \<open>
  The cooperative scheduler, \<^verbatim>\<open>src/src/kernel/scheduler.c\<close>: the table of task control blocks, the
  creation of tasks (with their stack and register blocks from the heap) and the statistics. A task
  entry is one of the kernel's three task functions, or \<open>None\<close> for the null pointer; pointers into
  the task table are indices. The round-robin loop, which calls the task functions, follows in the
  theory of the kernel tasks.
\<close>

section \<open>State\<close>

abbreviation CK_SCHEDULER_MAX_TASKS :: u32 where "CK_SCHEDULER_MAX_TASKS \<equiv> 8"

datatype ck_task_state_t = CK_TASK_READY | CK_TASK_RUNNING | CK_TASK_BLOCKED

datatype ck_task_entry_t = ck_task_demo_1_fn | ck_task_demo_2_fn | ck_task_demo_3_fn

record ck_task =
  task_id :: u32
  task_state :: ck_task_state_t
  task_entry :: "ck_task_entry_t option"
  task_regs :: u32
  task_stack :: u32
  task_stack_size :: u32
  ticks_remaining :: u32
  times_run :: u32
  total_ticks :: u32

text \<open>A zeroed control block.\<close>

definition ck_task_zero :: ck_task where
  "ck_task_zero = \<lparr>task_id = 0, task_state = CK_TASK_READY, task_entry = None, task_regs = 0,
     task_stack = 0, task_stack_size = 0, ticks_remaining = 0, times_run = 0, total_ticks = 0\<rparr>"

text \<open>\<^verbatim>\<open>ck_current_context.task\<close> is \<open>context_task\<close>: an index of the task table, or NULL.\<close>

record scheduler =
  ck_task_table :: "ck_task carray"
  ck_task_count :: u32
  ck_current_task_id :: u32
  ck_context_switches :: u32
  context_task :: "nat option"
  context_call_depth :: u32

section \<open>Operations\<close>

definition ck_scheduler_init :: "scheduler \<Rightarrow> scheduler" where
  "ck_scheduler_init s = s\<lparr>ck_task_table := (\<lambda>i. if i < 8 then ck_task_zero else ck_task_table s i),
     ck_task_count := 0, ck_current_task_id := 0, ck_context_switches := 0,
     context_task := None, context_call_depth := 0\<rparr>"

text \<open>
  \<^verbatim>\<open>ck_task_create\<close>. \<open>task_ptr\<close> says whether the task pointer is not NULL. The result is the return
  value, what is stored through the task pointer (\<open>None\<close>: nothing), and the new states; the whole is
  \<open>None\<close> where a call of \<^verbatim>\<open>ck_malloc\<close> does not return.
\<close>

definition sizeof_ck_registers :: u32 where "sizeof_ck_registers = 32"

definition new_task :: "u32 \<Rightarrow> ck_task_entry_t \<Rightarrow> u32 \<Rightarrow> u32 \<Rightarrow> u32 \<Rightarrow> ck_task" where
  "new_task count entry regs stack stack_size =
     \<lparr>task_id = count, task_state = CK_TASK_READY, task_entry = Some entry, task_regs = regs,
      task_stack = stack, task_stack_size = stack_size, ticks_remaining = 0, times_run = 0,
      total_ticks = 0\<rparr>"

definition ck_task_create :: "bool \<Rightarrow> ck_task_entry_t option \<Rightarrow> u32 \<Rightarrow> scheduler \<Rightarrow> heap \<Rightarrow>
    (int \<times> ck_task option \<times> scheduler \<times> heap) option" where
  "ck_task_create task_ptr entry stack_size s h =
     (if ck_task_count s \<ge> CK_SCHEDULER_MAX_TASKS then Some (-1, None, s, h)
      else case entry of
        None \<Rightarrow> Some (-1, None, s, h)
      | Some fn \<Rightarrow>
        if \<not> task_ptr \<or> stack_size = 0 then Some (-1, None, s, h)
        else case ck_malloc stack_size h of
          None \<Rightarrow> None
        | Some (stack, h1) \<Rightarrow>
          if stack = 0 then Some (-1, None, s, h1)
          else case ck_malloc sizeof_ck_registers h1 of
            None \<Rightarrow> None
          | Some (regs, h2) \<Rightarrow>
            if regs = 0 then Some (-1, None, s, ck_free stack h2)
            else
              let task = new_task (ck_task_count s) fn regs stack stack_size in
              Some (sint (ck_task_count s), Some task,
                s\<lparr>ck_task_table := (ck_task_table s)(unat (ck_task_count s) := task),
                  ck_task_count := ck_task_count s + 1\<rparr>, h2))"

definition ck_scheduler_current_task :: "scheduler \<Rightarrow> nat option" where
  "ck_scheduler_current_task s =
     (if ck_current_task_id s < ck_task_count s then Some (unat (ck_current_task_id s)) else None)"

definition ck_scheduler_task_count :: "scheduler \<Rightarrow> u32" where
  "ck_scheduler_task_count s = ck_task_count s"

definition ck_scheduler_get_task :: "u32 \<Rightarrow> scheduler \<Rightarrow> nat option" where
  "ck_scheduler_get_task i s = (if i < ck_task_count s then Some (unat i) else None)"

definition ck_scheduler_get_context_switches :: "scheduler \<Rightarrow> u32" where
  "ck_scheduler_get_context_switches s = ck_context_switches s"

definition ck_schedule :: "scheduler \<Rightarrow> scheduler" where
  "ck_schedule s =
     (case context_task s of
        None \<Rightarrow> s
      | Some i \<Rightarrow> s\<lparr>ck_task_table := (ck_task_table s)
          (i := (ck_task_table s i)\<lparr>total_ticks := total_ticks (ck_task_table s i) + 1\<rparr>)\<rparr>)"

definition ck_task_yield :: "scheduler \<Rightarrow> scheduler" where
  "ck_task_yield s = ck_schedule s"

section \<open>The invariant of the task table\<close>

definition task_ok :: "nat \<Rightarrow> ck_task \<Rightarrow> bool" where
  "task_ok i t \<longleftrightarrow> unat (task_id t) = i \<and> task_state t = CK_TASK_READY \<and> task_entry t \<noteq> None \<and>
     task_stack t \<noteq> 0 \<and> task_regs t \<noteq> 0"

definition sched_inv :: "scheduler \<Rightarrow> bool" where
  "sched_inv s \<longleftrightarrow> unat (ck_task_count s) \<le> 8 \<and>
     (\<forall>i < unat (ck_task_count s). task_ok i (ck_task_table s i)) \<and>
     (\<forall>i. context_task s = Some i \<longrightarrow> i < unat (ck_task_count s))"

lemma scheduler_init_inv: "sched_inv (ck_scheduler_init s)"
  by (simp add: sched_inv_def ck_scheduler_init_def)

text \<open>The outcomes of \<^verbatim>\<open>ck_task_create\<close>.\<close>

lemma task_create_cases:
  assumes "ck_task_create p entry n s h = Some (r, out, s', h')"
  obtains (failed) "r = -1" "out = None" "s' = s"
  | (created) fn regs stack where "entry = Some fn" "p" "n \<noteq> 0" "unat (ck_task_count s) < 8"
      "r = sint (ck_task_count s)" "regs \<noteq> 0" "stack \<noteq> 0"
      "out = Some (new_task (ck_task_count s) fn regs stack n)"
      "s' = s\<lparr>ck_task_table := (ck_task_table s)
          (unat (ck_task_count s) := new_task (ck_task_count s) fn regs stack n),
          ck_task_count := ck_task_count s + 1\<rparr>"
proof (cases "r = -1 \<and> out = None \<and> s' = s")
  case True
  then show ?thesis using failed by blast
next
  case False
  let ?new = "\<lambda>fn regs stack. new_task (ck_task_count s) fn regs stack n"
  have "\<exists>fn regs stack. entry = Some fn \<and> p \<and> n \<noteq> 0 \<and> ck_task_count s < 8 \<and> regs \<noteq> 0 \<and> stack \<noteq> 0 \<and>
      r = sint (ck_task_count s) \<and> out = Some (?new fn regs stack) \<and>
      s' = s\<lparr>ck_task_table := (ck_task_table s)(unat (ck_task_count s) := ?new fn regs stack),
          ck_task_count := ck_task_count s + 1\<rparr>"
    using assms False unfolding ck_task_create_def Let_def
    by (auto simp: not_le split: if_split_asm option.split_asm prod.split_asm)
  then show ?thesis using created by (auto simp: u32_less_unat)
qed

lemma task_create_inv:
  assumes "sched_inv s" and "ck_task_create p entry n s h = Some (r, out, s', h')"
  shows "sched_inv s'"
  using assms(2)
proof (cases rule: task_create_cases)
  case (created fn regs stack)
  then have "unat (ck_task_count s + 1) = Suc (unat (ck_task_count s))"
    by (intro unat_Suc_u32) simp
  with created assms(1) show ?thesis
    by (auto simp: sched_inv_def task_ok_def new_task_def less_Suc_eq)
qed (use assms(1) in simp)

lemma yield_fields [simp]:
  "ck_task_count (ck_task_yield s) = ck_task_count s"
  "context_task (ck_task_yield s) = context_task s"
  "ck_context_switches (ck_task_yield s) = ck_context_switches s"
  "ck_current_task_id (ck_task_yield s) = ck_current_task_id s"
  "times_run (ck_task_table (ck_task_yield s) i) = times_run (ck_task_table s i)"
  "task_state (ck_task_table (ck_task_yield s) i) = task_state (ck_task_table s i)"
  "task_id (ck_task_table (ck_task_yield s) i) = task_id (ck_task_table s i)"
  "task_entry (ck_task_table (ck_task_yield s) i) = task_entry (ck_task_table s i)"
  "task_stack (ck_task_table (ck_task_yield s) i) = task_stack (ck_task_table s i)"
  "task_regs (ck_task_table (ck_task_yield s) i) = task_regs (ck_task_table s i)"
  by (simp_all add: ck_task_yield_def ck_schedule_def split: option.splits)

section \<open>The round-robin loop\<close>

text \<open>
  One iteration of the loop of \<^verbatim>\<open>ck_scheduler_run_tasks\<close> and the loop. \<open>run\<close> is what calling a task
  function does to the tasks' own state and to the scheduler; a task cannot create tasks, so the
  bound of the loop is the count at its start.
\<close>

definition sched_run_task ::
  "(ck_task_entry_t \<Rightarrow> 't \<times> scheduler \<Rightarrow> 't \<times> scheduler) \<Rightarrow> nat \<Rightarrow> 't \<times> scheduler \<Rightarrow> 't \<times> scheduler" where
  "sched_run_task run i = (\<lambda>(t, s).
     let s1 = s\<lparr>ck_current_task_id := of_nat i\<rparr>;
         task = ck_task_table s1 i in
     if task_state task = CK_TASK_READY \<or> task_state task = CK_TASK_RUNNING then
       let s2 = s1\<lparr>ck_task_table := (ck_task_table s1)
                    (i := task\<lparr>task_state := CK_TASK_RUNNING, times_run := times_run task + 1\<rparr>),
                  ck_context_switches := ck_context_switches s1 + 1,
                  context_task := Some i, context_call_depth := 0\<rparr>;
           (t3, s3) = (case task_entry (ck_task_table s2 i) of
                         None \<Rightarrow> (t, s2) | Some entry \<Rightarrow> run entry (t, s2))
       in (t3, s3\<lparr>ck_task_table := (ck_task_table s3)
                  (i := (ck_task_table s3 i)\<lparr>task_state := CK_TASK_READY\<rparr>)\<rparr>)
     else (t, s1))"

definition ck_scheduler_run_tasks ::
  "(ck_task_entry_t \<Rightarrow> 't \<times> scheduler \<Rightarrow> 't \<times> scheduler) \<Rightarrow> 't \<times> scheduler \<Rightarrow> 't \<times> scheduler" where
  "ck_scheduler_run_tasks run = (\<lambda>(t, s).
     if ck_task_count s = 0 then (t, s)
     else for_loop 0 (unat (ck_task_count s)) (sched_run_task run) (t, s))"

text \<open>
  What the scheduler relies on: a task function touches the scheduler only by yielding, at most once,
  and neither what it does to its own state nor whether it yields depends on the scheduler.
\<close>

lemma yield_other:
  "context_task s = Some j \<Longrightarrow> i \<noteq> j \<Longrightarrow> ck_task_table (ck_task_yield s) i = ck_task_table s i"
  by (simp add: ck_task_yield_def ck_schedule_def)

lemma yield_ticks:
  "context_task s = Some i \<Longrightarrow>
     total_ticks (ck_task_table (ck_task_yield s) i) = total_ticks (ck_task_table s i) + 1"
  by (simp add: ck_task_yield_def ck_schedule_def)

locale task_functions =
  fixes run :: "ck_task_entry_t \<Rightarrow> 't \<times> scheduler \<Rightarrow> 't \<times> scheduler"
    and effect :: "ck_task_entry_t \<Rightarrow> 't \<Rightarrow> 't"
    and yields :: "ck_task_entry_t \<Rightarrow> 't \<Rightarrow> bool"
  assumes run_effect: "fst (run fn (t, s)) = effect fn t"
    and run_yields: "snd (run fn (t, s)) = (if yields fn (effect fn t) then ck_task_yield s else s)"
begin

text \<open>
  One task runs: its statistics advance by one, its ticks if it yields, and everything else of the
  table stays.
\<close>

lemma run_task:
  assumes "sched_inv s" and "i < unat (ck_task_count s)"
  obtains fn s' where "task_entry (ck_task_table s i) = Some fn"
    "sched_run_task run i (t, s) = (effect fn t, s')" "sched_inv s'"
    "ck_task_count s' = ck_task_count s" "ck_context_switches s' = ck_context_switches s + 1"
    "times_run (ck_task_table s' i) = times_run (ck_task_table s i) + 1"
    "total_ticks (ck_task_table s' i) =
       total_ticks (ck_task_table s i) + (if yields fn (effect fn t) then 1 else 0)"
    "\<And>j. task_entry (ck_task_table s' j) = task_entry (ck_task_table s j)"
    "\<And>j. j \<noteq> i \<Longrightarrow> ck_task_table s' j = ck_task_table s j"
proof -
  have ok: "task_ok i (ck_task_table s i)" using assms by (simp add: sched_inv_def)
  then obtain fn where fn: "task_entry (ck_task_table s i) = Some fn" by (auto simp: task_ok_def)
  let ?task = "ck_task_table s i"
  define s2 where "s2 = s\<lparr>ck_current_task_id := of_nat i, ck_task_table := (ck_task_table s)
      (i := ?task\<lparr>task_state := CK_TASK_RUNNING, times_run := times_run ?task + 1\<rparr>),
      ck_context_switches := ck_context_switches s + 1, context_task := Some i,
      context_call_depth := 0\<rparr>"
  let ?s3 = "if yields fn (effect fn t) then ck_task_yield s2 else s2"
  have n: "run fn (t, s2) = (effect fn t, ?s3)"
    using run_effect run_yields [of fn t s2] by (simp add: prod_eq_iff)
  define s' where "s' = ?s3\<lparr>ck_task_table := (ck_task_table ?s3)
      (i := (ck_task_table ?s3 i)\<lparr>task_state := CK_TASK_READY\<rparr>)\<rparr>"
  have other: "ck_task_table s' j = ck_task_table s j" if "j \<noteq> i" for j
    using that yield_other [of s2 i j] by (simp add: s'_def s2_def)
  have same: "task_id (ck_task_table s' i) = task_id ?task" "task_state (ck_task_table s' i) = CK_TASK_READY"
    "task_entry (ck_task_table s' i) = Some fn" "task_stack (ck_task_table s' i) = task_stack ?task"
    "task_regs (ck_task_table s' i) = task_regs ?task" "times_run (ck_task_table s' i) = times_run ?task + 1"
    by (simp_all add: s'_def s2_def fn)
  have ticks: "total_ticks (ck_task_table s' i) = total_ticks ?task + (if yields fn (effect fn t) then 1 else 0)"
    using yield_ticks [of s2 i] by (simp add: s'_def) (simp add: s2_def)
  have glob: "ck_task_count s' = ck_task_count s" "context_task s' = Some i"
    "ck_context_switches s' = ck_context_switches s + 1"
    by (simp_all add: s'_def s2_def)
  have inv: "sched_inv s'"
    unfolding sched_inv_def
  proof (intro conjI allI impI)
    fix j assume "j < unat (ck_task_count s')"
    then show "task_ok j (ck_task_table s' j)"
      using assms(1) ok other [of j] same glob by (cases "j = i") (auto simp: sched_inv_def task_ok_def)
  qed (use assms glob in \<open>auto simp: sched_inv_def\<close>)
  have "sched_run_task run i (t, s) = (effect fn t, s')"
    using ok fn n by (simp add: sched_run_task_def task_ok_def Let_def s'_def s2_def)
  moreover have "task_entry (ck_task_table s' j) = task_entry (ck_task_table s j)" for j
    using other [of j] same(3) fn by (cases "j = i") auto
  ultimately show ?thesis using that fn inv glob same(6) ticks other by blast
qed

text \<open>The tasks' own state after the first \<open>i\<close> tasks of the table have run, from the state \<open>t\<close>.\<close>

definition after_tasks :: "scheduler \<Rightarrow> nat \<Rightarrow> 't \<Rightarrow> 't" where
  "after_tasks s i t = fold (\<lambda>j. effect (the (task_entry (ck_task_table s j)))) [0..<i] t"

lemma after_tasks_simps [simp]:
  "after_tasks s 0 t = t"
  "after_tasks s (Suc i) t = effect (the (task_entry (ck_task_table s i))) (after_tasks s i t)"
  by (simp_all add: after_tasks_def)

text \<open>A round: every task runs exactly once, in the order of the table.\<close>

lemma run_tasks_round:
  fixes s :: scheduler and t :: 't
  assumes "sched_inv s"
  defines "n \<equiv> unat (ck_task_count s)" and "s' \<equiv> snd (ck_scheduler_run_tasks run (t, s))"
  shows "sched_inv s'" and "ck_task_count s' = ck_task_count s"
    and "ck_context_switches s' = ck_context_switches s + ck_task_count s"
    and "\<And>i. times_run (ck_task_table s' i) = times_run (ck_task_table s i) + (if i < n then 1 else 0)"
    and "\<And>i. task_entry (ck_task_table s' i) = task_entry (ck_task_table s i)"
    and "\<And>i. n \<le> i \<Longrightarrow> ck_task_table s' i = ck_task_table s i"
    and "fst (ck_scheduler_run_tasks run (t, s)) = after_tasks s n t"
    and "\<And>i. i < n \<Longrightarrow> total_ticks (ck_task_table s' i) = total_ticks (ck_task_table s i) +
      (if yields (the (task_entry (ck_task_table s i))) (after_tasks s (Suc i) t) then 1 else 0)"
proof -
  let ?yes = "\<lambda>i. yields (the (task_entry (ck_task_table s i))) (after_tasks s (Suc i) t)"
  let ?P = "\<lambda>k w. sched_inv (snd w) \<and> ck_task_count (snd w) = ck_task_count s \<and>
      ck_context_switches (snd w) = ck_context_switches s + of_nat k \<and>
      (\<forall>i. times_run (ck_task_table (snd w) i) = times_run (ck_task_table s i) + (if i < k then 1 else 0)) \<and>
      (\<forall>i. task_entry (ck_task_table (snd w) i) = task_entry (ck_task_table s i)) \<and>
      (\<forall>i. k \<le> i \<longrightarrow> ck_task_table (snd w) i = ck_task_table s i) \<and>
      fst w = after_tasks s k t \<and>
      (\<forall>i < k. total_ticks (ck_task_table (snd w) i) =
         total_ticks (ck_task_table s i) + (if ?yes i then 1 else 0))"
  have "?P n (for_loop 0 n (sched_run_task run) (t, s))"
  proof (rule for_loop_inv [where P = ?P])
    fix i w
    assume "i < n" and P: "?P i w"
    obtain tt ss where w: "w = (tt, ss)" by fastforce
    from P w \<open>i < n\<close> have "sched_inv ss" "i < unat (ck_task_count ss)" by (simp_all add: n_def)
    then show "?P (Suc i) (sched_run_task run i w)"
    proof (rule run_task [of ss i tt])
      fix fn s1
      assume "task_entry (ck_task_table ss i) = Some fn"
        and r: "sched_run_task run i (tt, ss) = (effect fn tt, s1)" "sched_inv s1"
        "ck_task_count s1 = ck_task_count ss" "ck_context_switches s1 = ck_context_switches ss + 1"
        "times_run (ck_task_table s1 i) = times_run (ck_task_table ss i) + 1"
        "total_ticks (ck_task_table s1 i) =
           total_ticks (ck_task_table ss i) + (if yields fn (effect fn tt) then 1 else 0)"
        "\<And>j. task_entry (ck_task_table s1 j) = task_entry (ck_task_table ss j)"
        "\<And>j. j \<noteq> i \<Longrightarrow> ck_task_table s1 j = ck_task_table ss j"
      moreover from this P w have fn: "task_entry (ck_task_table s i) = Some fn" by simp
      moreover have "times_run (ck_task_table s1 j) =
          times_run (ck_task_table s j) + (if j < Suc i then 1 else 0)" for j
        using r(5,8) P w by (cases "j = i") (auto simp: less_Suc_eq)
      moreover have "total_ticks (ck_task_table s1 j) =
          total_ticks (ck_task_table s j) + (if ?yes j then 1 else 0)" if "j < Suc i" for j
        using r(6,8) P w that fn by (cases "j = i") (simp_all add: less_Suc_eq)
      ultimately show ?thesis using P w by (simp add: add_ac)
    qed
  qed (use assms(1) in simp_all)
  moreover have "ck_scheduler_run_tasks run (t, s) = for_loop 0 n (sched_run_task run) (t, s)"
    by (simp add: ck_scheduler_run_tasks_def n_def unat_eq_0)
  ultimately show "sched_inv s'" "ck_task_count s' = ck_task_count s"
    "ck_context_switches s' = ck_context_switches s + ck_task_count s"
    "\<And>i. times_run (ck_task_table s' i) = times_run (ck_task_table s i) + (if i < n then 1 else 0)"
    "\<And>i. task_entry (ck_task_table s' i) = task_entry (ck_task_table s i)"
    "\<And>i. n \<le> i \<Longrightarrow> ck_task_table s' i = ck_task_table s i"
    "fst (ck_scheduler_run_tasks run (t, s)) = after_tasks s n t"
    "\<And>i. i < n \<Longrightarrow> total_ticks (ck_task_table s' i) =
       total_ticks (ck_task_table s i) + (if ?yes i then 1 else 0)"
    by (simp_all add: s'_def n_def del: after_tasks_simps)
qed

text \<open>
  No starvation: after \<open>k\<close> rounds every task has run \<open>k\<close> times, and its ticks count the rounds in
  which it yielded.
\<close>

lemma run_tasks_rounds:
  fixes s :: scheduler and t :: 't
  assumes "sched_inv s"
  defines "w \<equiv> \<lambda>j. (ck_scheduler_run_tasks run ^^ j) (t, s)"
  shows "sched_inv (snd (w k)) \<and> ck_task_count (snd (w k)) = ck_task_count s \<and>
    ck_context_switches (snd (w k)) = ck_context_switches s + of_nat k * ck_task_count s \<and>
    (\<forall>i. task_entry (ck_task_table (snd (w k)) i) = task_entry (ck_task_table s i)) \<and>
    (\<forall>i < unat (ck_task_count s). times_run (ck_task_table (snd (w k)) i) =
      times_run (ck_task_table s i) + of_nat k \<and>
      total_ticks (ck_task_table (snd (w k)) i) = total_ticks (ck_task_table s i) +
        of_nat (card {j. j < k \<and>
          yields (the (task_entry (ck_task_table s i))) (after_tasks s (Suc i) (fst (w j)))}))"
proof (induction k)
  case (Suc k)
  obtain tt ss where wk: "w k = (tt, ss)" by fastforce
  then have step: "w (Suc k) = ck_scheduler_run_tasks run (tt, ss)" by (simp add: w_def)
  have "task_entry (ck_task_table ss i) = task_entry (ck_task_table s i)" for i using Suc wk by simp
  then have same: "after_tasks ss = after_tasks s" by (simp add: fun_eq_iff after_tasks_def)
  have card: "card {j. j < Suc k \<and> P j} = card {j. j < k \<and> P j} + (if P k then 1 else 0)" for P
  proof -
    have "{j. j < Suc k \<and> P j} = {j. j < k \<and> P j} \<union> (if P k then {k} else {})" by (auto simp: less_Suc_eq)
    then show ?thesis by simp
  qed
  note r = run_tasks_round [where s = ss and t = tt, unfolded same]
  have inv: "sched_inv ss" using Suc wk by simp
  show ?case
    using Suc r(1-5,8) [OF inv] wk unfolding step
    by (simp add: card algebra_simps del: after_tasks_simps)
qed (use assms in \<open>simp add: w_def\<close>)

end

section \<open>Properties\<close>

lemma sint_small_u32:
  assumes "unat (w :: u32) < 8"
  shows "sint w = int (unat w)"
proof -
  consider "unat w = 0" | "unat w = 1" | "unat w = 2" | "unat w = 3" | "unat w = 4" | "unat w = 5"
    | "unat w = 6" | "unat w = 7" using assms by linarith
  then show ?thesis by cases (auto simp: unat_eq_0 dest!: arg_cong [where f = "of_nat :: nat \<Rightarrow> u32"])
qed

text \<open>
  The stack sizes for which the two requests of \<^verbatim>\<open>ck_task_create\<close> are known to return: larger than a
  page (as every call of the kernel asks), or a multiple of 16 with its header on a well-formed heap.
\<close>

definition stack_served :: "u32 set \<Rightarrow> u32 list \<Rightarrow> u32 \<Rightarrow> heap \<Rightarrow> bool" where
  "stack_served B xs n h \<longleftrightarrow> headers_wf xs h \<and> 4096 < unat n + 12 \<and> unat n + 12 < 2 ^ 32 \<or>
     heap_wf B xs h \<and> (unat n + 12) mod 16 = 0 \<and> unat n + 12 \<le> 4096"

lemma stack_and_regs_return:
  assumes "stack_served B xs n h"
  obtains stack h1 regs h2 where "ck_malloc n h = Some (stack, h1)"
    "ck_malloc sizeof_ck_registers h1 = Some (regs, h2)"
proof -
  obtain stack h1 ys where m: "ck_malloc n h = Some (stack, h1)"
    "chain (hp_mem h1) (ck_heap_freelist h1) ys"
    using assms unfolding stack_served_def
  proof (elim disjE conjE)
    assume wf: "headers_wf xs h" and n: "4096 < unat n + 12" "unat n + 12 < 2 ^ 32"
    then show ?thesis
    proof (cases rule: malloc_large)
      case fail
      with wf that show ?thesis unfolding headers_wf_def by blast
    next
      case (page a s')
      with that show ?thesis unfolding headers_wf_def by blast
    qed
  next
    assume wf: "heap_wf B xs h" and n: "(unat n + 12) mod 16 = 0" "unat n + 12 \<le> 4096"
    from malloc_wf [OF this] obtain stack h1 where m: "ck_malloc n h = Some (stack, h1)"
      "h1 = h \<or> allocated_block B h (n + CK_HEAP_HEADER_SIZE) (stack - CK_HEAP_HEADER_SIZE) h1" by blast
    then obtain ys where "chain (hp_mem h1) (ck_heap_freelist h1) ys"
      using wf by (auto simp: allocated_block_def heap_wf_def)
    with m(1) that show ?thesis by blast
  qed
  from malloc_search_chain [OF m(2)] have "ck_malloc sizeof_ck_registers h1 \<noteq> None"
    by (simp add: ck_malloc_def Let_def split: option.splits)
  with m(1) that show ?thesis by auto
qed


definition empty_scheduler :: scheduler where
  "empty_scheduler = \<lparr>ck_task_table = (\<lambda>_. ck_task_zero), ck_task_count = 0, ck_current_task_id = 0,
     ck_context_switches = 0, context_task = None, context_call_depth = 0\<rparr>"


end
