(* ===== verification/Kernel_Tasks.thy ===== *)
theory Kernel_Tasks
  imports Scheduler "HOL-Library.Signed_Division"
begin

text \<open>
  The kernel's tasks, \<^verbatim>\<open>src/src/kernel/kernel_tasks.c\<close>: the mini game (a ball, a paddle) that the
  three demo tasks advance, their work counters, and the scheduler running them. Coordinates are
  C \<^verbatim>\<open>int\<close>s kept as integers, since the invariant bounds them; the frame counter is kept at its 32 bits.
\<close>

section \<open>The game and the tasks\<close>

abbreviation CK_GAME_WIDTH :: int where "CK_GAME_WIDTH \<equiv> 20"
abbreviation CK_GAME_HEIGHT :: int where "CK_GAME_HEIGHT \<equiv> 8"
abbreviation CK_GAME_PADDLE_WIDTH :: int where "CK_GAME_PADDLE_WIDTH \<equiv> 6"

record ck_game_state =
  ball_x :: int
  ball_y :: int
  ball_dx :: int
  ball_dy :: int
  paddle_x :: int
  frame :: u32

record tasks =
  ck_task_counter :: "u32 carray"
  ck_game :: ck_game_state
  ck_game_input_dir :: int

definition tasks_static :: tasks where
  "tasks_static = \<lparr>ck_task_counter = (\<lambda>_. 0), ck_game = \<lparr>ball_x = 0, ball_y = 0, ball_dx = 0,
     ball_dy = 0, paddle_x = 0, frame = 0\<rparr>, ck_game_input_dir = 0\<rparr>"

definition ck_game_init :: "tasks \<Rightarrow> tasks" where
  "ck_game_init t = t\<lparr>ck_game := \<lparr>ball_x = 2, ball_y = 2, ball_dx = 1, ball_dy = 1,
     paddle_x = (CK_GAME_WIDTH - CK_GAME_PADDLE_WIDTH) div 2, frame = 0\<rparr>, ck_game_input_dir := 0\<rparr>"

definition ck_game_on_key :: "char \<Rightarrow> tasks \<Rightarrow> tasks" where
  "ck_game_on_key c t =
     (if c = CHR ''a'' \<or> c = CHR ''A'' then t\<lparr>ck_game_input_dir := -1\<rparr>
      else if c = CHR ''d'' \<or> c = CHR ''D'' then t\<lparr>ck_game_input_dir := 1\<rparr>
      else t)"

definition ck_game_get_state :: "tasks \<Rightarrow> ck_game_state" where
  "ck_game_get_state t = ck_game t"

text \<open>The parts of \<^verbatim>\<open>ck_task_demo_1\<close>, in order; each returns the game and the work it adds.\<close>

definition game_move :: "ck_game_state \<Rightarrow> ck_game_state" where
  "game_move g =
     (let g1 = g\<lparr>frame := frame g + 1\<rparr> in
      if frame g1 mod 2 = 0
      then g1\<lparr>ball_x := ball_x g1 + ball_dx g1, ball_y := ball_y g1 + ball_dy g1\<rparr> else g1)"

definition game_side_walls :: "ck_game_state \<Rightarrow> ck_game_state \<times> int" where
  "game_side_walls g =
     (if ball_x g \<le> 0 \<or> ball_x g \<ge> CK_GAME_WIDTH - 1 then
        (if ball_x g \<le> 0 then g\<lparr>ball_x := 0, ball_dx := 1\<rparr>
         else g\<lparr>ball_x := CK_GAME_WIDTH - 1, ball_dx := -1\<rparr>, 6)
      else (g, 0))"

definition game_top_wall :: "ck_game_state \<Rightarrow> ck_game_state \<times> int" where
  "game_top_wall g = (if ball_y g \<le> 0 then (g\<lparr>ball_y := 0, ball_dy := 1\<rparr>, 6) else (g, 0))"

definition game_bottom :: "ck_game_state \<Rightarrow> ck_game_state \<times> int" where
  "game_bottom g =
     (if ball_y g \<ge> CK_GAME_HEIGHT - 2 then
        let paddle_end = paddle_x g + CK_GAME_PADDLE_WIDTH - 1 in
        if ball_x g \<ge> paddle_x g \<and> ball_x g \<le> paddle_end
        then (g\<lparr>ball_y := CK_GAME_HEIGHT - 2, ball_dy := -1\<rparr>, 10)
        else (g\<lparr>ball_y := 1, ball_x := 2, ball_dx := 1, ball_dy := 1\<rparr>, 12)
      else (g, 0))"

definition add_work :: "nat \<Rightarrow> int \<Rightarrow> tasks \<Rightarrow> tasks" where
  "add_work i work t =
     t\<lparr>ck_task_counter := (ck_task_counter t)(i := ck_task_counter t i + of_int work)\<rparr>"

definition demo_1_work :: "tasks \<Rightarrow> tasks" where
  "demo_1_work t =
     (let g = game_move (ck_game t);
          (g, w1) = game_side_walls g;
          (g, w2) = game_top_wall g;
          (g, w3) = game_bottom g
      in add_work 0 (1 + w1 + w2 + w3) (t\<lparr>ck_game := g\<rparr>))"

definition game_paddle :: "int \<Rightarrow> ck_game_state \<Rightarrow> ck_game_state \<times> int" where
  "game_paddle input_dir g =
     (if input_dir \<noteq> 0 then (g\<lparr>paddle_x := paddle_x g + input_dir\<rparr>, 5)
      else let center = (CK_GAME_WIDTH - CK_GAME_PADDLE_WIDTH) div 2 in
        if paddle_x g < center then (g\<lparr>paddle_x := paddle_x g + 1\<rparr>, 2)
        else if paddle_x g > center then (g\<lparr>paddle_x := paddle_x g - 1\<rparr>, 2)
        else (g, 0))"

definition game_clamp :: "ck_game_state \<Rightarrow> ck_game_state" where
  "game_clamp g =
     (if paddle_x g < 0 then g\<lparr>paddle_x := 0\<rparr>
      else if paddle_x g > CK_GAME_WIDTH - CK_GAME_PADDLE_WIDTH
      then g\<lparr>paddle_x := CK_GAME_WIDTH - CK_GAME_PADDLE_WIDTH\<rparr> else g)"

definition demo_2_work :: "tasks \<Rightarrow> tasks" where
  "demo_2_work t =
     (let (g, w) = game_paddle (ck_game_input_dir t) (ck_game t)
      in add_work 1 (1 + w) (t\<lparr>ck_game := game_clamp g, ck_game_input_dir := 0\<rparr>))"

definition demo_3_work :: "tasks \<Rightarrow> tasks" where
  "demo_3_work t = add_work 2 (1 + ball_y (ck_game t) smod 4) t"

text \<open>The task functions: the work, then a yield at certain counter values.\<close>

definition ck_task_demo_1 :: "tasks \<times> scheduler \<Rightarrow> tasks \<times> scheduler" where
  "ck_task_demo_1 = (\<lambda>(t, s). let t' = demo_1_work t in
     (t', if ck_task_counter t' 0 mod 1000 = 0 then ck_task_yield s else s))"

definition ck_task_demo_2 :: "tasks \<times> scheduler \<Rightarrow> tasks \<times> scheduler" where
  "ck_task_demo_2 = (\<lambda>(t, s). let t' = demo_2_work t in
     (t', if ck_task_counter t' 1 mod 1500 = 0 then ck_task_yield s else s))"

definition ck_task_demo_3 :: "tasks \<times> scheduler \<Rightarrow> tasks \<times> scheduler" where
  "ck_task_demo_3 = (\<lambda>(t, s). let t' = demo_3_work t in
     (t', if ck_task_counter t' 2 mod 1200 = 0 then ck_task_yield s else s))"

fun run_entry :: "ck_task_entry_t \<Rightarrow> tasks \<times> scheduler \<Rightarrow> tasks \<times> scheduler" where
  "run_entry ck_task_demo_1_fn w = ck_task_demo_1 w"
| "run_entry ck_task_demo_2_fn w = ck_task_demo_2 w"
| "run_entry ck_task_demo_3_fn w = ck_task_demo_3 w"

fun entry_work :: "ck_task_entry_t \<Rightarrow> tasks \<Rightarrow> tasks" where
  "entry_work ck_task_demo_1_fn t = demo_1_work t"
| "entry_work ck_task_demo_2_fn t = demo_2_work t"
| "entry_work ck_task_demo_3_fn t = demo_3_work t"

text \<open>When a task yields, as a condition on its counter after its work.\<close>

fun yield_due :: "ck_task_entry_t \<Rightarrow> tasks \<Rightarrow> bool" where
  "yield_due ck_task_demo_1_fn t \<longleftrightarrow> 1000 dvd unat (ck_task_counter t 0)"
| "yield_due ck_task_demo_2_fn t \<longleftrightarrow> 1500 dvd unat (ck_task_counter t 1)"
| "yield_due ck_task_demo_3_fn t \<longleftrightarrow> 1200 dvd unat (ck_task_counter t 2)"

lemma u32_mod_eq_0_iff:
  fixes w k :: u32
  shows "w mod k = 0 \<longleftrightarrow> unat k dvd unat w"
  by (simp add: word_unat_eq_iff unat_mod dvd_eq_mod_eq_0)

interpretation tf: task_functions run_entry entry_work yield_due
proof
  fix fn t s
  show "fst (run_entry fn (t, s)) = entry_work fn t"
    by (cases fn) (simp_all add: ck_task_demo_1_def ck_task_demo_2_def ck_task_demo_3_def Let_def)
  show "snd (run_entry fn (t, s)) = (if yield_due fn (entry_work fn t) then ck_task_yield s else s)"
    by (cases fn) (simp_all add: ck_task_demo_1_def ck_task_demo_2_def ck_task_demo_3_def Let_def
        u32_mod_eq_0_iff)
qed

section \<open>The game invariant\<close>

definition game_inv :: "ck_game_state \<Rightarrow> bool" where
  "game_inv g \<longleftrightarrow> 0 \<le> ball_x g \<and> ball_x g \<le> 19 \<and> 0 \<le> ball_y g \<and> ball_y g \<le> 6 \<and>
     \<bar>ball_dx g\<bar> \<le> 1 \<and> \<bar>ball_dy g\<bar> \<le> 1 \<and> 0 \<le> paddle_x g \<and> paddle_x g \<le> 14"

definition tasks_inv :: "tasks \<Rightarrow> bool" where
  "tasks_inv t \<longleftrightarrow> game_inv (ck_game t) \<and> \<bar>ck_game_input_dir t\<bar> \<le> 1"

lemmas game_steps = game_move_def game_side_walls_def game_top_wall_def game_bottom_def
  game_paddle_def game_clamp_def

lemma demo_1_game:
  "ck_game (demo_1_work t) =
     fst (game_bottom (fst (game_top_wall (fst (game_side_walls (game_move (ck_game t)))))))"
  "ck_game_input_dir (demo_1_work t) = ck_game_input_dir t"
  by (simp_all add: demo_1_work_def add_work_def case_prod_beta Let_def)

lemma game_move_bounds:
  assumes "game_inv g"
  shows "-1 \<le> ball_x (game_move g)" "ball_x (game_move g) \<le> 20" "-1 \<le> ball_y (game_move g)"
    "ball_y (game_move g) \<le> 7" "\<bar>ball_dx (game_move g)\<bar> \<le> 1" "\<bar>ball_dy (game_move g)\<bar> \<le> 1"
    "paddle_x (game_move g) = paddle_x g"
  using assms by (auto simp: game_inv_def game_move_def Let_def)

lemma demo_1_inv: "tasks_inv t \<Longrightarrow> tasks_inv (demo_1_work t)"
  using game_move_bounds [of "ck_game t"]
  by (auto simp: tasks_inv_def demo_1_game game_inv_def game_side_walls_def game_top_wall_def
      game_bottom_def Let_def)

lemma demo_2_inv: "tasks_inv t \<Longrightarrow> tasks_inv (demo_2_work t)"
  by (auto simp: tasks_inv_def game_inv_def demo_2_work_def add_work_def game_paddle_def
      game_clamp_def Let_def)

lemma demo_3_inv: "tasks_inv t \<Longrightarrow> tasks_inv (demo_3_work t)"
  by (simp add: tasks_inv_def demo_3_work_def add_work_def)

lemma entry_work_inv: "tasks_inv t \<Longrightarrow> tasks_inv (entry_work fn t)"
  by (cases fn) (simp_all add: demo_1_inv demo_2_inv demo_3_inv)

lemma tasks_static_inv: "tasks_inv tasks_static"
  by (simp add: tasks_inv_def tasks_static_def game_inv_def)

lemma game_init_inv: "tasks_inv (ck_game_init t)"
  by (simp add: tasks_inv_def ck_game_init_def game_inv_def)

lemma game_on_key_inv: "tasks_inv t \<Longrightarrow> tasks_inv (ck_game_on_key c t)"
  by (simp add: tasks_inv_def ck_game_on_key_def)

lemma fold_entry_work_inv:
  "tasks_inv t \<Longrightarrow> tasks_inv (fold (\<lambda>i. entry_work (f i)) is t)"
  by (induction "is" arbitrary: t) (simp_all add: entry_work_inv)

lemma run_tasks_inv:
  assumes "sched_inv s" and "tasks_inv t"
  shows "tasks_inv (fst (ck_scheduler_run_tasks run_entry (t, s)))"
  using tf.run_tasks_round(7) [OF assms(1), of t] fold_entry_work_inv [OF assms(2)]
  by (simp add: tf.after_tasks_def)

text \<open>What the user and the monitor can do to the game: a scheduler round, a key, a restart.\<close>

datatype game_event = Round | Key char | Restart

fun handle_event :: "game_event \<Rightarrow> tasks \<times> scheduler \<Rightarrow> tasks \<times> scheduler" where
  "handle_event Round w = ck_scheduler_run_tasks run_entry w"
| "handle_event (Key c) w = (ck_game_on_key c (fst w), snd w)"
| "handle_event Restart w = (ck_game_init (fst w), snd w)"

lemma game_event_inv:
  assumes "tasks_inv (fst w)" and "sched_inv (snd w)"
  shows "tasks_inv (fst (handle_event e w)) \<and> sched_inv (snd (handle_event e w))"
proof (cases e)
  case Round
  then show ?thesis
    using run_tasks_inv [of "snd w" "fst w"] tf.run_tasks_round(1) [of "snd w" "fst w"] assms by simp
qed (simp_all add: assms game_on_key_inv game_init_inv)

lemma game_events_inv:
  "tasks_inv (fst w) \<Longrightarrow> sched_inv (snd w) \<Longrightarrow>
    tasks_inv (fst (fold handle_event es w)) \<and> sched_inv (snd (fold handle_event es w))"
  by (induction es arbitrary: w) (simp_all add: game_event_inv)

text \<open>The work one round adds to each counter is positive and small.\<close>

lemma demo_work_bounds:
  assumes "tasks_inv t"
  shows "\<exists>w. 1 \<le> w \<and> w \<le> 25 \<and> ck_task_counter (demo_1_work t) =
      (ck_task_counter t)(0 := ck_task_counter t 0 + of_int w)"
    and "\<exists>w. 1 \<le> w \<and> w \<le> 6 \<and> ck_task_counter (demo_2_work t) =
      (ck_task_counter t)(1 := ck_task_counter t 1 + of_int w)"
    and "\<exists>w. 1 \<le> w \<and> w \<le> 4 \<and> ck_task_counter (demo_3_work t) =
      (ck_task_counter t)(2 := ck_task_counter t 2 + of_int w)"
proof -
  let ?g1 = "game_move (ck_game t)"
  let ?g2 = "fst (game_side_walls ?g1)"
  let ?g3 = "fst (game_top_wall ?g2)"
  have "0 \<le> snd (game_side_walls ?g1)" "snd (game_side_walls ?g1) \<le> 6"
    "0 \<le> snd (game_top_wall ?g2)" "snd (game_top_wall ?g2) \<le> 6"
    "0 \<le> snd (game_bottom ?g3)" "snd (game_bottom ?g3) \<le> 12"
    by (simp_all add: game_side_walls_def game_top_wall_def game_bottom_def Let_def)
  then show "\<exists>w. 1 \<le> w \<and> w \<le> 25 \<and> ck_task_counter (demo_1_work t) =
      (ck_task_counter t)(0 := ck_task_counter t 0 + of_int w)"
    by (intro exI [of _ "1 + snd (game_side_walls ?g1) + snd (game_top_wall ?g2) + snd (game_bottom ?g3)"])
      (simp add: demo_1_work_def add_work_def case_prod_beta Let_def)
  show "\<exists>w. 1 \<le> w \<and> w \<le> 6 \<and> ck_task_counter (demo_2_work t) =
      (ck_task_counter t)(1 := ck_task_counter t 1 + of_int w)"
    by (intro exI [of _ "1 + snd (game_paddle (ck_game_input_dir t) (ck_game t))"])
      (simp add: demo_2_work_def add_work_def case_prod_beta Let_def game_paddle_def)
  have "0 \<le> ball_y (ck_game t)" using assms by (simp add: tasks_inv_def game_inv_def)
  then have "ball_y (ck_game t) smod 4 = ball_y (ck_game t) mod 4"
    by (cases "ball_y (ck_game t) = 0") (simp_all add: signed_modulo_int_def signed_divide_int_def minus_mult_div_eq_mod
        mult.commute)
  then show "\<exists>w. 1 \<le> w \<and> w \<le> 4 \<and> ck_task_counter (demo_3_work t) =
      (ck_task_counter t)(2 := ck_task_counter t 2 + of_int w)"
    by (intro exI [of _ "1 + ball_y (ck_game t) mod 4"])
      (simp add: demo_3_work_def add_work_def zle_diff1_eq [of _ 4, symmetric] flip: zless_add1_eq)
qed

section \<open>Properties\<close>

text \<open>A scheduler with the three demo tasks, for the witnesses.\<close>

definition sample_scheduler :: scheduler where
  "sample_scheduler = \<lparr>ck_task_table = (\<lambda>i. if i = 0 then new_task 0 ck_task_demo_1_fn 0x18000C 0x18100C 4096
       else if i = 1 then new_task 1 ck_task_demo_2_fn 0x180038 0x18200C 4096
       else if i = 2 then new_task 2 ck_task_demo_3_fn 0x180064 0x18300C 4096 else ck_task_zero),
     ck_task_count = 3, ck_current_task_id = 0, ck_context_switches = 0, context_task = None,
     context_call_depth = 0\<rparr>"

lemma sample_scheduler_inv: "sched_inv sample_scheduler"
  by (auto simp: sched_inv_def sample_scheduler_def task_ok_def new_task_def)

text \<open>
  C10: round robin with exact statistics. A call of \<^verbatim>\<open>ck_scheduler_run_tasks\<close> runs every task exactly
  once, in the order of the table: after \<open>k\<close> calls every task's \<^verbatim>\<open>times_run\<close> has grown by \<open>k\<close> (no task
  starves), the number of context switches by \<open>k\<close> times the number of tasks (modulo 2^32), and all
  tasks are READY again; one call does to the tasks' own state what the task functions do in table
  order. A task's \<^verbatim>\<open>total_ticks\<close> has grown by the number of calls in which it yielded, that is in which
  its work brought its counter to a multiple of 1000, 1500 or 1200.
\<close>

theorem scheduler_round_robin:
  fixes s :: scheduler and t :: tasks and k :: nat
  assumes "sched_inv s"
  defines "w \<equiv> \<lambda>j. (ck_scheduler_run_tasks run_entry ^^ j) (t, s)"
  defines "entry \<equiv> \<lambda>i. the (task_entry (ck_task_table s i))"
  shows "sched_inv (snd (w k)) \<and> ck_task_count (snd (w k)) = ck_task_count s \<and>
    ck_context_switches (snd (w k)) = ck_context_switches s + of_nat k * ck_task_count s \<and>
    (\<forall>i < unat (ck_task_count s). task_state (ck_task_table (snd (w k)) i) = CK_TASK_READY \<and>
       times_run (ck_task_table (snd (w k)) i) = times_run (ck_task_table s i) + of_nat k \<and>
       total_ticks (ck_task_table (snd (w k)) i) = total_ticks (ck_task_table s i) +
         of_nat (card {j. j < k \<and>
           yield_due (entry i) (fold (\<lambda>l. entry_work (entry l)) [0..<Suc i] (fst (w j)))})) \<and>
    fst (ck_scheduler_run_tasks run_entry (t, s)) =
      fold (\<lambda>i. entry_work (entry i)) [0..<unat (ck_task_count s)] t"
  using tf.run_tasks_rounds [OF assms(1), of k t] tf.run_tasks_round(7) [OF assms(1), of t]
  unfolding w_def entry_def tf.after_tasks_def by (auto simp: sched_inv_def task_ok_def)

theorem scheduler_round_robin_witness:
  "ck_context_switches (snd ((ck_scheduler_run_tasks run_entry ^^ 5) (tasks_static, sample_scheduler))) = 15 \<and>
   times_run (ck_task_table (snd ((ck_scheduler_run_tasks run_entry ^^ 5)
     (tasks_static, sample_scheduler))) 2) = 5 \<and>
   map (\<lambda>i. total_ticks (ck_task_table (snd (ck_scheduler_run_tasks run_entry
     (tasks_static\<lparr>ck_task_counter := (\<lambda>_. 1199)\<rparr>, sample_scheduler))) i)) [0, 1, 2] = [0, 0, 1]"
proof -
  let ?t = "tasks_static\<lparr>ck_task_counter := (\<lambda>_. 1199)\<rparr>"
  have c: "unat (ck_task_count sample_scheduler) = 3" by (simp add: sample_scheduler_def)
  have z: "ck_context_switches sample_scheduler = 0" "ck_task_count sample_scheduler = 3"
    "\<And>i. times_run (ck_task_table sample_scheduler i) = 0"
    "\<And>i. total_ticks (ck_task_table sample_scheduler i) = 0"
    by (simp_all add: sample_scheduler_def new_task_def ck_task_zero_def)
  have e: "task_entry (ck_task_table sample_scheduler 0) = Some ck_task_demo_1_fn"
    "task_entry (ck_task_table sample_scheduler 1) = Some ck_task_demo_2_fn"
    "task_entry (ck_task_table sample_scheduler 2) = Some ck_task_demo_3_fn"
    by (simp_all add: sample_scheduler_def new_task_def)
  have up: "[0..<Suc 0] = [0]" "[0..<Suc 1] = [0, 1]" "[0..<Suc 2] = [0, 1, 2 :: nat]"
    by (simp_all add: upt_rec)
  have g: "ck_task_counter (demo_1_work ?t) 0 = 1212"
    "ck_task_counter (demo_2_work (demo_1_work ?t)) 1 = 1202"
    "ck_task_counter (demo_3_work (demo_2_work (demo_1_work ?t))) 2 = 1200"
    by (simp_all add: tasks_static_def demo_1_work_def demo_2_work_def demo_3_work_def add_work_def
        game_steps Let_def)
  have one: "card {j. j < (1 :: nat) \<and> P j} = (if P 0 then 1 else 0)" for P
  proof -
    have "{j. j < (1 :: nat) \<and> P j} = (if P 0 then {0} else {})" by auto
    then show ?thesis by simp
  qed
  note r5 = scheduler_round_robin [OF sample_scheduler_inv, of 5 tasks_static]
  note r1 = scheduler_round_robin [OF sample_scheduler_inv, of 1 ?t, unfolded c one]
  have ticks: "total_ticks (ck_task_table (snd (ck_scheduler_run_tasks run_entry (?t, sample_scheduler))) i) =
      of_nat (if yield_due (the (task_entry (ck_task_table sample_scheduler i)))
        (fold (\<lambda>l. entry_work (the (task_entry (ck_task_table sample_scheduler l)))) [0..<Suc i] ?t)
        then 1 else 0)" if "i < 3" for i
    using r1 that by (simp add: z del: upt_Suc fold_simps)
  have "total_ticks (ck_task_table (snd (ck_scheduler_run_tasks run_entry (?t, sample_scheduler))) 0) = 0"
    using ticks [of 0] by (simp add: e(1) g(1))
  moreover have "total_ticks (ck_task_table (snd (ck_scheduler_run_tasks run_entry (?t, sample_scheduler))) 1) = 0"
    using ticks [of 1] unfolding up by (simp only: fold_simps e option.sel entry_work.simps yield_due.simps g) simp
  moreover have "total_ticks (ck_task_table (snd (ck_scheduler_run_tasks run_entry (?t, sample_scheduler))) 2) = 1"
    using ticks [of 2] unfolding up by (simp only: fold_simps e option.sel entry_work.simps yield_due.simps g) simp
  ultimately show ?thesis using r5 c by (simp add: z del: upt_Suc)
qed

text \<open>
  C26: the game stays on its board. From power-on (or any state in which it holds), whatever keys are
  pressed and whenever the game is restarted, after every sequence of scheduler rounds the ball is
  inside the 20 by 7 field above the paddle and the paddle is fully inside the board.
\<close>

theorem game_stays_on_board:
  fixes t :: tasks and s :: scheduler and es :: "game_event list"
  assumes "tasks_inv t" and "sched_inv s"
  defines "g \<equiv> ck_game_get_state (fst (fold handle_event es (t, s)))"
  shows "0 \<le> ball_x g \<and> ball_x g < CK_GAME_WIDTH \<and> 0 \<le> ball_y g \<and> ball_y g \<le> CK_GAME_HEIGHT - 2 \<and>
    0 \<le> paddle_x g \<and> paddle_x g + CK_GAME_PADDLE_WIDTH \<le> CK_GAME_WIDTH"
  using game_events_inv [of "(t, s)" es] assms
  by (simp add: tasks_inv_def game_inv_def ck_game_get_state_def)

theorem game_stays_on_board_witness:
  "ball_x (ck_game_get_state (fst (fold handle_event [Restart, Key CHR ''a'', Round, Round]
     (tasks_static, sample_scheduler)))) < CK_GAME_WIDTH"
  using game_stays_on_board [OF tasks_static_inv sample_scheduler_inv,
      of "[Restart, Key CHR ''a'', Round, Round]"] by simp

text \<open>
  One step of the ball. Where the ball, after moving and bouncing off the walls, is at column \<open>x\<close>
  on row 6 or below, it is thrown back up from row 6 exactly if the paddle is under it, and otherwise
  starts again at column 2, row 1, moving down and right; above row 6 the bottom changes nothing. The
  step adds between 1 and 25 to the first task's counter and touches no other.
\<close>

theorem ball_step:
  fixes t :: tasks
  assumes "tasks_inv t"
  defines "m \<equiv> fst (game_top_wall (fst (game_side_walls (game_move (ck_game t)))))"
    and "g \<equiv> ck_game (demo_1_work t)"
  shows "(if ball_y m < 6 then g = m
     else if paddle_x m \<le> ball_x m \<and> ball_x m < paddle_x m + CK_GAME_PADDLE_WIDTH
     then ball_x g = ball_x m \<and> ball_y g = 6 \<and> ball_dy g = -1
     else ball_x g = 2 \<and> ball_y g = 1 \<and> ball_dx g = 1 \<and> ball_dy g = 1) \<and>
    (\<exists>w. 1 \<le> w \<and> w \<le> 25 \<and> ck_task_counter (demo_1_work t) =
       (ck_task_counter t)(0 := ck_task_counter t 0 + of_int w))"
  using demo_work_bounds(1) [OF assms(1)]
  unfolding g_def demo_1_game m_def [symmetric] by (auto simp: game_bottom_def)

theorem ball_step_witness:
  "\<exists>w. 1 \<le> w \<and> w \<le> 25 \<and> ck_task_counter (demo_1_work tasks_static) =
     (ck_task_counter tasks_static)(0 := ck_task_counter tasks_static 0 + of_int w)"
  using ball_step [OF tasks_static_inv] by blast

end
