(* ===== verification/Idt.thy ===== *)
theory Idt
  imports Prelude
begin

text \<open>
  The interrupt descriptor table, \<^verbatim>\<open>src/src/interrupts/idt.c\<close>, the registration loops of
  \<^verbatim>\<open>exceptions.c\<close> and \<^verbatim>\<open>irq.c\<close> that fill it, and the programming of the two 8259 controllers,
  \<^verbatim>\<open>pic.c\<close>. The addresses of the assembly stubs and of the table are fixed by the linker, so they
  are parameters; the bytes that \<^verbatim>\<open>inb\<close> returns are inputs; every \<^verbatim>\<open>outb\<close> is an entry of the
  trace of port writes. What the traces do to the controllers is stated on a model of the 8259 itself.
\<close>

section \<open>The descriptor table\<close>

abbreviation CK_KERNEL_CS :: u16 where "CK_KERNEL_CS \<equiv> 0x10"
abbreviation CK_IDT_ENTRIES :: nat where "CK_IDT_ENTRIES \<equiv> 256"

record ck_idt_entry =
  base_low :: u16
  selector :: u16
  always0 :: u8
  gate_flags :: u8
  base_high :: u16

record ck_idt_ptr =
  idt_limit :: u16
  idt_base :: u32

text \<open>\<open>idtr\<close> is what the last \<^verbatim>\<open>lidt\<close> loaded.\<close>

record idt =
  ck_idt :: "ck_idt_entry carray"
  ck_idt_desc :: ck_idt_ptr
  idtr :: "ck_idt_ptr option"

definition ck_idt_set_gate :: "u8 \<Rightarrow> u32 \<Rightarrow> u16 \<Rightarrow> u8 \<Rightarrow> idt \<Rightarrow> idt" where
  "ck_idt_set_gate vector base sel flags s =
     s\<lparr>ck_idt := (ck_idt s)(unat vector :=
        \<lparr>base_low = ucast (base AND 0xFFFF), selector = sel, always0 = 0, gate_flags = flags,
         base_high = ucast (drop_bit 16 base AND 0xFFFF)\<rparr>)\<rparr>"

definition ck_lidt :: "idt \<Rightarrow> idt" where
  "ck_lidt s = s\<lparr>idtr := Some (ck_idt_desc s)\<rparr>"

definition ck_idt_init :: "u32 \<Rightarrow> u32 \<Rightarrow> idt \<Rightarrow> idt" where
  "ck_idt_init default_stub idt_addr s =
     (let s1 = for_loop 0 CK_IDT_ENTRIES
                 (\<lambda>index. ck_idt_set_gate (of_nat index) default_stub CK_KERNEL_CS 0x8E) s
      in ck_lidt (s1\<lparr>ck_idt_desc := \<lparr>idt_limit = 8 * 256 - 1, idt_base = idt_addr\<rparr>\<rparr>))"

definition ck_exceptions_init :: "(nat \<Rightarrow> u32) \<Rightarrow> idt \<Rightarrow> idt" where
  "ck_exceptions_init ck_exception_handlers s =
     for_loop 0 32 (\<lambda>vector. ck_idt_set_gate (of_nat vector) (ck_exception_handlers vector)
       CK_KERNEL_CS 0x8E) s"

abbreviation CK_IRQ_OFFSET_MASTER :: nat where "CK_IRQ_OFFSET_MASTER \<equiv> 32"
abbreviation CK_IRQ_OFFSET_SLAVE :: nat where "CK_IRQ_OFFSET_SLAVE \<equiv> 40"

text \<open>The second loop of \<^verbatim>\<open>ck_irq_init\<close>, which fills the gates of the 16 hardware interrupts.\<close>

definition irq_vector :: "nat \<Rightarrow> nat" where
  "irq_vector irq =
     (if irq < 8 then CK_IRQ_OFFSET_MASTER + irq else CK_IRQ_OFFSET_SLAVE + (irq - 8))"

definition irq_init_gates :: "(nat \<Rightarrow> u32) \<Rightarrow> idt \<Rightarrow> idt" where
  "irq_init_gates ck_irq_handlers_asm s =
     for_loop 0 16 (\<lambda>irq. ck_idt_set_gate (of_nat (irq_vector irq)) (ck_irq_handlers_asm irq)
       CK_KERNEL_CS 0x8E) s"

text \<open>What the processor reads from a gate: the handler address, reassembled from its halves.\<close>

definition gate_target :: "ck_idt_entry \<Rightarrow> u32" where
  "gate_target e = push_bit 16 (ucast (base_high e)) OR ucast (base_low e)"

definition kernel_gate :: "ck_idt_entry \<Rightarrow> u32 \<Rightarrow> bool" where
  "kernel_gate e target \<longleftrightarrow> gate_target e = target \<and> selector e = CK_KERNEL_CS \<and>
     always0 e = 0 \<and> gate_flags e = 0x8E"

section \<open>The interrupt controllers\<close>

abbreviation CK_PIC_MASTER_CMD :: u16 where "CK_PIC_MASTER_CMD \<equiv> 0x20"
abbreviation CK_PIC_MASTER_DATA :: u16 where "CK_PIC_MASTER_DATA \<equiv> 0x21"
abbreviation CK_PIC_SLAVE_CMD :: u16 where "CK_PIC_SLAVE_CMD \<equiv> 0xA0"
abbreviation CK_PIC_SLAVE_DATA :: u16 where "CK_PIC_SLAVE_DATA \<equiv> 0xA1"

definition ck_io_wait :: port_io where
  "ck_io_wait = Outb 0x80 0"

definition ck_pic_init :: "u8 \<Rightarrow> u8 \<Rightarrow> port_io list" where
  "ck_pic_init master_mask slave_mask =
     [Outb CK_PIC_MASTER_DATA 0xFF, Outb CK_PIC_SLAVE_DATA 0xFF,
      Outb CK_PIC_MASTER_CMD 0x11, ck_io_wait, Outb CK_PIC_SLAVE_CMD 0x11, ck_io_wait,
      Outb CK_PIC_MASTER_DATA 32, ck_io_wait, Outb CK_PIC_SLAVE_DATA 40, ck_io_wait,
      Outb CK_PIC_MASTER_DATA 0x04, ck_io_wait, Outb CK_PIC_SLAVE_DATA 0x02, ck_io_wait,
      Outb CK_PIC_MASTER_DATA 0x01, ck_io_wait, Outb CK_PIC_SLAVE_DATA 0x01, ck_io_wait,
      Outb CK_PIC_MASTER_DATA (master_mask AND NOT 0x07), Outb CK_PIC_SLAVE_DATA slave_mask]"

definition ck_pic_send_eoi :: "u8 \<Rightarrow> port_io list" where
  "ck_pic_send_eoi irq =
     (if irq \<ge> 8 then [Outb CK_PIC_SLAVE_CMD 0x20] else []) @ [Outb CK_PIC_MASTER_CMD 0x20]"

text \<open>The bytes a trace writes to one port, in order.\<close>

fun writes_to :: "u16 \<Rightarrow> port_io list \<Rightarrow> u8 list" where
  "writes_to p [] = []"
| "writes_to p (Outb q v # ios) = (if p = q then v # writes_to p ios else writes_to p ios)"

section \<open>The 8259 as a state machine\<close>

text \<open>
  The controller as its data sheet describes it, for the words the kernel sends. A command with bit 4
  set is ICW1: it restarts the initialisation and clears the interrupt mask and the in-service
  register. The next bytes on the data port are then ICW2 (the vector base, whose low three bits the
  chip replaces by the line), ICW3 (unless ICW1 says there is a single controller) and ICW4 (if ICW1
  announced it); any other byte on the data port is the interrupt mask. The command 0x20 is the
  non-specific end of interrupt, which clears the highest-priority line in service. Other commands,
  which the kernel never sends, are left without effect.
\<close>

datatype pic_phase = Operating | Expect_ICW2 | Expect_ICW3 | Expect_ICW4

record pic8259 =
  pic_phase :: pic_phase
  pic_icw1 :: u8
  pic_base :: u8
  pic_cascade :: u8
  pic_mode :: u8
  pic_imr :: u8
  pic_isr :: u8

definition end_of_interrupt :: "u8 \<Rightarrow> u8" where
  "end_of_interrupt isr = (case find (bit isr) [0..<8] of None \<Rightarrow> isr | Some i \<Rightarrow> unset_bit i isr)"

definition pic_command :: "u8 \<Rightarrow> pic8259 \<Rightarrow> pic8259" where
  "pic_command v c =
     (if bit v 4 then c\<lparr>pic_phase := Expect_ICW2, pic_icw1 := v, pic_imr := 0, pic_isr := 0\<rparr>
      else if v = 0x20 then c\<lparr>pic_isr := end_of_interrupt (pic_isr c)\<rparr>
      else c)"

definition after_icw3 :: "pic8259 \<Rightarrow> pic_phase" where
  "after_icw3 c = (if bit (pic_icw1 c) 0 then Expect_ICW4 else Operating)"

definition pic_data :: "u8 \<Rightarrow> pic8259 \<Rightarrow> pic8259" where
  "pic_data v c =
     (case pic_phase c of
        Operating \<Rightarrow> c\<lparr>pic_imr := v\<rparr>
      | Expect_ICW2 \<Rightarrow> c\<lparr>pic_base := v AND 0xF8,
          pic_phase := if bit (pic_icw1 c) 1 then after_icw3 c else Expect_ICW3\<rparr>
      | Expect_ICW3 \<Rightarrow> c\<lparr>pic_cascade := v, pic_phase := after_icw3 c\<rparr>
      | Expect_ICW4 \<Rightarrow> c\<lparr>pic_mode := v, pic_phase := Operating\<rparr>)"

text \<open>The controller behind a pair of ports, under a trace of port writes.\<close>

fun pic_run :: "u16 \<Rightarrow> u16 \<Rightarrow> port_io list \<Rightarrow> pic8259 \<Rightarrow> pic8259" where
  "pic_run cmd data [] c = c"
| "pic_run cmd data (Outb p v # ios) c = pic_run cmd data ios
     (if p = cmd then pic_command v c else if p = data then pic_data v c else c)"

lemma end_of_interrupt_bit:
  "bit (end_of_interrupt isr) j \<longleftrightarrow> bit isr j \<and> (\<exists>i < j. bit isr i)"
proof (cases "find (bit isr) [0..<8]")
  case None
  then have "\<not> bit isr i" for i
    using bit_imp_le_length [of isr i] by (auto simp: find_None_iff)
  then show ?thesis by (auto simp: end_of_interrupt_def None)
next
  case (Some k)
  then have k: "bit isr k" "\<And>i. i < k \<Longrightarrow> \<not> bit isr i" by (auto simp: find_Some_iff)
  then have "bit isr j \<and> k \<noteq> j \<longleftrightarrow> bit isr j \<and> (\<exists>i < j. bit isr i)" by (metis linorder_neqE_nat)
  then show ?thesis by (simp add: end_of_interrupt_def Some bit_unset_bit_iff)
qed

section \<open>Gates\<close>

lemma gate_halves: "push_bit 16 (ucast (ucast (drop_bit 16 base AND 0xFFFF) :: u16)) OR
    ucast (ucast (base AND 0xFFFF) :: u16) = (base :: u32)"
proof -
  have m: "(0xFFFF :: u32) = mask 16" by (simp add: mask_eq_exp_minus_1)
  show ?thesis unfolding m by (rule bit_word_eqI) (auto simp: bit_simps)
qed

lemma kernel_gate_set:
  "kernel_gate (ck_idt (ck_idt_set_gate v base CK_KERNEL_CS 0x8E s) (unat v)) base"
  by (simp add: kernel_gate_def gate_target_def ck_idt_set_gate_def gate_halves)

lemma set_gate_other:
  "n \<noteq> unat v \<Longrightarrow> ck_idt (ck_idt_set_gate v base sel f s) n = ck_idt s n"
  "idtr (ck_idt_set_gate v base sel f s) = idtr s"
  by (simp_all add: ck_idt_set_gate_def)

text \<open>A loop that sets one gate per index: the vectors are distinct and below 256.\<close>

lemma gate_loop:
  fixes s :: idt and target :: "nat \<Rightarrow> u32"
  assumes "n \<le> 256" "\<And>i. i < n \<Longrightarrow> vec i < 256" "inj_on vec {..<n}" "k \<le> n"
  defines "t \<equiv> for_loop 0 k (\<lambda>i. ck_idt_set_gate (of_nat (vec i)) (target i) CK_KERNEL_CS 0x8E) s"
  shows "(\<forall>i < k. kernel_gate (ck_idt t (vec i)) (target i)) \<and>
    (\<forall>v. v \<notin> vec ` {..<k} \<longrightarrow> ck_idt t v = ck_idt s v) \<and> idtr t = idtr s"
  unfolding t_def
proof (rule for_loop_inv [where P = "\<lambda>k t. (\<forall>i < k. kernel_gate (ck_idt t (vec i)) (target i)) \<and>
    (\<forall>v. v \<notin> vec ` {..<k} \<longrightarrow> ck_idt t v = ck_idt s v) \<and> idtr t = idtr s"])
  fix i and t :: idt
  assume "i < k" and IH: "(\<forall>j < i. kernel_gate (ck_idt t (vec j)) (target j)) \<and>
    (\<forall>v. v \<notin> vec ` {..<i} \<longrightarrow> ck_idt t v = ck_idt s v) \<and> idtr t = idtr s"
  then have i: "i < n" and v: "unat (of_nat (vec i) :: u8) = vec i"
    using assms(2) [of i] assms(4) by (simp_all add: unsigned_of_nat take_bit_nat_eq_self)
  have ne: "vec j \<noteq> vec i" if "j < i" for j
    using that i inj_onD [OF assms(3), of j i] by auto
  let ?t = "ck_idt_set_gate (of_nat (vec i)) (target i) CK_KERNEL_CS 0x8E t"
  have "kernel_gate (ck_idt ?t (vec j)) (target j)" if "j < Suc i" for j
    using that IH ne kernel_gate_set [of "of_nat (vec i)" "target i" t] v
    by (cases "j = i") (auto simp: set_gate_other)
  then show "(\<forall>j < Suc i. kernel_gate (ck_idt ?t (vec j)) (target j)) \<and>
    (\<forall>v. v \<notin> vec ` {..<Suc i} \<longrightarrow> ck_idt ?t v = ck_idt s v) \<and> idtr ?t = idtr s"
    using IH v by (auto simp: set_gate_other lessThan_Suc)
qed simp_all

lemma irq_vector_eq: "irq_vector irq = 32 + irq"
  by (simp add: irq_vector_def)

lemma idt_init_gates:
  "v < 256 \<Longrightarrow> kernel_gate (ck_idt (ck_idt_init d a s) v) d"
  "idtr (ck_idt_init d a s) = Some \<lparr>idt_limit = 2047, idt_base = a\<rparr>"
  using gate_loop [of 256 "\<lambda>i. i" 256 "\<lambda>_. d" s]
  by (simp_all add: ck_idt_init_def ck_lidt_def Let_def)

lemma exceptions_init_gates:
  "v < 32 \<Longrightarrow> kernel_gate (ck_idt (ck_exceptions_init h s) v) (h v)"
  "32 \<le> v \<Longrightarrow> ck_idt (ck_exceptions_init h s) v = ck_idt s v"
  "idtr (ck_exceptions_init h s) = idtr s"
  using gate_loop [of 32 "\<lambda>i. i" 32 h s] by (simp_all add: ck_exceptions_init_def)

lemma irq_init_gates_spec:
  "irq < 16 \<Longrightarrow> kernel_gate (ck_idt (irq_init_gates h s) (32 + irq)) (h irq)"
  "v < 32 \<or> 48 \<le> v \<Longrightarrow> ck_idt (irq_init_gates h s) v = ck_idt s v"
  "idtr (irq_init_gates h s) = idtr s"
  using gate_loop [of 16 irq_vector 16 h s]
  by (auto simp: irq_init_gates_def irq_vector_eq inj_on_def image_iff)

section \<open>Properties\<close>

text \<open>
  After the initialisation sequence of \<^verbatim>\<open>ck_main\<close> every one of the 256 vectors has a kernel
  interrupt gate: vectors 0 to 31 lead to the stub of that exception, 32 to 47 to the stub of that
  hardware interrupt, all others to the default stub; and the IDT register covers the whole table.
\<close>

theorem idt_complete_after_boot:
  fixes irq_stub exc_stub :: "nat \<Rightarrow> u32" and default_stub idt_addr :: u32 and s :: idt
  assumes "v < 256"
  defines "s' \<equiv> irq_init_gates irq_stub (ck_exceptions_init exc_stub (ck_idt_init default_stub idt_addr s))"
  shows "kernel_gate (ck_idt s' v)
      (if v < 32 then exc_stub v else if v < 48 then irq_stub (v - 32) else default_stub) \<and>
    idtr s' = Some \<lparr>idt_limit = 2047, idt_base = idt_addr\<rparr>"
proof -
  consider "v < 32" | (irq) i where "v = 32 + i" "i < 16" | "48 \<le> v"
  proof (cases "v < 32 \<or> 48 \<le> v")
    case False
    then show ?thesis by (intro irq [of "v - 32"]) linarith+
  qed (use that in blast)
  then show ?thesis unfolding s'_def
    using assms(1) by cases (auto simp: irq_init_gates_spec exceptions_init_gates idt_init_gates)
qed

theorem idt_complete_after_boot_witness:
  "kernel_gate (ck_idt (irq_init_gates (\<lambda>i. 0x2000 + of_nat i) (ck_exceptions_init (\<lambda>i. 0x1000 + of_nat i)
     (ck_idt_init 0x3000 0x4000 \<lparr>ck_idt = (\<lambda>_. \<lparr>base_low = 0, selector = 0, always0 = 0, gate_flags = 0,
       base_high = 0\<rparr>), ck_idt_desc = \<lparr>idt_limit = 0, idt_base = 0\<rparr>, idtr = None\<rparr>))) 33) 0x2001"
  using idt_complete_after_boot [of 33 "\<lambda>i. 0x2000 + of_nat i" "\<lambda>i. 0x1000 + of_nat i" "0x3000" "0x4000"]
  by simp

text \<open>
  C34: \<^verbatim>\<open>ck_pic_init\<close> brings both controllers, whatever state they were in, out of their
  initialisation with the right words in the right places: the master with vector base 32 and a slave
  on line 2, the slave with vector base 40 and cascade identity 2, both in 8086 mode with nothing in
  service, so that every interrupt 0 to 15 arrives at the vector whose gate \<^verbatim>\<open>ck_irq_init\<close> fills. All
  lines are masked before the first initialisation word; at the end the timer, keyboard and cascade
  lines of the master are open and every other line has the mask that was read at the start. An end
  of interrupt takes the highest-priority line out of service on the master, and on the slave exactly
  for its own lines, the master last, and changes nothing else.
\<close>

theorem pic_programming:
  fixes c d :: pic8259 and m sl irq :: u8
  defines "master \<equiv> pic_run CK_PIC_MASTER_CMD CK_PIC_MASTER_DATA"
    and "slave \<equiv> pic_run CK_PIC_SLAVE_CMD CK_PIC_SLAVE_DATA"
  shows "master (ck_pic_init m sl) c = \<lparr>pic_phase = Operating, pic_icw1 = 0x11, pic_base = 32,
      pic_cascade = 0x04, pic_mode = 0x01, pic_imr = m AND NOT 0x07, pic_isr = 0\<rparr> \<and>
    slave (ck_pic_init m sl) d = \<lparr>pic_phase = Operating, pic_icw1 = 0x11, pic_base = 40,
      pic_cascade = 0x02, pic_mode = 0x01, pic_imr = sl, pic_isr = 0\<rparr> \<and>
    irq_vector i = (if i < 8 then unat (pic_base (master (ck_pic_init m sl) c)) + i
      else unat (pic_base (slave (ck_pic_init m sl) d)) + (i - 8)) \<and>
    (\<forall>j. bit (pic_imr (master (ck_pic_init m sl) c)) j \<longleftrightarrow> 3 \<le> j \<and> bit m j) \<and>
    take 2 (ck_pic_init m sl) = [Outb CK_PIC_MASTER_DATA 0xFF, Outb CK_PIC_SLAVE_DATA 0xFF] \<and>
    master (ck_pic_send_eoi irq) c = c\<lparr>pic_isr := end_of_interrupt (pic_isr c)\<rparr> \<and>
    slave (ck_pic_send_eoi irq) d =
      (if irq < 8 then d else d\<lparr>pic_isr := end_of_interrupt (pic_isr d)\<rparr>) \<and>
    (\<forall>j. bit (end_of_interrupt (pic_isr c)) j \<longleftrightarrow> bit (pic_isr c) j \<and> (\<exists>l < j. bit (pic_isr c) l)) \<and>
    last (ck_pic_send_eoi irq) = Outb CK_PIC_MASTER_CMD 0x20 \<and>
    writes_to CK_PIC_SLAVE_CMD (ck_pic_send_eoi irq) = (if irq < 8 then [] else [0x20])"
proof -
  note run = master_def slave_def ck_io_wait_def pic_command_def pic_data_def after_icw3_def
  have M: "master (ck_pic_init m sl) c = \<lparr>pic_phase = Operating, pic_icw1 = 0x11, pic_base = 32,
      pic_cascade = 0x04, pic_mode = 0x01, pic_imr = m AND NOT 0x07, pic_isr = 0\<rparr>"
    by (cases c) (simp add: ck_pic_init_def run bit_numeral_rec)
  have S: "slave (ck_pic_init m sl) d = \<lparr>pic_phase = Operating, pic_icw1 = 0x11, pic_base = 40,
      pic_cascade = 0x02, pic_mode = 0x01, pic_imr = sl, pic_isr = 0\<rparr>"
    by (cases d) (simp add: ck_pic_init_def run bit_numeral_rec)
  have E: "master (ck_pic_send_eoi irq) c = c\<lparr>pic_isr := end_of_interrupt (pic_isr c)\<rparr>"
    "slave (ck_pic_send_eoi irq) d =
      (if irq < 8 then d else d\<lparr>pic_isr := end_of_interrupt (pic_isr d)\<rparr>)"
    by (simp_all add: ck_pic_send_eoi_def run not_le leD bit_numeral_rec)
  have low: "(0x07 :: u8) = mask 3" by (simp add: mask_eq_exp_minus_1)
  have "bit (m AND NOT 0x07) j \<longleftrightarrow> 3 \<le> j \<and> bit m j" for j
    unfolding low by (auto simp: bit_simps dest: bit_imp_le_length)
  then show ?thesis unfolding M S E
    by (simp add: end_of_interrupt_bit irq_vector_def ck_pic_init_def ck_pic_send_eoi_def leD not_le)
qed

end
