(* ===== verification/Irq.thy ===== *)
theory Irq
  imports Idt
begin

text \<open>
  The table of hardware interrupt handlers and the dispatcher, \<^verbatim>\<open>src/src/interrupts/irq.c\<close>, and the
  system timer, \<^verbatim>\<open>src/src/drivers/timer.c\<close>, which installs the handler of interrupt 0. A function
  pointer is one of the three handlers the kernel has, or \<open>None\<close> for the null pointer; what running
  a handler does to the drivers' state is an argument of the dispatcher, closed in the theory of the
  drivers.
\<close>

section \<open>The handler table\<close>

datatype ck_irq_handler_t =
    ck_irq_default_handler
  | ck_timer_irq_handler
  | ck_keyboard_irq_handler

text \<open>The static \<^verbatim>\<open>ck_irq_handlers_c\<close>, zero before \<^verbatim>\<open>ck_irq_init\<close>.\<close>

type_synonym irq_table = "ck_irq_handler_t option carray"

definition irq_static :: irq_table where
  "irq_static = (\<lambda>_. None)"

definition ck_irq_handler ::
  "(ck_irq_handler_t \<Rightarrow> u8 \<Rightarrow> 's \<Rightarrow> 's) \<Rightarrow> irq_table \<Rightarrow> u8 \<Rightarrow> 's \<Rightarrow> 's \<times> port_io list" where
  "ck_irq_handler run ck_irq_handlers_c irq s =
     ((if irq < 16 then
         case ck_irq_handlers_c (unat irq) of
           None \<Rightarrow> s
         | Some handler \<Rightarrow> run handler irq s
       else s),
      ck_pic_send_eoi irq)"

definition ck_irq_set_handler :: "u8 \<Rightarrow> ck_irq_handler_t \<Rightarrow> irq_table \<Rightarrow> irq_table" where
  "ck_irq_set_handler irq handler ck_irq_handlers_c =
     (if irq < 16 then ck_irq_handlers_c(unat irq := Some handler) else ck_irq_handlers_c)"

definition ck_irq_init :: "(nat \<Rightarrow> u32) \<Rightarrow> irq_table \<times> idt \<Rightarrow> irq_table \<times> idt" where
  "ck_irq_init ck_irq_handlers_asm = (\<lambda>(ck_irq_handlers_c, s).
     (for_loop 0 16 (\<lambda>irq t. t(irq := Some ck_irq_default_handler)) ck_irq_handlers_c,
      irq_init_gates ck_irq_handlers_asm s))"

text \<open>
  What a driver relies on: the handler it installs for a line is the one the dispatcher finds there,
  and installing it leaves every other line alone.
\<close>

locale handler_table =
  fixes install :: "u8 \<Rightarrow> 'h \<Rightarrow> 't \<Rightarrow> 't"
    and handler :: "'t \<Rightarrow> nat \<Rightarrow> 'h option"
  assumes install_same: "irq < 16 \<Longrightarrow> handler (install irq h t) (unat irq) = Some h"
    and install_other: "n \<noteq> unat irq \<Longrightarrow> handler (install irq h t) n = handler t n"
    and install_invalid: "16 \<le> irq \<Longrightarrow> install irq h t = t"
begin

text \<open>After any sequence of installations the last valid one for a line counts.\<close>

lemma last_installation_wins:
  assumes "irq < 16" and "irq \<notin> fst ` set later"
  shows "handler (fold (\<lambda>(i, h). install i h) later (install irq h t)) (unat irq) = Some h"
proof -
  have "handler (fold (\<lambda>(i, h). install i h) later t') (unat irq) = handler t' (unat irq)" for t'
    using assms(2)
  proof (induction later arbitrary: t')
    case (Cons p later)
    obtain i k where "p = (i, k)" by fastforce
    moreover from this Cons.prems have "unat irq \<noteq> unat i" by (auto simp: word_unat_eq_iff)
    ultimately show ?case using Cons by (simp add: install_other)
  qed simp
  then show ?thesis by (simp add: install_same assms(1))
qed

lemma installations_elsewhere:
  "n \<notin> (unat \<circ> fst) ` set hs \<Longrightarrow> handler (fold (\<lambda>(i, h). install i h) hs t) n = handler t n"
  by (induction hs arbitrary: t) (auto simp: install_other)

end

interpretation irqs: handler_table ck_irq_set_handler "\<lambda>t n. t n"
  by unfold_locales (auto simp: ck_irq_set_handler_def)

lemma irq_init_table:
  "fst (ck_irq_init stubs (t, s)) n = (if n < 16 then Some ck_irq_default_handler else t n)"
  by (simp add: ck_irq_init_def for_loop_fill)

lemma irq_init_idt: "snd (ck_irq_init stubs (t, s)) = irq_init_gates stubs s"
  by (simp add: ck_irq_init_def)

section \<open>The timer\<close>

record timer =
  ck_timer_ticks :: u32

definition timer_irq :: "timer \<Rightarrow> timer" where
  "timer_irq s = s\<lparr>ck_timer_ticks := ck_timer_ticks s + 1\<rparr>"

abbreviation CK_PIT_CHANNEL0 :: u16 where "CK_PIT_CHANNEL0 \<equiv> 0x40"
abbreviation CK_PIT_CONTROL :: u16 where "CK_PIT_CONTROL \<equiv> 0x43"

definition reload_value :: u16 where "reload_value = 1193"

definition ck_timer_init :: "irq_table \<Rightarrow> irq_table \<times> port_io list" where
  "ck_timer_init t =
     (ck_irq_set_handler 0 ck_timer_irq_handler t,
      [Outb CK_PIT_CONTROL 0x34,
       Outb CK_PIT_CHANNEL0 (ucast (reload_value AND 0xFF)),
       Outb CK_PIT_CHANNEL0 (ucast (drop_bit 8 reload_value AND 0xFF))])"

definition ck_timer_get_ticks :: "timer \<Rightarrow> u32" where
  "ck_timer_get_ticks s = ck_timer_ticks s"

text \<open>The count a 16-bit channel of the PIT takes from a low byte and a high byte.\<close>

definition pit_reload :: "u8 list \<Rightarrow> nat" where
  "pit_reload bs = unat (bs ! 0) + 256 * unat (bs ! 1)"

lemma timer_irqs: "unat (ck_timer_ticks ((timer_irq ^^ n) s)) = (unat (ck_timer_ticks s) + n) mod 2 ^ 32"
proof -
  have "ck_timer_ticks ((timer_irq ^^ n) s) = ck_timer_ticks s + of_nat n"
    by (induction n) (simp_all add: timer_irq_def algebra_simps)
  then show ?thesis by (simp add: unat_word_ariths unsigned_of_nat take_bit_eq_mod mod_simps)
qed

text \<open>
  \<^verbatim>\<open>ck_timer_init\<close> selects counter 0 in mode 2, loads it with a reload value within one tick of
  the input clock of 1193182 Hz divided by 1000, and makes the tick handler the handler of line 0
  and of no other line.
\<close>

theorem timer_init_programs_pit:
  "writes_to CK_PIT_CONTROL (snd (ck_timer_init t)) = [0x34] \<and>
   pit_reload (writes_to CK_PIT_CHANNEL0 (snd (ck_timer_init t))) = 1193182 div 1000 \<and>
   fst (ck_timer_init t) 0 = Some ck_timer_irq_handler \<and>
   (\<forall>n. n \<noteq> 0 \<longrightarrow> fst (ck_timer_init t) n = t n)"
  using irqs.install_same [of 0 ck_timer_irq_handler t]
  by (simp add: ck_timer_init_def reload_value_def pit_reload_def irqs.install_other)

theorem timer_init_programs_pit_witness:
  "fst (ck_timer_init irq_static) 5 = None"
  using timer_init_programs_pit [of irq_static] by (simp add: irq_static_def)

end
