(* ===== verification/Scancode.thy ===== *)
theory Scancode
  imports Prelude
begin

text \<open>
  The scancode tables of \<^verbatim>\<open>src/src/drivers/scancode.c\<close>, row by row (16 codes per row, the ASCII codes
  of the characters), and the conversion of \<^verbatim>\<open>scancode.h\<close>. The rows from 0x60 to 0xFF, make codes without
  a key and break codes, are zero in both tables.
\<close>

definition ck_scancode_table :: "u8 list" where
  "ck_scancode_table = [
    0x00, 0x1B, 0x31, 0x32, 0x33, 0x34, 0x35, 0x36, 0x37, 0x38, 0x39, 0x30, 0x2D, 0x3D, 0x08, 0x09,
    0x71, 0x77, 0x65, 0x72, 0x74, 0x79, 0x75, 0x69, 0x6F, 0x70, 0x5B, 0x5D, 0x0A, 0x00, 0x61, 0x73,
    0x64, 0x66, 0x67, 0x68, 0x6A, 0x6B, 0x6C, 0x3B, 0x27, 0x60, 0x00, 0x5C, 0x7A, 0x78, 0x63, 0x76,
    0x62, 0x6E, 0x6D, 0x2C, 0x2E, 0x2F, 0x00, 0x2A, 0x00, 0x20, 0x00, 0x00, 0x00, 0x00, 0x00, 0x00,
    0x00, 0x00, 0x00, 0x00, 0x00, 0x00, 0x00, 0x37, 0x38, 0x39, 0x2D, 0x34, 0x35, 0x36, 0x2B, 0x31,
    0x32, 0x33, 0x30, 0x2E, 0x00, 0x00, 0x00, 0x00, 0x00, 0x00, 0x00, 0x00, 0x00, 0x00, 0x00, 0x00] @ replicate 160 0"

definition ck_scancode_table_shifted :: "u8 list" where
  "ck_scancode_table_shifted = [
    0x00, 0x1B, 0x21, 0x40, 0x23, 0x24, 0x25, 0x5E, 0x26, 0x2A, 0x28, 0x29, 0x5F, 0x2B, 0x08, 0x09,
    0x51, 0x57, 0x45, 0x52, 0x54, 0x59, 0x55, 0x49, 0x4F, 0x50, 0x7B, 0x7D, 0x0A, 0x00, 0x41, 0x53,
    0x44, 0x46, 0x47, 0x48, 0x4A, 0x4B, 0x4C, 0x3A, 0x22, 0x7E, 0x00, 0x7C, 0x5A, 0x58, 0x43, 0x56,
    0x42, 0x4E, 0x4D, 0x3C, 0x3E, 0x3F, 0x00, 0x2A, 0x00, 0x20, 0x00, 0x00, 0x00, 0x00, 0x00, 0x00,
    0x00, 0x00, 0x00, 0x00, 0x00, 0x00, 0x00, 0x37, 0x38, 0x39, 0x2D, 0x34, 0x35, 0x36, 0x2B, 0x31,
    0x32, 0x33, 0x30, 0x2E, 0x00, 0x00, 0x00, 0x00, 0x00, 0x00, 0x00, 0x00, 0x00, 0x00, 0x00, 0x00] @ replicate 160 0"

definition ck_scancode_to_ascii :: "u8 \<Rightarrow> u8 \<Rightarrow> u8" where
  "ck_scancode_to_ascii scancode shift_pressed =
     (if shift_pressed \<noteq> 0 then ck_scancode_table_shifted ! unat scancode
      else ck_scancode_table ! unat scancode)"

lemma length_scancode_tables:
  "length ck_scancode_table = 256" "length ck_scancode_table_shifted = 256"
  by (simp_all add: ck_scancode_table_def ck_scancode_table_shifted_def)


text \<open>Facts on the tables that are computed entry by entry.\<close>

definition printable_codes :: "u8 list" where
  "printable_codes = map of_nat [0x20..<0x7F]"

lemma every_printable_listed:
  "list_all (\<lambda>c. c \<in> set (take 128 ck_scancode_table) \<or> c \<in> set (take 128 ck_scancode_table_shifted))
     printable_codes"
  by code_simp

lemma tables_ascii:
  "list_all (\<lambda>c. c < 0x80) ck_scancode_table" "list_all (\<lambda>c. c < 0x80) ck_scancode_table_shifted"
  by code_simp+

lemma tables_letters:
  "list_all2 (\<lambda>a b. (0x61 \<le> a \<and> a \<le> 0x7A) = (0x41 \<le> b \<and> b \<le> 0x5A) \<and>
       (0x61 \<le> a \<and> a \<le> 0x7A \<longrightarrow> b = a - 0x20))
     ck_scancode_table ck_scancode_table_shifted"
  by code_simp

lemma table_lookup: "ck_scancode_to_ascii code sh \<in> set ck_scancode_table \<union> set ck_scancode_table_shifted"
  using unat_u8_less [of code] by (simp add: ck_scancode_to_ascii_def length_scancode_tables)

lemma table_row_found:
  assumes "c \<in> set (take 128 xs)"
  shows "\<exists>code :: u8. code < 0x80 \<and> xs ! unat code = c"
proof -
  from assms obtain i where "i < 128" and i: "i < length xs" "xs ! i = c"
    by (auto simp: in_set_conv_nth)
  then have "unat (of_nat i :: u8) = i" by (simp add: ck_word)
  with i \<open>i < 128\<close> show ?thesis by (intro exI [of _ "of_nat i"]) (simp add: word_less_nat_alt)
qed

text \<open>
  The tables are a complete US layout: every printable ASCII character is typed by some make
  code, with or without shift; the result is always 7-bit ASCII, so the conversion to \<^verbatim>\<open>char\<close> never
  gives a negative value; break codes give 0; and a key that types a small letter without shift types
  the same letter as a capital with shift, and only such keys type capitals.
\<close>

theorem scancode_us_layout:
  "(\<forall>c. 0x20 \<le> c \<and> c < 0x7F \<longrightarrow> (\<exists>code sh. code < 0x80 \<and> ck_scancode_to_ascii code sh = c)) \<and>
   (\<forall>code sh. ck_scancode_to_ascii code sh < 0x80) \<and>
   (\<forall>code sh. 0x80 \<le> code \<longrightarrow> ck_scancode_to_ascii code sh = 0) \<and>
   (\<forall>code. let a = ck_scancode_to_ascii code 0; b = ck_scancode_to_ascii code 1 in
      (0x61 \<le> a \<and> a \<le> 0x7A \<longleftrightarrow> 0x41 \<le> b \<and> b \<le> 0x5A) \<and> (0x61 \<le> a \<and> a \<le> 0x7A \<longrightarrow> b = a - 0x20))"
proof (intro conjI allI impI)
  fix c :: u8
  assume c: "0x20 \<le> c \<and> c < 0x7F"
  then have "c \<in> set printable_codes"
    unfolding printable_codes_def set_map set_upt
    by (intro image_eqI [of _ _ "unat c"]) (simp, simp add: word_le_nat_alt word_less_nat_alt)
  with every_printable_listed
  consider "c \<in> set (take 128 ck_scancode_table)" | "c \<in> set (take 128 ck_scancode_table_shifted)"
    by (auto simp: list_all_iff)
  then show "\<exists>code sh. code < 0x80 \<and> ck_scancode_to_ascii code sh = c"
  proof cases
    case 1
    from table_row_found [OF this] show ?thesis by (auto simp: ck_scancode_to_ascii_def)
  next
    case 2
    from table_row_found [OF this] obtain code :: u8
      where "code < 0x80" "ck_scancode_table_shifted ! unat code = c" by blast
    then have "code < 0x80 \<and> ck_scancode_to_ascii code 1 = c" by (simp add: ck_scancode_to_ascii_def)
    then show ?thesis by blast
  qed
next
  fix code sh
  show "ck_scancode_to_ascii code sh < 0x80"
    using table_lookup [of code sh] tables_ascii by (auto simp: list_all_iff)
next
  fix code sh :: u8
  assume "0x80 \<le> code"
  then have "128 \<le> unat code" "unat code < 256"
    using unat_u8_less [of code] by (simp_all add: word_le_nat_alt)
  then show "ck_scancode_to_ascii code sh = 0"
    by (simp add: ck_scancode_to_ascii_def ck_scancode_table_def ck_scancode_table_shifted_def
        nth_append)
next
  fix code :: u8
  have a: "ck_scancode_to_ascii code 0 = ck_scancode_table ! unat code"
    "ck_scancode_to_ascii code 1 = ck_scancode_table_shifted ! unat code"
    by (simp_all add: ck_scancode_to_ascii_def)
  have "unat code < length ck_scancode_table" by (simp only: length_scancode_tables unat_u8_less)
  from list_all2_nthD [OF tables_letters this] show "let a = ck_scancode_to_ascii code 0; b = ck_scancode_to_ascii code 1 in
      (0x61 \<le> a \<and> a \<le> 0x7A \<longleftrightarrow> 0x41 \<le> b \<and> b \<le> 0x5A) \<and> (0x61 \<le> a \<and> a \<le> 0x7A \<longrightarrow> b = a - 0x20)"
    unfolding Let_def a .
qed

theorem scancode_us_layout_witness:
  "\<exists>code sh. code < 0x80 \<and> ck_scancode_to_ascii code sh = 0x41"
  using scancode_us_layout [THEN conjunct1, THEN spec, of "0x41"] by simp

end
