(* ===== verification/Keyboard.thy ===== *)
theory Keyboard
  imports Irq Scancode "HOL-Library.Sublist"
begin

text \<open>
  The keyboard driver, \<^verbatim>\<open>src/src/drivers/keyboard.c\<close>: a ring buffer of 256 scancodes written by the
  interrupt handler and read by the kernel's loops, the shift state, and key repeat. The byte that
  \<^verbatim>\<open>inb\<close> reads from port 0x60 and the tick counter are arguments. The ring buffer is refined to a
  bounded queue, first with the handler and the reader as atomic operations, then with interrupts
  arriving between the single steps of the reader.
\<close>

section \<open>State and operations\<close>

abbreviation CK_KEYBOARD_BUFFER_SIZE :: nat where "CK_KEYBOARD_BUFFER_SIZE \<equiv> 256"
abbreviation CK_KEY_REPEAT_INITIAL_DELAY :: u32 where "CK_KEY_REPEAT_INITIAL_DELAY \<equiv> 500"
abbreviation CK_KEY_REPEAT_INTERVAL :: u32 where "CK_KEY_REPEAT_INTERVAL \<equiv> 50"

record keyboard =
  ck_keyboard_buffer :: "u8 carray"
  ck_keyboard_head :: u16
  ck_keyboard_tail :: u16
  ck_keyboard_shift_pressed :: u8
  ck_keyboard_held_key :: u8
  ck_keyboard_held_key_time :: u32
  ck_keyboard_last_repeat_time :: u32

definition keyboard_static :: keyboard where
  "keyboard_static = \<lparr>ck_keyboard_buffer = (\<lambda>_. 0), ck_keyboard_head = 0, ck_keyboard_tail = 0,
     ck_keyboard_shift_pressed = 0, ck_keyboard_held_key = 0, ck_keyboard_held_key_time = 0,
     ck_keyboard_last_repeat_time = 0\<rparr>"

text \<open>\<^verbatim>\<open>(i + 1) % CK_KEYBOARD_BUFFER_SIZE\<close>, computed in \<^verbatim>\<open>int\<close>.\<close>

definition ring_next :: "u16 \<Rightarrow> u16" where
  "ring_next i = of_nat ((unat i + 1) mod CK_KEYBOARD_BUFFER_SIZE)"

definition keyboard_enqueue :: "u8 \<Rightarrow> keyboard \<Rightarrow> keyboard" where
  "keyboard_enqueue scancode s =
     (let next_head = ring_next (ck_keyboard_head s) in
      if next_head \<noteq> ck_keyboard_tail s then
        s\<lparr>ck_keyboard_buffer := (ck_keyboard_buffer s)(unat (ck_keyboard_head s) := scancode),
          ck_keyboard_head := next_head\<rparr>
      else s)"

definition keyboard_irq :: "u8 \<Rightarrow> u32 \<Rightarrow> keyboard \<Rightarrow> keyboard" where
  "keyboard_irq scancode now s =
     (if scancode = 0x2A \<or> scancode = 0x36 then s\<lparr>ck_keyboard_shift_pressed := 1\<rparr>
      else if scancode = 0xAA \<or> scancode = 0xB6 then s\<lparr>ck_keyboard_shift_pressed := 0\<rparr>
      else if scancode \<ge> 0x80 then
        (if ck_keyboard_held_key s = scancode - 0x80 then s\<lparr>ck_keyboard_held_key := 0\<rparr> else s)
      else
        keyboard_enqueue scancode
          (s\<lparr>ck_keyboard_held_key := scancode, ck_keyboard_held_key_time := now,
             ck_keyboard_last_repeat_time := now\<rparr>))"

definition ck_keyboard_init :: "irq_table \<Rightarrow> irq_table" where
  "ck_keyboard_init t = ck_irq_set_handler 1 ck_keyboard_irq_handler t"

definition ck_keyboard_has_key :: "keyboard \<Rightarrow> u8" where
  "ck_keyboard_has_key s = (if ck_keyboard_head s \<noteq> ck_keyboard_tail s then 1 else 0)"

definition ck_keyboard_read_key :: "keyboard \<Rightarrow> u8 \<times> keyboard" where
  "ck_keyboard_read_key s =
     (if ck_keyboard_head s = ck_keyboard_tail s then (0, s)
      else (ck_keyboard_buffer s (unat (ck_keyboard_tail s)),
            s\<lparr>ck_keyboard_tail := ring_next (ck_keyboard_tail s)\<rparr>))"

definition ck_keyboard_is_shift_pressed :: "keyboard \<Rightarrow> u8" where
  "ck_keyboard_is_shift_pressed s = ck_keyboard_shift_pressed s"

text \<open>The repeat event of \<^verbatim>\<open>ck_keyboard_read_char\<close>: the scancode it produces, 0 for none.\<close>

definition keyboard_repeat :: "u32 \<Rightarrow> keyboard \<Rightarrow> u8 \<times> keyboard" where
  "keyboard_repeat now s =
     (let elapsed = now - ck_keyboard_held_key_time s in
      if elapsed \<ge> CK_KEY_REPEAT_INITIAL_DELAY then
        let time_since_last_repeat = now - ck_keyboard_last_repeat_time s in
        if time_since_last_repeat \<ge> CK_KEY_REPEAT_INTERVAL
        then (ck_keyboard_held_key s, s\<lparr>ck_keyboard_last_repeat_time := now\<rparr>)
        else (0, s)
      else (0, s))"

definition ck_keyboard_read_char :: "u32 \<Rightarrow> keyboard \<Rightarrow> u8 \<times> keyboard" where
  "ck_keyboard_read_char now s =
     (let (scancode, s1) = ck_keyboard_read_key s;
          (scancode, s2) = (if scancode = 0 \<and> ck_keyboard_held_key s1 \<noteq> 0
                            then keyboard_repeat now s1 else (scancode, s1))
      in if scancode = 0 then (0, s2)
         else (ck_scancode_to_ascii scancode (ck_keyboard_shift_pressed s2), s2))"

section \<open>The abstract queue\<close>

definition kb_inv :: "keyboard \<Rightarrow> bool" where
  "kb_inv s \<longleftrightarrow> unat (ck_keyboard_head s) < CK_KEYBOARD_BUFFER_SIZE \<and>
     unat (ck_keyboard_tail s) < CK_KEYBOARD_BUFFER_SIZE"

definition kb_count :: "keyboard \<Rightarrow> nat" where
  "kb_count s = (unat (ck_keyboard_head s) + 256 - unat (ck_keyboard_tail s)) mod 256"

definition kb_queue :: "keyboard \<Rightarrow> u8 list" where
  "kb_queue s =
     map (\<lambda>i. ck_keyboard_buffer s ((unat (ck_keyboard_tail s) + i) mod 256)) [0..<kb_count s]"

text \<open>
  A sequence of interrupts and reads: \<open>Some e\<close> is an interrupt with input \<open>e\<close>, \<open>None\<close> a read. The items
  its interrupts bring, where \<open>item\<close> says what one interrupt brings.
\<close>

fun arrivals :: "('e \<Rightarrow> 'a option) \<Rightarrow> 'e option list \<Rightarrow> 'a list" where
  "arrivals item [] = []"
| "arrivals item (Some e # es) =
     (case item e of None \<Rightarrow> arrivals item es | Some x \<Rightarrow> x # arrivals item es)"
| "arrivals item (None # es) = arrivals item es"

text \<open>
  The specification: a queue that holds at most \<open>cap\<close> items under such a sequence. An item that
  arrives when the queue is full is dropped, a read takes the oldest item, and a read of the empty
  queue delivers nothing. The result is what the reads delivered and what is left in the queue.
\<close>

fun queue_run :: "nat \<Rightarrow> ('e \<Rightarrow> 'a option) \<Rightarrow> 'e option list \<Rightarrow> 'a list \<Rightarrow> 'a list \<times> 'a list" where
  "queue_run cap item [] q = ([], q)"
| "queue_run cap item (Some e # es) q = queue_run cap item es
     (case item e of None \<Rightarrow> q | Some x \<Rightarrow> if length q < cap then q @ [x] else q)"
| "queue_run cap item (None # es) [] = queue_run cap item es []"
| "queue_run cap item (None # es) (x # q) =
     (case queue_run cap item es q of (out, q') \<Rightarrow> (x # out, q'))"

text \<open>Nothing is reordered, duplicated or invented.\<close>

lemma queue_run_fifo:
  "\<exists>acc. subseq acc (arrivals item es) \<and>
     q @ acc = fst (queue_run cap item es q) @ snd (queue_run cap item es q)"
proof (induction cap item es q rule: queue_run.induct)
  case (2 cap item e es q)
  then show ?case
  proof (cases "item e")
    case (Some x)
    from 2 obtain acc where a: "subseq acc (arrivals item es)"
      "(if length q < cap then q @ [x] else q) @ acc =
         fst (queue_run cap item (Some e # es) q) @ snd (queue_run cap item (Some e # es) q)"
      using Some by auto
    then have "subseq (x # acc) (arrivals item (Some e # es))" "subseq acc (arrivals item (Some e # es))"
      using Some by auto
    with a(2) show ?thesis
      by (cases "length q < cap") (metis append.assoc append_Cons append_Nil, metis)
  qed simp
next
  case (4 cap item es x q)
  then show ?case by (auto split: prod.splits)
qed simp_all

text \<open>Nothing is lost as long as every item arrives when there is room.\<close>

lemma queue_run_lossless:
  assumes "\<And>es1 e x es2. es = es1 @ Some e # es2 \<Longrightarrow> item e = Some x \<Longrightarrow>
    length (snd (queue_run cap item es1 q)) < cap"
  shows "q @ arrivals item es = fst (queue_run cap item es q) @ snd (queue_run cap item es q)"
  using assms
proof (induction cap item es q rule: queue_run.induct)
  case (2 cap item e es q)
  note step = 2(1) [OF 2(2) [of "Some e # es1" for es1, simplified]]
  show ?case
  proof (cases "item e")
    case None
    with step show ?thesis by simp
  next
    case (Some x)
    with 2(2) [of "[]" e es x] step show ?thesis by simp
  qed
next
  case (3 cap item es)
  from 3(1) [OF 3(2) [of "None # es1" for es1, simplified]] show ?case by simp
next
  case (4 cap item es x q)
  have "q @ arrivals item es = fst (queue_run cap item es q) @ snd (queue_run cap item es q)"
  proof (rule 4(1))
    fix es1 e y es2
    assume "es = es1 @ Some e # es2" "item e = Some y"
    with 4(2) [of "None # es1" e es2 y] show "length (snd (queue_run cap item es1 q)) < cap"
      by (simp split: prod.splits)
  qed
  then show ?case by (simp split: prod.splits)
qed simp

text \<open>
  The contract of a bounded queue that loses what arrives when it is full; every implementation of
  it behaves like the specification for every sequence of interrupts and reads.
\<close>

locale bounded_queue =
  fixes inv :: "'s \<Rightarrow> bool"
    and contents :: "'s \<Rightarrow> 'a list"
    and capacity :: nat
    and item :: "'e \<Rightarrow> 'a option"
    and enq :: "'e \<Rightarrow> 's \<Rightarrow> 's"
    and deq :: "'s \<Rightarrow> 'a option \<times> 's"
  assumes enq_inv: "inv s \<Longrightarrow> inv (enq e s)"
    and enq_none: "inv s \<Longrightarrow> item e = None \<Longrightarrow> contents (enq e s) = contents s"
    and enq_some: "inv s \<Longrightarrow> item e = Some x \<Longrightarrow>
      contents (enq e s) = (if length (contents s) < capacity then contents s @ [x] else contents s)"
    and deq_inv: "inv s \<Longrightarrow> inv (snd (deq s))"
    and deq_value: "inv s \<Longrightarrow>
      fst (deq s) = (case contents s of [] \<Rightarrow> None | x # xs \<Rightarrow> Some x)"
    and deq_contents: "inv s \<Longrightarrow> contents (snd (deq s)) = tl (contents s)"
begin

text \<open>A run of the queue; the first component collects what the reads return.\<close>

fun run :: "'e option list \<Rightarrow> 's \<Rightarrow> 'a list \<times> 's" where
  "run [] s = ([], s)"
| "run (Some e # es) s = run es (enq e s)"
| "run (None # es) s = (case deq s of (r, s') \<Rightarrow>
     case run es s' of (out, s'') \<Rightarrow> (case r of None \<Rightarrow> out | Some x \<Rightarrow> x # out, s''))"

lemma run_refines:
  "inv s \<Longrightarrow> inv (snd (run es s)) \<and>
     (fst (run es s), contents (snd (run es s))) = queue_run capacity item es (contents s)"
proof (induction es s rule: run.induct)
  case (2 e es s)
  then show ?case by (cases "item e") (auto simp: enq_inv enq_none enq_some)
next
  case (3 es s)
  obtain r s' where d: "deq s = (r, s')" by fastforce
  have r: "inv s'" "r = (case contents s of [] \<Rightarrow> None | x # xs \<Rightarrow> Some x)" "contents s' = tl (contents s)"
    using deq_inv [OF 3(2)] deq_value [OF 3(2)] deq_contents [OF 3(2)] d by auto
  from 3(1) [OF d [symmetric] r(1)] show ?case
    using d r(2,3) by (cases "contents s") (auto split: prod.splits)
qed simp

end

section \<open>The ring buffer is a bounded queue\<close>

lemma ring_arith:
  fixes h t :: nat
  assumes "h < 256" "t < 256"
  defines "n \<equiv> (h + 256 - t) mod 256"
  shows "(h + 1) mod 256 = t \<longleftrightarrow> n = 255"
    and "h = t \<longleftrightarrow> n = 0"
    and "n < 255 \<Longrightarrow> ((h + 1) mod 256 + 256 - t) mod 256 = Suc n"
    and "(t + n) mod 256 = h"
    and "0 < n \<Longrightarrow> (h + 256 - (t + 1) mod 256) mod 256 = n - 1"
proof -
  have n: "n = (if t \<le> h then h - t else h + 256 - t)"
    using assms by (simp add: n_def mod_if)
  have h1: "(h + 1) mod 256 = (if h = 255 then 0 else h + 1)" and
    t1: "(t + 1) mod 256 = (if t = 255 then 0 else t + 1)"
    using assms by (simp_all add: mod_if)
  show "(h + 1) mod 256 = t \<longleftrightarrow> n = 255" using assms(1,2) unfolding h1 n by auto
  show "h = t \<longleftrightarrow> n = 0" using assms(1,2) unfolding n by auto
  show "((h + 1) mod 256 + 256 - t) mod 256 = Suc n" if "n < 255"
    using that assms(1,2) unfolding h1 n by (auto simp: mod_if)
  show "(t + n) mod 256 = h" using assms(1,2) unfolding n by (auto simp: mod_if)
  show "(h + 256 - (t + 1) mod 256) mod 256 = n - 1" if "0 < n"
    using that assms(1,2) unfolding t1 n by (auto simp: mod_if)
qed

lemma ring_slots_distinct:
  assumes "i < n" and "n < 256"
  shows "(t + i) mod 256 \<noteq> (t + n) mod (256 :: nat)"
proof
  assume "(t + i) mod 256 = (t + n) mod 256"
  then have "256 dvd t + n - (t + i)"
    using assms by (metis add_le_mono less_imp_le mod_eq_dvd_iff_nat order_refl)
  with assms show False by (auto dest: dvd_imp_le)
qed

lemma unat_ring_next: "unat (ring_next i) = (unat i + 1) mod 256"
  by (simp add: ring_next_def unat_of_nat_u16)

lemma ring_next_eq_iff: "kb_inv s \<Longrightarrow> ring_next (ck_keyboard_head s) = ck_keyboard_tail s \<longleftrightarrow> kb_count s = 255"
  using ring_arith(1) [of "unat (ck_keyboard_head s)" "unat (ck_keyboard_tail s)"]
  by (simp add: kb_inv_def kb_count_def word_unat_eq_iff unat_ring_next del: One_nat_def add_2_eq_Suc')

lemma ring_empty_iff: "kb_inv s \<Longrightarrow> ck_keyboard_head s = ck_keyboard_tail s \<longleftrightarrow> kb_count s = 0"
  using ring_arith(2) [of "unat (ck_keyboard_head s)" "unat (ck_keyboard_tail s)"]
  by (simp add: kb_inv_def kb_count_def word_unat_eq_iff)

lemma kb_count_less: "kb_count s < 256"
  by (simp add: kb_count_def)

lemma length_kb_queue [simp]: "length (kb_queue s) = kb_count s"
  by (simp add: kb_queue_def)

lemma keyboard_enqueue_queue:
  assumes "kb_inv s"
  shows "kb_inv (keyboard_enqueue x s)"
    and "kb_queue (keyboard_enqueue x s) =
      (if length (kb_queue s) < 255 then kb_queue s @ [x] else kb_queue s)"
proof -
  let ?h = "unat (ck_keyboard_head s)" and ?t = "unat (ck_keyboard_tail s)"
  from assms have b: "?h < 256" "?t < 256" by (simp_all add: kb_inv_def)
  show "kb_inv (keyboard_enqueue x s)"
    using assms by (simp add: kb_inv_def keyboard_enqueue_def Let_def unat_ring_next)
  show "kb_queue (keyboard_enqueue x s) =
      (if length (kb_queue s) < 255 then kb_queue s @ [x] else kb_queue s)"
  proof (cases "kb_count s = 255")
    case True
    with ring_next_eq_iff [OF assms] show ?thesis by (simp add: keyboard_enqueue_def)
  next
    case False
    with kb_count_less [of s] have n: "kb_count s < 255" by simp
    let ?s = "keyboard_enqueue x s"
    have e: "?s = s\<lparr>ck_keyboard_buffer := (ck_keyboard_buffer s)(?h := x),
        ck_keyboard_head := ring_next (ck_keyboard_head s)\<rparr>"
      using False ring_next_eq_iff [OF assms] by (simp add: keyboard_enqueue_def)
    have c: "kb_count ?s = Suc (kb_count s)"
      using ring_arith(3) [OF b] n unfolding e by (simp add: kb_count_def unat_ring_next)
    have h: "(?t + kb_count s) mod 256 = ?h" using ring_arith(4) [OF b] by (simp add: kb_count_def)
    have "(?t + i) mod 256 \<noteq> ?h" if "i < kb_count s" for i
      using ring_slots_distinct [OF that, of ?t] n h by simp
    then have "kb_queue ?s = kb_queue s @ [x]"
      unfolding kb_queue_def c unfolding e by (simp add: h)
    with n show ?thesis by simp
  qed
qed

lemma read_key_queue:
  assumes "kb_inv s"
  shows "kb_inv (snd (ck_keyboard_read_key s))"
    and "fst (ck_keyboard_read_key s) = (if kb_queue s = [] then 0 else hd (kb_queue s))"
    and "kb_queue (snd (ck_keyboard_read_key s)) = tl (kb_queue s)"
    and "ck_keyboard_has_key s = (if kb_queue s = [] then 0 else 1)"
proof -
  let ?h = "unat (ck_keyboard_head s)" and ?t = "unat (ck_keyboard_tail s)"
  from assms have b: "?h < 256" "?t < 256" by (simp_all add: kb_inv_def)
  have nil: "kb_queue s = [] \<longleftrightarrow> kb_count s = 0" by (simp add: kb_queue_def)
  show "ck_keyboard_has_key s = (if kb_queue s = [] then 0 else 1)"
    using ring_empty_iff [OF assms] by (simp add: ck_keyboard_has_key_def nil)
  show "kb_inv (snd (ck_keyboard_read_key s))"
    using assms by (simp add: kb_inv_def ck_keyboard_read_key_def unat_ring_next)
  show "fst (ck_keyboard_read_key s) = (if kb_queue s = [] then 0 else hd (kb_queue s))"
    using ring_empty_iff [OF assms] b
    by (auto simp: ck_keyboard_read_key_def nil kb_queue_def hd_map hd_upt)
  show "kb_queue (snd (ck_keyboard_read_key s)) = tl (kb_queue s)"
  proof (cases "kb_count s")
    case 0
    with ring_empty_iff [OF assms] show ?thesis by (simp add: ck_keyboard_read_key_def kb_queue_def)
  next
    case (Suc m)
    let ?s = "snd (ck_keyboard_read_key s)"
    have e: "?s = s\<lparr>ck_keyboard_tail := ring_next (ck_keyboard_tail s)\<rparr>"
      using Suc ring_empty_iff [OF assms] by (simp add: ck_keyboard_read_key_def)
    have "kb_count ?s = m"
      using ring_arith(5) [OF b] Suc unfolding e by (simp add: kb_count_def unat_ring_next)
    moreover have "((?t + 1) mod 256 + i) mod 256 = (?t + Suc i) mod 256" for i by presburger
    ultimately show ?thesis
      unfolding kb_queue_def Suc unfolding e
      by (simp add: unat_ring_next upt_conv_Cons map_Suc_upt [symmetric] del: upt_Suc)
  qed
qed

text \<open>What an interrupt brings, and a read that tells an empty buffer from the code 0.\<close>

definition keyboard_item :: "u8 \<times> u32 \<Rightarrow> u8 option" where
  "keyboard_item = (\<lambda>(scancode, now).
     if scancode < 0x80 \<and> scancode \<noteq> 0x2A \<and> scancode \<noteq> 0x36 then Some scancode else None)"

definition keyboard_read :: "keyboard \<Rightarrow> u8 option \<times> keyboard" where
  "keyboard_read s =
     (if ck_keyboard_has_key s \<noteq> 0
      then (case ck_keyboard_read_key s of (scancode, s') \<Rightarrow> (Some scancode, s')) else (None, s))"

lemma kb_queue_ignores [simp]:
  "kb_queue (s\<lparr>ck_keyboard_shift_pressed := a\<rparr>) = kb_queue s"
  "kb_queue (s\<lparr>ck_keyboard_held_key := b\<rparr>) = kb_queue s"
  "kb_queue (s\<lparr>ck_keyboard_held_key_time := c\<rparr>) = kb_queue s"
  "kb_queue (s\<lparr>ck_keyboard_last_repeat_time := d\<rparr>) = kb_queue s"
  by (simp_all add: kb_queue_def kb_count_def)

lemma kb_inv_ignores [simp]:
  "kb_inv (s\<lparr>ck_keyboard_shift_pressed := a\<rparr>) = kb_inv s"
  "kb_inv (s\<lparr>ck_keyboard_held_key := b\<rparr>) = kb_inv s"
  "kb_inv (s\<lparr>ck_keyboard_held_key_time := c\<rparr>) = kb_inv s"
  "kb_inv (s\<lparr>ck_keyboard_last_repeat_time := d\<rparr>) = kb_inv s"
  by (simp_all add: kb_inv_def)

lemma keyboard_irq_queue:
  assumes "kb_inv s"
  shows "kb_inv (keyboard_irq scancode now s)"
    and "kb_queue (keyboard_irq scancode now s) =
      (case keyboard_item (scancode, now) of
         None \<Rightarrow> kb_queue s
       | Some x \<Rightarrow> if length (kb_queue s) < 255 then kb_queue s @ [x] else kb_queue s)"
proof -
  let ?s = "s\<lparr>ck_keyboard_held_key := scancode, ck_keyboard_held_key_time := now,
    ck_keyboard_last_repeat_time := now\<rparr>"
  have "kb_inv ?s" using assms by simp
  note q = keyboard_enqueue_queue [OF this, of scancode]
  have *: "\<not> scancode < 0x80" if "scancode = 0xAA \<or> scancode = 0xB6" using that by auto
  show "kb_inv (keyboard_irq scancode now s)"
    using assms q(1) by (simp add: keyboard_irq_def)
  show "kb_queue (keyboard_irq scancode now s) =
      (case keyboard_item (scancode, now) of
         None \<Rightarrow> kb_queue s
       | Some x \<Rightarrow> if length (kb_queue s) < 255 then kb_queue s @ [x] else kb_queue s)"
    using q(2) * by (auto simp: keyboard_irq_def keyboard_item_def length_kb_queue [symmetric]
        not_less simp del: length_kb_queue)
qed

interpretation kq: bounded_queue kb_inv kb_queue 255 keyboard_item
  "\<lambda>(scancode, now). keyboard_irq scancode now" keyboard_read
proof
  fix s e x
  assume "kb_inv s"
  note irq = keyboard_irq_queue [OF this] and rd = read_key_queue [OF this]
  show "kb_inv ((case e of (scancode, now) \<Rightarrow> keyboard_irq scancode now) s)"
    using irq(1) by (simp split: prod.splits)
  show "kb_queue ((case e of (scancode, now) \<Rightarrow> keyboard_irq scancode now) s) = kb_queue s"
    if "keyboard_item e = None"
    using that irq(2) by (cases e) simp
  show "kb_queue ((case e of (scancode, now) \<Rightarrow> keyboard_irq scancode now) s) =
      (if length (kb_queue s) < 255 then kb_queue s @ [x] else kb_queue s)"
    if "keyboard_item e = Some x"
    using that irq(2) by (cases e) simp
  show "kb_inv (snd (keyboard_read s))"
    using rd(1) \<open>kb_inv s\<close> by (cases "ck_keyboard_read_key s") (simp add: keyboard_read_def)
  show "fst (keyboard_read s) = (case kb_queue s of [] \<Rightarrow> None | x # xs \<Rightarrow> Some x)"
    using rd(2,4)
    by (cases "ck_keyboard_read_key s") (simp add: keyboard_read_def split: list.splits)
  show "kb_queue (snd (keyboard_read s)) = tl (kb_queue s)"
    using rd(3,4) by (cases "ck_keyboard_read_key s") (simp add: keyboard_read_def)
qed

text \<open>The driver under a sequence of interrupts and reads; what the reads return is collected.\<close>

fun keyboard_run :: "(u8 \<times> u32) option list \<Rightarrow> keyboard \<Rightarrow> u8 list \<times> keyboard" where
  "keyboard_run [] s = ([], s)"
| "keyboard_run (Some (scancode, now) # es) s = keyboard_run es (keyboard_irq scancode now s)"
| "keyboard_run (None # es) s =
     (if ck_keyboard_has_key s = 0 then keyboard_run es s
      else case ck_keyboard_read_key s of (c, s') \<Rightarrow>
        case keyboard_run es s' of (out, s'') \<Rightarrow> (c # out, s''))"

lemma keyboard_read_cases:
  "ck_keyboard_has_key s = 0 \<Longrightarrow> keyboard_read s = (None, s)"
  "ck_keyboard_has_key s \<noteq> 0 \<Longrightarrow> ck_keyboard_read_key s = (c, s') \<Longrightarrow> keyboard_read s = (Some c, s')"
  by (simp_all add: keyboard_read_def)

lemma keyboard_run_eq: "keyboard_run es s = kq.run es s"
proof (induction es s rule: keyboard_run.induct)
  case (3 es s)
  then show ?case
    by (cases "ck_keyboard_has_key s = 0"; cases "ck_keyboard_read_key s")
      (auto simp: keyboard_read_cases split: prod.splits)
qed auto

lemma keyboard_static_queue: "kb_inv keyboard_static" "kb_queue keyboard_static = []"
  by (simp_all add: kb_inv_def kb_queue_def kb_count_def keyboard_static_def)

section \<open>Key repeat\<close>

text \<open>
  The buffer is empty and \<open>code\<close> has been held since tick \<open>t0\<close>, \<open>d\<close> ticks ago; the last repeat is as
  the schedule of one repeat after 500 ms and then every 50 ms has it.
\<close>

definition last_repeat :: "nat \<Rightarrow> nat" where
  "last_repeat d = (if d < 500 then 0 else 500 + (d - 500) div 50 * 50)"

definition holding :: "u8 \<Rightarrow> u32 \<Rightarrow> nat \<Rightarrow> keyboard \<Rightarrow> bool" where
  "holding code t0 d s \<longleftrightarrow> ck_keyboard_head s = ck_keyboard_tail s \<and> ck_keyboard_held_key s = code \<and>
     ck_keyboard_held_key_time s = t0 \<and> ck_keyboard_last_repeat_time s = t0 + of_nat (last_repeat d)"

definition repeat_due :: "nat \<Rightarrow> bool" where
  "repeat_due d \<longleftrightarrow> 500 \<le> d \<and> (d - 500) mod 50 = 0"

lemma last_repeat_step:
  "repeat_due (Suc d) \<Longrightarrow> last_repeat (Suc d) = Suc d"
  "\<not> repeat_due (Suc d) \<Longrightarrow> last_repeat (Suc d) = last_repeat d"
  "500 \<le> Suc d \<Longrightarrow> repeat_due (Suc d) \<longleftrightarrow> 50 \<le> Suc d - last_repeat d"
  "last_repeat d \<le> d"
proof -
  show "last_repeat d \<le> d" by (auto simp: last_repeat_def)
  show "repeat_due (Suc d) \<Longrightarrow> last_repeat (Suc d) = Suc d"
    by (auto simp: last_repeat_def repeat_due_def dvd_div_mult_self mod_eq_0_iff_dvd)
  show "last_repeat (Suc d) = last_repeat d" if "\<not> repeat_due (Suc d)"
  proof (cases "500 \<le> d")
    case True
    then obtain k where "d = k + 500" by (metis add.commute le_Suc_ex)
    with that show ?thesis by (simp add: last_repeat_def repeat_due_def div_Suc)
  next
    case False
    with that show ?thesis by (cases "d = 499") (simp_all add: last_repeat_def repeat_due_def)
  qed
  show "repeat_due (Suc d) \<longleftrightarrow> 50 \<le> Suc d - last_repeat d" if "500 \<le> Suc d"
  proof (cases "d = 499")
    case True
    then show ?thesis by (simp add: last_repeat_def repeat_due_def)
  next
    case False
    with that have "500 \<le> d" by simp
    then obtain k where d: "d = k + 500" by (metis add.commute le_Suc_ex)
    have "Suc d - last_repeat d = Suc (k mod 50)"
      by (simp add: d last_repeat_def modulo_nat_def mult.commute)
    moreover have "(Suc d - 500) mod 50 = Suc k mod 50" by (simp add: d)
    moreover have "Suc k mod 50 = 0 \<longleftrightarrow> 50 \<le> Suc (k mod 50)"
      using mod_less_divisor [of 50 k] by (auto simp: mod_Suc)
    ultimately show ?thesis using that by (simp add: repeat_due_def)
  qed
qed

text \<open>Differences of tick counters that wrap around are real differences below the period.\<close>

lemma ticks_since:
  assumes "a \<le> d" and "d < 4294967296"
  shows "unat ((t0 + of_nat d) - (t0 + of_nat a) :: u32) = d - a"
proof -
  have "(t0 + of_nat d) - (t0 + of_nat a) = (of_nat (d - a) :: u32)"
    unfolding of_nat_diff [OF assms(1)] by simp
  with assms show ?thesis by (simp only: unat_of_nat_u32)
qed

lemma read_char_holding:
  assumes "holding code t0 d s" and "code \<noteq> 0" and "Suc d < 4294967296"
  defines "r \<equiv> ck_keyboard_read_char (t0 + of_nat (Suc d)) s"
  shows "fst r = (if repeat_due (Suc d)
                  then ck_scancode_to_ascii code (ck_keyboard_shift_pressed s) else 0)"
    and "holding code t0 (Suc d) (snd r)"
    and "ck_keyboard_shift_pressed (snd r) = ck_keyboard_shift_pressed s"
proof -
  let ?now = "t0 + of_nat (Suc d)"
  have "unat (?now - ck_keyboard_held_key_time s) = Suc d"
    using ticks_since [of 0 "Suc d" t0] assms by (simp add: holding_def)
  then have e: "?now - ck_keyboard_held_key_time s \<ge> CK_KEY_REPEAT_INITIAL_DELAY \<longleftrightarrow> 500 \<le> Suc d"
    by (simp add: u32_le_unat)
  have "unat (?now - ck_keyboard_last_repeat_time s) = Suc d - last_repeat d"
    using ticks_since [of "last_repeat d" "Suc d" t0] assms last_repeat_step(4) [of d]
    by (simp add: holding_def)
  then have l: "?now - ck_keyboard_last_repeat_time s \<ge> CK_KEY_REPEAT_INTERVAL \<longleftrightarrow>
      50 \<le> Suc d - last_repeat d"
    by (simp add: u32_le_unat)
  have due: "repeat_due (Suc d) \<longleftrightarrow> 500 \<le> Suc d \<and> 50 \<le> Suc d - last_repeat d"
    using last_repeat_step(3) [of d] by (auto simp: repeat_due_def)
  have "ck_keyboard_read_key s = (0, s)" "ck_keyboard_held_key s = code"
    using assms(1) by (simp_all add: holding_def ck_keyboard_read_key_def)
  then have r: "r = (if repeat_due (Suc d)
      then (ck_scancode_to_ascii code (ck_keyboard_shift_pressed s), s\<lparr>ck_keyboard_last_repeat_time := ?now\<rparr>)
      else (0, s))"
    unfolding r_def ck_keyboard_read_char_def keyboard_repeat_def Let_def due
    using assms(2) e l by simp
  show "fst r = (if repeat_due (Suc d)
                  then ck_scancode_to_ascii code (ck_keyboard_shift_pressed s) else 0)"
    by (simp add: r)
  show "holding code t0 (Suc d) (snd r)"
    using assms(1) by (simp add: r holding_def last_repeat_step(1,2))
  show "ck_keyboard_shift_pressed (snd r) = ck_keyboard_shift_pressed s" by (simp add: r)
qed

text \<open>Polling \<^verbatim>\<open>ck_keyboard_read_char\<close> once per tick, from tick \<open>now\<close> on.\<close>

fun poll_chars :: "nat \<Rightarrow> u32 \<Rightarrow> keyboard \<Rightarrow> u8 list \<times> keyboard" where
  "poll_chars 0 now s = ([], s)"
| "poll_chars (Suc n) now s =
     (case ck_keyboard_read_char now s of (c, s') \<Rightarrow>
      case poll_chars n (now + 1) s' of (cs, s'') \<Rightarrow> (c # cs, s''))"

lemma poll_chars_holding:
  assumes "holding code t0 d s" and "code \<noteq> 0" and "d + n < 4294967296"
  shows "fst (poll_chars n (t0 + of_nat (Suc d)) s) =
    map (\<lambda>k. if repeat_due k then ck_scancode_to_ascii code (ck_keyboard_shift_pressed s) else 0)
      [Suc d..<Suc d + n]"
  using assms
proof (induction n arbitrary: d s)
  case (Suc n)
  obtain c s' where r: "ck_keyboard_read_char (t0 + of_nat (Suc d)) s = (c, s')" by fastforce
  note rc = read_char_holding [OF Suc.prems(1,2), unfolded r]
  have c: "c = (if repeat_due (Suc d)
      then ck_scancode_to_ascii code (ck_keyboard_shift_pressed s) else 0)"
    using rc(1) Suc.prems(3) by simp
  have ih: "fst (poll_chars n (t0 + of_nat (Suc (Suc d))) s') =
    map (\<lambda>k. if repeat_due k then ck_scancode_to_ascii code (ck_keyboard_shift_pressed s) else 0)
      [Suc (Suc d)..<Suc (Suc d) + n]"
    using Suc.IH [of "Suc d" s'] rc Suc.prems by simp
  have u: "[Suc d..<Suc d + Suc n] = Suc d # [Suc (Suc d)..<Suc (Suc d) + n]"
    by (simp add: upt_conv_Cons)
  have w: "t0 + of_nat (Suc d) + 1 = t0 + of_nat (Suc (Suc d))" by simp
  show ?case
    unfolding u poll_chars.simps r w
    by (simp only: prod.case case_prod_beta fst_conv snd_conv list.map ih c)
qed simp

lemma poll_chars_released:
  "ck_keyboard_head s = ck_keyboard_tail s \<Longrightarrow> ck_keyboard_held_key s = 0 \<Longrightarrow>
    fst (poll_chars n now s) = replicate n 0"
  by (induction n arbitrary: now)
    (simp_all add: ck_keyboard_read_char_def ck_keyboard_read_key_def case_prod_beta)

lemma break_code:
  assumes "(code :: u8) < 0x80" "code \<noteq> 0x2A" "code \<noteq> 0x36"
  shows "0x80 \<le> code + 0x80" "code + 0x80 \<noteq> 0xAA" "code + 0x80 \<noteq> 0xB6"
    "code + 0x80 \<noteq> 0x2A" "code + 0x80 \<noteq> 0x36"
proof -
  have u: "unat (code + 0x80) = unat code + 128"
    using assms(1) unat_add_lem [of code "0x80"] by (simp add: word_less_nat_alt)
  then show "0x80 \<le> code + 0x80" "code + 0x80 \<noteq> 0x2A" "code + 0x80 \<noteq> 0x36"
    by (simp add: word_le_nat_alt, auto simp: word_unat_eq_iff)
  show "code + 0x80 \<noteq> 0xAA" "code + 0x80 \<noteq> 0xB6"
    using assms(2,3) u by (auto simp: word_unat_eq_iff)
qed

text \<open>The state after a key goes down in an empty buffer and its character is read in the same tick.\<close>

lemma press_and_read:
  assumes "kb_inv s" and "kb_queue s = []" and "keyboard_item (code, t0) = Some code" and "code \<noteq> 0"
  defines "r \<equiv> ck_keyboard_read_char t0 (keyboard_irq code t0 s)"
  shows "fst r = ck_scancode_to_ascii code (ck_keyboard_shift_pressed s)"
    and "holding code t0 0 (snd r)" and "ck_keyboard_shift_pressed (snd r) = ck_keyboard_shift_pressed s"
proof -
  let ?s = "keyboard_irq code t0 s"
  have q: "kb_inv ?s" "kb_queue ?s = [code]"
    using keyboard_irq_queue [OF assms(1), of code t0] assms(2,3) by simp_all
  obtain c s' where rk: "ck_keyboard_read_key ?s = (c, s')" by fastforce
  with read_key_queue [OF q(1)] q(2) have c: "c = code" "kb_inv s'" "kb_queue s' = []" by simp_all
  then have e: "ck_keyboard_head s' = ck_keyboard_tail s'"
    using ring_empty_iff [of s'] length_kb_queue [of s'] by simp
  have m: "code < 0x80" "code \<noteq> 0x2A" "code \<noteq> 0x36"
    using assms(3) by (auto simp: keyboard_item_def split: if_splits)
  then have n: "\<not> 0x80 \<le> code" "code \<noteq> 0xAA" "code \<noteq> 0xB6" by auto
  have fields: "ck_keyboard_held_key ?s = code" "ck_keyboard_held_key_time ?s = t0"
    "ck_keyboard_last_repeat_time ?s = t0" "ck_keyboard_shift_pressed ?s = ck_keyboard_shift_pressed s"
    using m n by (simp_all add: keyboard_irq_def keyboard_enqueue_def Let_def)
  have "s' = ?s \<or> (\<exists>t. s' = ?s\<lparr>ck_keyboard_tail := t\<rparr>)"
    using rk by (auto simp: ck_keyboard_read_key_def split: if_splits)
  then have f': "ck_keyboard_held_key s' = code" "ck_keyboard_held_key_time s' = t0"
    "ck_keyboard_last_repeat_time s' = t0" "ck_keyboard_shift_pressed s' = ck_keyboard_shift_pressed s"
    using fields by auto
  have r: "r = (ck_scancode_to_ascii code (ck_keyboard_shift_pressed s), s')"
    using rk c(1) assms(4) f'(4) by (simp add: r_def ck_keyboard_read_char_def)
  show "fst r = ck_scancode_to_ascii code (ck_keyboard_shift_pressed s)"
    "holding code t0 0 (snd r)" "ck_keyboard_shift_pressed (snd r) = ck_keyboard_shift_pressed s"
    using e f' by (simp_all add: r holding_def last_repeat_def)
qed

section \<open>Interrupts between the steps of the reader\<close>

text \<open>
  \<^verbatim>\<open>ck_keyboard_read_key\<close> runs with interrupts enabled: the handler, itself atomic because its gate
  clears the interrupt flag, may run between the test for an empty buffer, the load of the scancode
  and the store of the new tail. \<open>delivered\<close> and \<open>accepted\<close> record what the reader has returned and what
  the handler has stored.
\<close>

datatype reader_pc = Idle | Nonempty | Loaded u8

record kb_system =
  kb :: keyboard
  reader :: reader_pc
  accepted :: "u8 list"
  delivered :: "u8 list"

inductive kb_step :: "kb_system \<Rightarrow> kb_system \<Rightarrow> bool" where
  step_irq: "kb' = keyboard_irq scancode now (kb c) \<Longrightarrow>
    kb_step c (c\<lparr>kb := kb', accepted := accepted c @
      (if ck_keyboard_head kb' = ck_keyboard_head (kb c) then [] else [scancode])\<rparr>)"
| step_empty: "reader c = Idle \<Longrightarrow> ck_keyboard_head (kb c) = ck_keyboard_tail (kb c) \<Longrightarrow> kb_step c c"
| step_test: "reader c = Idle \<Longrightarrow> ck_keyboard_head (kb c) \<noteq> ck_keyboard_tail (kb c) \<Longrightarrow>
    kb_step c (c\<lparr>reader := Nonempty\<rparr>)"
| step_load: "reader c = Nonempty \<Longrightarrow>
    kb_step c (c\<lparr>reader := Loaded (ck_keyboard_buffer (kb c) (unat (ck_keyboard_tail (kb c))))\<rparr>)"
| step_store: "reader c = Loaded x \<Longrightarrow>
    kb_step c (c\<lparr>kb := (kb c)\<lparr>ck_keyboard_tail := ring_next (ck_keyboard_tail (kb c))\<rparr>,
      reader := Idle, delivered := delivered c @ [x]\<rparr>)"

definition kb_system_init :: kb_system where
  "kb_system_init = \<lparr>kb = keyboard_static, reader = Idle, accepted = [], delivered = []\<rparr>"

definition kb_system_inv :: "kb_system \<Rightarrow> bool" where
  "kb_system_inv c \<longleftrightarrow> kb_inv (kb c) \<and> accepted c = delivered c @ kb_queue (kb c) \<and>
     (case reader c of Idle \<Rightarrow> True | Nonempty \<Rightarrow> kb_queue (kb c) \<noteq> []
      | Loaded x \<Rightarrow> kb_queue (kb c) \<noteq> [] \<and> hd (kb_queue (kb c)) = x)"

lemma ring_next_neq: "kb_inv s \<Longrightarrow> ring_next (ck_keyboard_head s) \<noteq> ck_keyboard_head s"
  by (simp add: word_unat_eq_iff unat_ring_next kb_inv_def mod_Suc)

lemma keyboard_irq_head:
  assumes "kb_inv s"
  shows "ck_keyboard_head (keyboard_irq scancode now s) \<noteq> ck_keyboard_head s \<longleftrightarrow>
    keyboard_item (scancode, now) \<noteq> None \<and> length (kb_queue s) < 255"
proof -
  have *: "\<not> scancode < 0x80" if "scancode = 0xAA \<or> scancode = 0xB6" using that by auto
  have "kb_count s < 255 \<longleftrightarrow> ring_next (ck_keyboard_head s) \<noteq> ck_keyboard_tail s"
    using ring_next_eq_iff [OF assms] kb_count_less [of s] by auto
  then show ?thesis
    using * ring_next_neq [OF assms]
    by (auto simp: keyboard_irq_def keyboard_item_def keyboard_enqueue_def Let_def not_less)
qed

lemma keyboard_irq_grows:
  assumes "kb_inv s"
  shows "kb_queue (keyboard_irq scancode now s) = kb_queue s @
    (if ck_keyboard_head (keyboard_irq scancode now s) = ck_keyboard_head s then [] else [scancode])"
  using keyboard_irq_queue(2) [OF assms, of scancode now] keyboard_irq_head [OF assms, of scancode now]
  by (auto simp: keyboard_item_def split: if_splits)

lemma kb_step_inv:
  assumes "kb_step c c'" and "kb_system_inv c"
  shows "kb_system_inv c'"
  using assms
proof (cases rule: kb_step.cases)
  case (step_irq kb' scancode now)
  let ?new = "if ck_keyboard_head kb' = ck_keyboard_head (kb c) then [] else [scancode]"
  have i: "kb_inv (kb c)" using assms(2) by (simp add: kb_system_inv_def)
  have "kb_queue kb' = kb_queue (kb c) @ ?new" "kb_inv kb'"
    using keyboard_irq_grows [OF i] keyboard_irq_queue(1) [OF i] step_irq by simp_all
  with assms(2) step_irq(1) show ?thesis by (auto simp: kb_system_inv_def split: reader_pc.splits)
next
  case step_test
  with assms(2) ring_empty_iff [of "kb c"] length_kb_queue [of "kb c"] show ?thesis
    by (auto simp: kb_system_inv_def simp del: length_kb_queue)
next
  case step_load
  then have i: "kb_inv (kb c)" and ne: "kb_queue (kb c) \<noteq> []"
    using assms(2) by (simp_all add: kb_system_inv_def)
  then have "ck_keyboard_head (kb c) \<noteq> ck_keyboard_tail (kb c)"
    using ring_empty_iff [OF i] length_kb_queue [of "kb c"] by (metis length_0_conv)
  then have "hd (kb_queue (kb c)) = ck_keyboard_buffer (kb c) (unat (ck_keyboard_tail (kb c)))"
    using read_key_queue(2) [OF i] ne by (simp add: ck_keyboard_read_key_def)
  with step_load i ne assms(2) show ?thesis by (simp add: kb_system_inv_def)
next
  case (step_store x)
  then have i: "kb_inv (kb c)" and ne: "kb_queue (kb c) \<noteq> []" and x: "hd (kb_queue (kb c)) = x"
    using assms(2) by (simp_all add: kb_system_inv_def)
  let ?kb = "(kb c)\<lparr>ck_keyboard_tail := ring_next (ck_keyboard_tail (kb c))\<rparr>"
  from i ne have "ck_keyboard_head (kb c) \<noteq> ck_keyboard_tail (kb c)"
    using ring_empty_iff [OF i] length_kb_queue [of "kb c"] by (metis length_0_conv)
  then have "snd (ck_keyboard_read_key (kb c)) = ?kb" by (simp add: ck_keyboard_read_key_def)
  with read_key_queue(1,3) [OF i] have "kb_inv ?kb" "kb_queue ?kb = tl (kb_queue (kb c))" by simp_all
  then show ?thesis
    using step_store assms(2) ne x
    by (cases "kb_queue (kb c)") (simp_all add: kb_system_inv_def)
qed simp

lemma kb_reachable_inv: "kb_step\<^sup>*\<^sup>* kb_system_init c \<Longrightarrow> kb_system_inv c"
  by (induction rule: rtranclp_induct)
    (auto simp: kb_step_inv, simp add: kb_system_inv_def kb_system_init_def keyboard_static_queue)

section \<open>Properties\<close>

text \<open>
  C8: the driver is a FIFO queue of capacity 255. For every sequence of keyboard interrupts and reads
  from power-on, however long, what the reads return and what stays buffered are exactly what a
  bounded queue gives on the make codes (shift and release codes excluded): a code is dropped only
  when 255 codes are waiting, a read takes the oldest. So nothing is reordered, duplicated or
  invented, and if every make code arrives while fewer than 255 codes are waiting none is lost.
\<close>

theorem keyboard_fifo:
  fixes es :: "(u8 \<times> u32) option list"
  defines "res \<equiv> keyboard_run es keyboard_static"
  shows "(fst res, kb_queue (snd res)) = queue_run 255 keyboard_item es [] \<and>
    subseq (fst res @ kb_queue (snd res)) (arrivals keyboard_item es) \<and>
    ((\<forall>es1 e x es2. es = es1 @ Some e # es2 \<longrightarrow> keyboard_item e = Some x \<longrightarrow>
        length (kb_queue (snd (keyboard_run es1 keyboard_static))) < 255) \<longrightarrow>
       fst res @ kb_queue (snd res) = arrivals keyboard_item es)"
proof -
  have ref: "(fst (keyboard_run as keyboard_static), kb_queue (snd (keyboard_run as keyboard_static))) =
      queue_run 255 keyboard_item as []" for as
    using kq.run_refines [OF keyboard_static_queue(1), of as]
    by (simp add: keyboard_run_eq keyboard_static_queue(2))
  then have q: "fst (queue_run 255 keyboard_item as []) = fst (keyboard_run as keyboard_static)"
    "snd (queue_run 255 keyboard_item as []) = kb_queue (snd (keyboard_run as keyboard_static))" for as
    by (metis fst_conv, metis snd_conv)
  show ?thesis
    unfolding res_def ref using queue_run_fifo [where q = "[]", of keyboard_item es 255]
      queue_run_lossless [of es keyboard_item 255 "[]"] by (auto simp: q)
qed

text \<open>Typing and reading 300 keys, more than the buffer holds: the buffer wraps and loses none.\<close>

lemma queue_run_alternate:
  "item e = Some x \<Longrightarrow> 0 < cap \<Longrightarrow>
     queue_run cap item (concat (replicate n [Some e, None])) [] = (replicate n x, [])"
  by (induction n) simp_all

theorem keyboard_fifo_witness:
  "fst (keyboard_run (concat (replicate 300 [Some (0x23, 1), None])) keyboard_static) =
     replicate 300 0x23 \<and>
   fst (keyboard_run [Some (0x23, 1), Some (0x2A, 2), Some (0xA3, 3), None, Some (0x17, 4), None, None]
     keyboard_static) = [0x23, 0x17]"
proof -
  have i: "keyboard_item (0x23, 1) = Some 0x23" "keyboard_item (0x2A, 2) = None"
    "keyboard_item (0xA3, 3) = None" "keyboard_item (0x17, 4) = Some 0x17"
    by (simp_all add: keyboard_item_def)
  show ?thesis
    using keyboard_fifo [of "concat (replicate 300 [Some (0x23, 1), None])"]
      keyboard_fifo [of "[Some (0x23, 1), Some (0x2A, 2), Some (0xA3, 3), None, Some (0x17, 4), None, None]"]
    by (simp add: queue_run_alternate [of keyboard_item, OF i(1)] i)
qed

text \<open>
  C5: the reader is safe against interrupts. In every state reachable by interleaving keyboard
  interrupts with the single steps of \<^verbatim>\<open>ck_keyboard_read_key\<close>, the codes delivered so far are exactly the
  first ones of the codes the handler has accepted, in order; the rest is in the buffer, which never
  holds more than 255 codes; and a code the reader has loaded but not yet removed is still the oldest
  one in the buffer.
\<close>

theorem keyboard_reader_interrupt_safe:
  assumes "kb_step\<^sup>*\<^sup>* kb_system_init c"
  shows "accepted c = delivered c @ kb_queue (kb c) \<and> length (kb_queue (kb c)) \<le> 255 \<and>
    (\<forall>x. reader c = Loaded x \<longrightarrow> kb_queue (kb c) \<noteq> [] \<and> hd (kb_queue (kb c)) = x)"
  using kb_reachable_inv [OF assms] kb_count_less [of "kb c"] by (auto simp: kb_system_inv_def)

theorem keyboard_reader_interrupt_safe_witness:
  "\<exists>c. kb_step\<^sup>*\<^sup>* kb_system_init c \<and> reader c = Nonempty \<and> accepted c = [0x1E] \<and>
     accepted c = delivered c @ kb_queue (kb c)"
proof -
  let ?kb = "keyboard_irq 0x1E 7 keyboard_static"
  let ?c1 = "kb_system_init\<lparr>kb := ?kb, accepted := [0x1E]\<rparr>"
  have h: "ck_keyboard_head ?kb = 1" "ck_keyboard_tail ?kb = 0"
    by (simp_all add: keyboard_irq_def keyboard_enqueue_def keyboard_static_def ring_next_def)
  have "kb_step kb_system_init ?c1"
    using kb_step.step_irq [of ?kb "0x1E" 7 kb_system_init] h
    by (simp add: kb_system_init_def keyboard_static_def)
  moreover have "kb_step ?c1 (?c1\<lparr>reader := Nonempty\<rparr>)"
    using kb_step.step_test [of ?c1] h by (simp add: kb_system_init_def)
  ultimately have "kb_step\<^sup>*\<^sup>* kb_system_init (?c1\<lparr>reader := Nonempty\<rparr>)" by auto
  from this keyboard_reader_interrupt_safe [OF this] show ?thesis
    by (intro exI [of _ "?c1\<lparr>reader := Nonempty\<rparr>"]) simp
qed

text \<open>
  C23: key repeat. A key pressed when the buffer is empty and read in the same tick gives its
  character; while it is held and \<^verbatim>\<open>ck_keyboard_read_char\<close> is polled once per tick, the character comes
  again exactly 500 ms later and every 50 ms after that, wherever the tick counter wraps around; once
  its break code arrives no further character comes.
\<close>

theorem keyboard_repeat_schedule:
  fixes code :: u8 and t0 :: u32 and s :: keyboard
  assumes "kb_inv s" and "kb_queue s = []" and "keyboard_item (code, t0) = Some code" and "code \<noteq> 0"
    and "n < 2 ^ 32"
  defines "r \<equiv> ck_keyboard_read_char t0 (keyboard_irq code t0 s)"
  shows "fst r = ck_scancode_to_ascii code (ck_keyboard_shift_pressed s) \<and>
    fst (poll_chars n (t0 + 1) (snd r)) =
      map (\<lambda>d. if 500 \<le> d \<and> (d - 500) mod 50 = 0 then fst r else 0) [1..<n + 1] \<and>
    fst (poll_chars m now (keyboard_irq (code + 0x80) now (snd r))) = replicate m 0"
proof -
  note pr = press_and_read [OF assms(1-4), folded r_def]
  have "fst (poll_chars n (t0 + 1) (snd r)) =
      map (\<lambda>d. if 500 \<le> d \<and> (d - 500) mod 50 = 0 then fst r else 0) [1..<n + 1]"
    using poll_chars_holding [OF pr(2) assms(4), of n] pr(1,3) assms(5) by (simp add: repeat_due_def)
  moreover have "code < 0x80" "code \<noteq> 0x2A" "code \<noteq> 0x36"
    using assms(3) by (auto simp: keyboard_item_def split: if_splits)
  then have "keyboard_irq (code + 0x80) now (snd r) = (snd r)\<lparr>ck_keyboard_held_key := 0\<rparr>"
    using break_code [of code] pr(2) by (simp add: keyboard_irq_def holding_def)
  then have "fst (poll_chars m now (keyboard_irq (code + 0x80) now (snd r))) = replicate m 0"
    using pr(2) by (simp add: poll_chars_released holding_def)
  ultimately show ?thesis using pr(1) by simp
qed

theorem keyboard_repeat_schedule_witness:
  "fst (poll_chars 600 1001 (snd (ck_keyboard_read_char 1000 (keyboard_irq 0x1E 1000 keyboard_static)))) =
     map (\<lambda>d. if 500 \<le> d \<and> (d - 500) mod 50 = 0 then 0x61 else 0) [1..<601]"
  using keyboard_repeat_schedule [of keyboard_static "0x1E" 1000 600] keyboard_static_queue
  by (simp add: keyboard_item_def keyboard_static_def ck_scancode_to_ascii_def ck_scancode_table_def
      del: upt_rec_numeral)

end
