(* ===== verification/Visualizer.thy ===== *)
theory Visualizer
  imports Screen Numbers Kernel_Tasks Keyboard
begin

text \<open>
  The task monitor, \<^verbatim>\<open>src/src/kernel/visualizer.c\<close>: text output at a row and column, the frame of the
  mini game, progress bars, and the monitor loop that drains the keyboard, runs the tasks and draws.
  The drawing routines are functions on the cells of the screen. The values the timer returns and the
  keyboard interrupts that arrive during the loop are inputs of the model.
\<close>

section \<open>Output at a position\<close>

abbreviation VGA_COLOR_WHITE :: u8 where "VGA_COLOR_WHITE \<equiv> 0x0F"
abbreviation VGA_COLOR_CYAN :: u8 where "VGA_COLOR_CYAN \<equiv> 0x0B"
abbreviation VGA_COLOR_GREEN :: u8 where "VGA_COLOR_GREEN \<equiv> 0x0A"
abbreviation VGA_COLOR_YELLOW :: u8 where "VGA_COLOR_YELLOW \<equiv> 0x0E"

definition ck_task_name :: "u32 \<Rightarrow> string" where
  "ck_task_name i = (if i = 0 then ''Physics'' else if i = 1 then ''Input''
     else if i = 2 then ''Render'' else ''Worker'')"

definition vga_cursor_disable :: "port_io list" where
  "vga_cursor_disable = [Outb 0x3D4 0x0A, Outb 0x3D5 0x20]"

definition vga_cursor_enable :: "port_io list" where
  "vga_cursor_enable = [Outb 0x3D4 0x0A, Outb 0x3D5 0x0F, Outb 0x3D4 0x0B, Outb 0x3D5 0x0F]"

definition vga_write_char :: "u16 \<Rightarrow> u16 \<Rightarrow> char \<Rightarrow> u8 \<Rightarrow> vga \<Rightarrow> vga" where
  "vga_write_char row col c color v =
     (if row \<ge> 25 \<or> col \<ge> 80 then v
      else v(unat (row * 80 + col) := schar_cell color c))"

fun vga_write_string :: "u16 \<Rightarrow> u16 \<Rightarrow> string \<Rightarrow> u8 \<Rightarrow> vga \<Rightarrow> vga" where
  "vga_write_string row c [] color v = v"
| "vga_write_string row c (ch # str) color v =
     (if c < 80 then vga_write_string row (c + 1) str color (vga_write_char row c ch color v) else v)"

definition vga_write_uint32 :: "u16 \<Rightarrow> u16 \<Rightarrow> u32 \<Rightarrow> u8 \<Rightarrow> vga \<Rightarrow> vga" where
  "vga_write_uint32 row col num color v = vga_write_string row col (write_uint32_text num) color v"

definition vga_clear_row :: "u16 \<Rightarrow> u8 \<Rightarrow> vga \<Rightarrow> vga" where
  "vga_clear_row row color v = for_loop 0 80 (\<lambda>col. vga_write_char row (of_nat col) CHR '' '' color) v"

section \<open>The frame of the game\<close>

definition game_frame_char :: "nat \<Rightarrow> nat \<Rightarrow> char" where
  "game_frame_char r c =
     (if r = 0 \<or> r = 8 + 1 then (if c = 0 \<or> c = 20 + 1 then CHR ''+'' else CHR ''-'')
      else if c = 0 \<or> c = 20 + 1 then CHR ''|'' else CHR '' '')"

definition draw_game_border :: "vga \<Rightarrow> vga" where
  "draw_game_border v =
     for_loop 0 (8 + 2) (\<lambda>r. for_loop 0 (20 + 2) (\<lambda>c.
       vga_write_char (3 + of_nat r) (52 + of_nat c) (game_frame_char r c) VGA_COLOR_WHITE)) v"

definition draw_game_frame :: "ck_game_state \<Rightarrow> vga \<Rightarrow> vga" where
  "draw_game_frame state v =
     (let v1 = draw_game_border v;
          v2 = vga_write_char (of_int (3 + 1 + ball_y state)) (of_int (52 + 1 + ball_x state))
                 CHR ''o'' VGA_COLOR_YELLOW v1
      in for_loop 0 6 (\<lambda>i. vga_write_char (3 + 8) (of_int (52 + 1 + paddle_x state + int i)) CHR ''=''
           VGA_COLOR_GREEN) v2)"

section \<open>Progress bars\<close>

definition bar_filled :: "u32 \<Rightarrow> u32 \<Rightarrow> u32" where
  "bar_filled max_val current_val =
     (if max_val = 0 then 0
      else let filled = (current_val * 20) div max_val in if filled > 20 then 20 else filled)"

definition bar_text :: "u32 \<Rightarrow> u32 \<Rightarrow> string" where
  "bar_text max_val current_val =
     (let filled = bar_filled max_val current_val;
          bar = for_loop 0 20 (\<lambda>i bar. bar(1 + i := if of_nat i < filled then CHR ''#'' else CHR ''.''))
                  ((\<lambda>_. CHR 0x00)(0 := CHR ''[''));
          bar = bar(21 := CHR '']'', 22 := CHR 0x00)
      in takeWhile (\<lambda>c. c \<noteq> CHR 0x00) (map bar [0..<23]))"

definition draw_progress_bar :: "u16 \<Rightarrow> u16 \<Rightarrow> u32 \<Rightarrow> u32 \<Rightarrow> u8 \<Rightarrow> vga \<Rightarrow> vga" where
  "draw_progress_bar row col max_val current_val color v =
     vga_write_string row col (bar_text max_val current_val) color v"

section \<open>The monitor\<close>

text \<open>The work each task did since the last frame, and the sum (0 replaced by 1).\<close>

definition task_deltas :: "u32 \<Rightarrow> tasks \<Rightarrow> u32 carray \<Rightarrow> u32 carray \<times> u32 carray \<times> u32" where
  "task_deltas count t prev_counters =
     (let (deltas, prev, total) =
        for_loop 0 (unat count) (\<lambda>i (deltas, prev, total).
          let d = ck_task_counter t i - prev i
          in (deltas(i := d), prev(i := ck_task_counter t i), total + d))
          (\<lambda>_. 0, prev_counters, 0)
      in (deltas, prev, if total = 0 then 1 else total))"

definition draw_task_row :: "tasks \<Rightarrow> scheduler \<Rightarrow> u32 carray \<Rightarrow> u32 \<Rightarrow> nat \<Rightarrow> vga \<Rightarrow> vga" where
  "draw_task_row t s deltas total_delta i v =
     (let row = 12 + of_nat i in
      case ck_scheduler_get_task (of_nat i) s of
        None \<Rightarrow> v
      | Some _ \<Rightarrow>
        let v = vga_clear_row row VGA_COLOR_WHITE v;
            v = vga_write_string row 1 ''Task '' VGA_COLOR_GREEN v;
            v = vga_write_uint32 row 6 (of_nat i) VGA_COLOR_GREEN v;
            v = vga_write_string row 8 '' '' VGA_COLOR_WHITE v;
            v = vga_write_string row 9 (ck_task_name (of_nat i)) VGA_COLOR_CYAN v;
            v = draw_progress_bar row 22 total_delta (deltas i) VGA_COLOR_YELLOW v;
            v = vga_write_string row 44 ''CPU: '' VGA_COLOR_WHITE v;
            pct = (deltas i * 100) div total_delta;
            v = vga_write_uint32 row 49 pct VGA_COLOR_YELLOW v;
            v = vga_write_string row 52 ''% Cnt: '' VGA_COLOR_WHITE v
        in vga_write_uint32 row 59 (ck_task_counter t i) VGA_COLOR_YELLOW v)"

text \<open>The loop over the task rows leaves at the first row from 20 on.\<close>

definition draw_task_rows :: "tasks \<Rightarrow> scheduler \<Rightarrow> u32 carray \<Rightarrow> u32 \<Rightarrow> vga \<Rightarrow> vga" where
  "draw_task_rows t s deltas total_delta v =
     fold (draw_task_row t s deltas total_delta)
       (takeWhile (\<lambda>i. (12 + of_nat i :: u16) < 20) [0..<unat (ck_scheduler_task_count s)]) v"

definition draw_header :: "vga \<Rightarrow> vga" where
  "draw_header v =
     (let v = vga_clear_row 0 VGA_COLOR_CYAN v;
          v = vga_write_string 0 1 ''CheesecakeOS Task Scheduler Monitor'' VGA_COLOR_CYAN v;
          v = vga_clear_row 1 VGA_COLOR_WHITE v;
          v = vga_write_string 1 1 ''==============================================='' VGA_COLOR_WHITE v;
          v = vga_clear_row 2 VGA_COLOR_WHITE v
      in vga_write_string 2 1 ''A/D move paddle | Q quit'' VGA_COLOR_YELLOW v)"

definition draw_footer :: "scheduler \<Rightarrow> vga \<Rightarrow> vga" where
  "draw_footer s v =
     (let v = vga_clear_row 20 VGA_COLOR_WHITE v;
          v = vga_write_string 20 1 ''Active: '' VGA_COLOR_WHITE v;
          v = vga_write_uint32 20 9 (ck_scheduler_task_count s) VGA_COLOR_GREEN v;
          v = vga_write_string 20 16 ''| Switches: '' VGA_COLOR_WHITE v;
          v = vga_write_uint32 20 28 (ck_scheduler_get_context_switches s) VGA_COLOR_GREEN v;
          v = vga_clear_row 23 VGA_COLOR_WHITE v
      in vga_write_string 23 1 ''[q] Quit monitor'' VGA_COLOR_YELLOW v)"

text \<open>
  The state the monitor works on: the screen and the ports, the tasks, the scheduler and the keyboard,
  the static \<^verbatim>\<open>prev_counters\<close> and the locals \<^verbatim>\<open>last_draw\<close> and \<^verbatim>\<open>exit_requested\<close>.
\<close>

record monitor =
  mon_cells :: vga
  mon_ports :: "port_io list"
  mon_tasks :: tasks
  mon_sched :: scheduler
  mon_kbd :: keyboard
  prev_counters :: "u32 carray"
  last_draw :: u32
  exit_requested :: bool

text \<open>What the monitor does with one character: set the exit flag or steer the paddle.\<close>

definition monitor_key :: "u8 \<Rightarrow> monitor \<Rightarrow> monitor" where
  "monitor_key c m =
     (let ch = char_of (unat c) in
      if ch = CHR ''q'' \<or> ch = CHR ''Q'' then m\<lparr>exit_requested := True\<rparr>
      else if ch = CHR ''a'' \<or> ch = CHR ''A'' \<or> ch = CHR ''d'' \<or> ch = CHR ''D''
      then m\<lparr>mon_tasks := ck_game_on_key ch (mon_tasks m)\<rparr>
      else m)"

text \<open>One frame: run the tasks, then draw everything.\<close>

definition monitor_frame :: "monitor \<Rightarrow> monitor" where
  "monitor_frame m =
     (let (t, s) = ck_scheduler_run_tasks run_entry (mon_tasks m, mon_sched m);
          v = draw_game_frame (ck_game_get_state t) (draw_header (mon_cells m));
          (deltas, prev, total_delta) = task_deltas (ck_scheduler_task_count s) t (prev_counters m);
          v = draw_footer s (draw_task_rows t s deltas total_delta v)
      in m\<lparr>mon_cells := v, mon_tasks := t, mon_sched := s, prev_counters := prev\<rparr>)"

text \<open>
  The nested loops, one call of \<^verbatim>\<open>ck_keyboard_read_char\<close> at a time. A character is handled and the inner
  loop goes on; 0 ends the inner loop, and the rest of the outer loop follows: leave, wait or draw. The
  input of a step: the keyboard interrupts that arrive before the call (scancode and tick), the tick the
  call sees and the tick the throttle sees. The result tells whether the loop is left.
\<close>

type_synonym monitor_input = "(u8 \<times> u32) list \<times> u32 \<times> u32"

definition monitor_read :: "monitor_input \<Rightarrow> monitor \<Rightarrow> bool \<times> monitor" where
  "monitor_read = (\<lambda>(irqs, now1, now) m.
     let k = fold (\<lambda>(scancode, tick). keyboard_irq scancode tick) irqs (mon_kbd m);
         (c, k') = ck_keyboard_read_char now1 k;
         m1 = m\<lparr>mon_kbd := k'\<rparr> in
     if c \<noteq> 0 then (False, monitor_key c m1)
     else if exit_requested m1 then (True, m1)
     else if now - last_draw m1 < 50 then (False, m1)
     else (False, monitor_frame (m1\<lparr>last_draw := now\<rparr>)))"

fun monitor_loop :: "monitor_input list \<Rightarrow> monitor \<Rightarrow> bool \<times> monitor" where
  "monitor_loop [] m = (False, m)"
| "monitor_loop (inp # inps) m =
     (case monitor_read inp m of
        (True, m') \<Rightarrow> (True, m')
      | (False, m') \<Rightarrow> monitor_loop inps m')"

text \<open>
  The whole call: the state when it returns (flag \<open>True\<close>), or after the given inputs if the monitor has
  not been left (\<open>False\<close>).
\<close>

definition monitor_start :: "monitor \<Rightarrow> monitor" where
  "monitor_start m =
     m\<lparr>last_draw := 0, exit_requested := False, mon_tasks := ck_game_init (mon_tasks m),
       mon_ports := mon_ports m @ vga_cursor_disable,
       mon_cells := for_loop 0 25 (\<lambda>row. vga_clear_row (of_nat row) VGA_COLOR_WHITE) (mon_cells m)\<rparr>"

definition ck_visualizer_run_monitor :: "monitor_input list \<Rightarrow> monitor \<Rightarrow> bool \<times> monitor" where
  "ck_visualizer_run_monitor inps m =
     (case monitor_loop inps (monitor_start m) of
        (True, m') \<Rightarrow> (True, m'\<lparr>mon_ports := mon_ports m' @ vga_cursor_enable\<rparr>)
      | (False, m') \<Rightarrow> (False, m'))"

section \<open>What the output routines change\<close>

lemma vga_write_char_at:
  "vga_write_char row col c color v i =
    (if unat row < 25 \<and> unat col < 80 \<and> i = unat row * 80 + unat col then schar_cell color c else v i)"
proof (cases "unat row < 25 \<and> unat col < 80")
  case True
  then have m: "unat (row * 80) = unat row * 80" by (intro unat_mult_lem [THEN iffD1, of row 80, simplified]) simp
  then have "unat (row * 80 + col) = unat row * 80 + unat col"
    using True unat_add_lem [of "row * 80" col] by simp
  with True show ?thesis by (auto simp: vga_write_char_def word_le_nat_alt)
next
  case False
  then show ?thesis by (auto simp: vga_write_char_def word_le_nat_alt)
qed

lemma vga_write_string_at:
  "vga_write_string row c str color v i =
    (if unat row < 25 \<and> unat row * 80 + unat c \<le> i \<and> i < unat row * 80 + min 80 (unat c + length str)
     then schar_cell color (str ! (i - (unat row * 80 + unat c))) else v i)"
proof (induction str arbitrary: c v)
  case Nil
  then show ?case by auto
next
  case (Cons ch str)
  show ?case
  proof (cases "unat c < 80")
    case True
    then have n: "unat (c + 1) = Suc (unat c)" by (simp add: unat_Suc_u16)
    have "c < 80" using True by (simp add: word_less_nat_alt)
    then have "vga_write_string row c (ch # str) color v i =
        vga_write_string row (c + 1) str color (vga_write_char row c ch color v) i" by simp
    also have "\<dots> = (if unat row < 25 \<and> unat row * 80 + Suc (unat c) \<le> i \<and>
          i < unat row * 80 + min 80 (Suc (unat c) + length str)
        then schar_cell color (str ! (i - (unat row * 80 + Suc (unat c))))
        else vga_write_char row c ch color v i)"
      unfolding Cons.IH n ..
    finally show ?thesis using True by (auto simp: vga_write_char_at nth_Cons')
  next
    case False
    then have "\<not> c < 80" by (simp add: word_less_nat_alt)
    with False show ?thesis by auto
  qed
qed

declare vga_write_string.simps [simp del]

lemma row_range: "r * 80 + c \<le> i \<Longrightarrow> i < r * 80 + min 80 n \<Longrightarrow> i div 80 = (r :: nat)"
  by (intro div_nat_eqI) auto

lemma vga_write_string_keep:
  "x div 80 \<noteq> unat row \<or> unat row * 80 + unat c + length str \<le> x \<Longrightarrow> vga_write_string row c str color v x = v x"
  by (auto simp: vga_write_string_at dest: row_range)

lemma vga_write_uint32_keep:
  assumes "x div 80 \<noteq> unat row \<or> unat row * 80 + unat c + 10 \<le> x"
  shows "vga_write_uint32 row c num color v x = v x"
  unfolding vga_write_uint32_def
  using assms length_decimal_u32 [of num] by (intro vga_write_string_keep) (auto simp: write_uint32_decimal)

lemma vga_clear_row_at:
  "vga_clear_row row color v i = (if unat row < 25 \<and> i div 80 = unat row then schar_cell color CHR '' '' else v i)"
proof -
  have "for_loop 0 80 (\<lambda>col. vga_write_char row (of_nat col) CHR '' '' color) v i =
      (if unat row < 25 \<and> i div 80 = unat row \<and> i mod 80 < 80 then schar_cell color CHR '' '' else v i)"
  proof (rule for_loop_inv [where P = "\<lambda>k t. t i = (if unat row < 25 \<and> i div 80 = unat row \<and> i mod 80 < k
      then schar_cell color CHR '' '' else v i)"])
    fix col t
    assume "col < (80 :: nat)" and P: "t i = (if unat row < 25 \<and> i div 80 = unat row \<and> i mod 80 < col
      then schar_cell color CHR '' '' else v i)"
    then have "i = unat row * 80 + col \<longleftrightarrow> i div 80 = unat row \<and> i mod 80 = col"
      using cell_eq_iff [of col i "unat row"] by simp
    with P \<open>col < 80\<close> show "vga_write_char row (of_nat col) CHR '' '' color t i =
      (if unat row < 25 \<and> i div 80 = unat row \<and> i mod 80 < Suc col
      then schar_cell color CHR '' '' else v i)"
      by (auto simp: vga_write_char_at unat_of_nat_u16 less_Suc_eq)
  qed simp_all
  then show ?thesis by (simp add: vga_clear_row_def)
qed

text \<open>\<open>only_row r v v'\<close>: the two screens differ at most in row \<open>r\<close>, and only if that row is on the screen.\<close>

definition only_row :: "nat \<Rightarrow> vga \<Rightarrow> vga \<Rightarrow> bool" where
  "only_row r v v' \<longleftrightarrow> (\<forall>i. i div 80 \<noteq> r \<or> 25 \<le> r \<longrightarrow> v' i = v i)"

lemma only_row_write:
  "only_row (unat row) v (vga_write_char row col c color v)"
  "only_row (unat row) v (vga_write_string row col str color v)"
  "only_row (unat row) v (vga_write_uint32 row col num color v)"
  "only_row (unat row) v (vga_clear_row row color v)"
  "only_row (unat row) v (draw_progress_bar row col mx cur color v)"
  by (auto simp: only_row_def vga_write_char_at vga_write_string_at vga_clear_row_at
      vga_write_uint32_def draw_progress_bar_def dest: row_range)

lemma only_row_refl: "only_row r v v"
  by (simp add: only_row_def)

lemma only_row_trans: "only_row r v v' \<Longrightarrow> only_row r v' v'' \<Longrightarrow> only_row r v v''"
  by (simp add: only_row_def)

text \<open>\<open>clipped v v'\<close>: nothing outside the 2000 visible cells has changed.\<close>

definition clipped :: "vga \<Rightarrow> vga \<Rightarrow> bool" where
  "clipped v v' \<longleftrightarrow> (\<forall>i \<ge> VGA_MEMSIZE. v' i = v i)"

lemma clipped_refl: "clipped v v"
  by (simp add: clipped_def)

lemma clipped_trans: "clipped v v' \<Longrightarrow> clipped v' v'' \<Longrightarrow> clipped v v''"
  by (simp add: clipped_def)

lemma only_row_clipped:
  assumes "only_row r v v'"
  shows "clipped v v'"
  unfolding clipped_def
proof (intro allI impI)
  fix i :: nat
  assume "VGA_MEMSIZE \<le> i"
  then have "25 \<le> i div 80" by (simp add: less_eq_div_iff_mult_less_eq)
  then show "v' i = v i" using assms by (cases "i div 80 = r") (auto simp: only_row_def)
qed

lemma clipped_loop:
  assumes "\<And>i t. clipped t (body i t)"
  shows "clipped v (for_loop lo hi body v)"
  by (rule for_loop_const_inv [where P = "clipped v"]) (auto intro: clipped_refl clipped_trans assms)

text \<open>A write after a clipped drawing leaves it clipped.\<close>

lemmas clipped_write = clipped_trans [OF _ only_row_write(1) [THEN only_row_clipped]]
  clipped_trans [OF _ only_row_write(2) [THEN only_row_clipped]]
  clipped_trans [OF _ only_row_write(3) [THEN only_row_clipped]]
  clipped_trans [OF _ only_row_write(4) [THEN only_row_clipped]]
  clipped_trans [OF _ only_row_write(5) [THEN only_row_clipped]]

lemma draw_clipped:
  "clipped v (draw_header v)" "clipped v (draw_footer s v)" "clipped v (draw_game_frame g v)"
  "clipped v (draw_task_row t s ds tot i v)"
proof -
  show "clipped v (draw_header v)" "clipped v (draw_footer s v)"
    unfolding draw_header_def draw_footer_def Let_def
    by (intro clipped_write clipped_refl)+
  have b: "clipped v (draw_game_border v)"
    unfolding draw_game_border_def by (intro clipped_loop clipped_write clipped_refl)
  show "clipped v (draw_game_frame g v)"
    unfolding draw_game_frame_def Let_def
    by (rule clipped_trans [OF clipped_write(1) [OF b] clipped_loop]) (intro clipped_write clipped_refl)
  show "clipped v (draw_task_row t s ds tot i v)"
    unfolding draw_task_row_def Let_def
    by (cases "ck_scheduler_get_task (of_nat i) s"; simp only: option.case)
      (intro clipped_write clipped_refl)+
qed

lemma draw_task_rows_clipped: "clipped v (draw_task_rows t s ds tot v)"
proof -
  have "clipped v (fold (draw_task_row t s ds tot) rs v)" for rs
    by (induction rs arbitrary: v) (auto intro: clipped_refl clipped_trans draw_clipped)
  then show ?thesis by (simp add: draw_task_rows_def)
qed

section \<open>The picture of the game\<close>

lemma unat_of_int_u16: "0 \<le> z \<Longrightarrow> z < 65536 \<Longrightarrow> unat (of_int z :: u16) = nat z"
  using unat_of_nat_u16 [of "nat z"] by simp

lemma border_row_at:
  assumes "row < 25"
  shows "for_loop 0 22 (\<lambda>c. vga_write_char (of_nat row) (52 + of_nat c) (f c) color) v i =
    (if i div 80 = row \<and> 52 \<le> i mod 80 \<and> i mod 80 < 74 then schar_cell color (f (i mod 80 - 52)) else v i)"
proof -
  let ?P = "\<lambda>k t. t i = (if i div 80 = row \<and> 52 \<le> i mod 80 \<and> i mod 80 < 52 + k
    then schar_cell color (f (i mod 80 - 52)) else v i)"
  have "?P 22 (for_loop 0 22 (\<lambda>c. vga_write_char (of_nat row) (52 + of_nat c) (f c) color) v)"
  proof (rule for_loop_inv [where P = ?P])
    fix c t
    assume "c < (22 :: nat)" and P: "?P c t"
    have "unat (52 + of_nat c :: u16) = 52 + c"
      using \<open>c < 22\<close> unat_of_nat_u16 [of "52 + c"] by simp
    moreover have "i = row * 80 + (52 + c) \<longleftrightarrow> i div 80 = row \<and> i mod 80 = 52 + c"
      using \<open>c < 22\<close> by (intro cell_eq_iff) simp
    ultimately show "?P (Suc c) (vga_write_char (of_nat row) (52 + of_nat c) (f c) color t)"
      using P assms by (auto simp: vga_write_char_at unat_of_nat_u16)
  qed auto
  then show ?thesis by simp
qed

lemma draw_game_border_at:
  "draw_game_border v i =
    (if 3 \<le> i div 80 \<and> i div 80 < 13 \<and> 52 \<le> i mod 80 \<and> i mod 80 < 74
     then schar_cell VGA_COLOR_WHITE (game_frame_char (i div 80 - 3) (i mod 80 - 52)) else v i)"
proof -
  let ?P = "\<lambda>k t. t i = (if 3 \<le> i div 80 \<and> i div 80 < 3 + k \<and> 52 \<le> i mod 80 \<and> i mod 80 < 74
     then schar_cell VGA_COLOR_WHITE (game_frame_char (i div 80 - 3) (i mod 80 - 52)) else v i)"
  have "?P 10 (for_loop 0 10 (\<lambda>r. for_loop 0 22 (\<lambda>c.
       vga_write_char (3 + of_nat r) (52 + of_nat c) (game_frame_char r c) VGA_COLOR_WHITE)) v)"
  proof (rule for_loop_inv [where P = ?P])
    fix r t
    assume "r < (10 :: nat)" and P: "?P r t"
    then show "?P (Suc r) (for_loop 0 22 (\<lambda>c.
       vga_write_char (3 + of_nat r) (52 + of_nat c) (game_frame_char r c) VGA_COLOR_WHITE) t)"
      using border_row_at [of "3 + r" "game_frame_char r" VGA_COLOR_WHITE t i] by auto
  qed auto
  then show ?thesis by (simp add: draw_game_border_def)
qed

lemma paddle_loop_at:
  assumes "0 \<le> px" "px \<le> 14"
  shows "for_loop 0 6 (\<lambda>j. vga_write_char (3 + 8) (of_int (52 + 1 + px + int j)) CHR ''='' VGA_COLOR_GREEN) v i =
    (if 11 * 80 + 53 + nat px \<le> i \<and> i < 11 * 80 + 59 + nat px then schar_cell VGA_COLOR_GREEN CHR ''='' else v i)"
proof -
  let ?P = "\<lambda>k t. t i = (if 11 * 80 + 53 + nat px \<le> i \<and> i < 11 * 80 + 53 + nat px + k
    then schar_cell VGA_COLOR_GREEN CHR ''='' else v i)"
  have "?P 6 (for_loop 0 6 (\<lambda>j. vga_write_char (3 + 8) (of_int (52 + 1 + px + int j)) CHR ''='' VGA_COLOR_GREEN) v)"
  proof (rule for_loop_inv [where P = ?P])
    fix j t
    assume "j < (6 :: nat)" and P: "?P j t"
    have "unat (of_int (52 + 1 + px + int j) :: u16) = 53 + nat px + j"
      using assms \<open>j < 6\<close> by (subst unat_of_int_u16) auto
    then show "?P (Suc j) (vga_write_char (3 + 8) (of_int (52 + 1 + px + int j)) CHR ''='' VGA_COLOR_GREEN t)"
      using P assms \<open>j < 6\<close> unfolding vga_write_char_at by (auto simp del: of_int_add of_int_numeral)
  qed auto
  then show ?thesis by simp
qed

text \<open>The empty box of the game, as it should look, and what it shows at row \<open>r\<close> and column \<open>c\<close>.\<close>

definition empty_box :: "string list" where
  "empty_box =
    [''+--------------------+'',
     ''|                    |'',
     ''|                    |'',
     ''|                    |'',
     ''|                    |'',
     ''|                    |'',
     ''|                    |'',
     ''|                    |'',
     ''|                    |'',
     ''+--------------------+'']"

definition game_picture :: "ck_game_state \<Rightarrow> nat \<Rightarrow> nat \<Rightarrow> u16" where
  "game_picture g r c =
     (if r = 8 \<and> paddle_x g < int c \<and> int c \<le> paddle_x g + 6 then schar_cell VGA_COLOR_GREEN CHR ''=''
      else if int r = ball_y g + 1 \<and> int c = ball_x g + 1 then schar_cell VGA_COLOR_YELLOW CHR ''o''
      else schar_cell VGA_COLOR_WHITE (empty_box ! r ! c))"

lemma empty_box_char:
  assumes "r < 10" "c < 22"
  shows "empty_box ! r ! c = game_frame_char r c"
proof -
  have "\<forall>r \<in> set [0..<10]. \<forall>c \<in> set [0..<22]. empty_box ! r ! c = game_frame_char r c" by code_simp
  with assms show ?thesis by simp
qed

lemma draw_game_frame_at:
  assumes "game_inv g"
  shows "draw_game_frame g v i =
    (if 3 \<le> i div 80 \<and> i div 80 < 13 \<and> 52 \<le> i mod 80 \<and> i mod 80 < 74
     then game_picture g (i div 80 - 3) (i mod 80 - 52) else v i)"
proof -
  have g: "0 \<le> ball_x g" "ball_x g \<le> 19" "0 \<le> ball_y g" "ball_y g \<le> 6" "0 \<le> paddle_x g" "paddle_x g \<le> 14"
    using assms by (simp_all add: game_inv_def)
  define R C where "R = i div 80" and "C = i mod 80"
  have C: "C < 80" and i: "i = R * 80 + C" by (simp_all add: R_def C_def)
  have u: "unat (of_int (3 + 1 + ball_y g) :: u16) = 4 + nat (ball_y g)"
    "unat (of_int (52 + 1 + ball_x g) :: u16) = 53 + nat (ball_x g)"
    using g by (subst unat_of_int_u16; simp add: nat_add_distrib)+
  have ball: "i = (4 + nat (ball_y g)) * 80 + (53 + nat (ball_x g)) \<longleftrightarrow>
      R = 4 + nat (ball_y g) \<and> C = 53 + nat (ball_x g)"
    unfolding R_def C_def using g by (intro cell_eq_iff) simp
  have paddle: "11 * 80 + 53 + nat (paddle_x g) \<le> i \<and> i < 11 * 80 + 59 + nat (paddle_x g) \<longleftrightarrow>
      R = 11 \<and> 53 + nat (paddle_x g) \<le> C \<and> C < 59 + nat (paddle_x g)"
  proof
    assume l: "11 * 80 + 53 + nat (paddle_x g) \<le> i \<and> i < 11 * 80 + 59 + nat (paddle_x g)"
    then have "R = 11" using g C unfolding i by auto
    with l show "R = 11 \<and> 53 + nat (paddle_x g) \<le> C \<and> C < 59 + nat (paddle_x g)" by (simp add: i)
  qed (simp add: i)
  have "draw_game_frame g v i =
      (if R = 11 \<and> 53 + nat (paddle_x g) \<le> C \<and> C < 59 + nat (paddle_x g) then schar_cell VGA_COLOR_GREEN CHR ''=''
       else if R = 4 + nat (ball_y g) \<and> C = 53 + nat (ball_x g) then schar_cell VGA_COLOR_YELLOW CHR ''o''
       else draw_game_border v i)"
    unfolding draw_game_frame_def Let_def paddle_loop_at [OF g(5,6)] paddle vga_write_char_at u ball
    using g by auto
  also have "\<dots> = (if 3 \<le> R \<and> R < 13 \<and> 52 \<le> C \<and> C < 74 then game_picture g (R - 3) (C - 52) else v i)"
  proof (cases "3 \<le> R \<and> R < 13 \<and> 52 \<le> C \<and> C < 74")
    case True
    then obtain r c where rc: "R = r + 3" "C = c + 52" by (metis add.commute le_Suc_ex)
    have "R = 11 \<and> 53 + nat (paddle_x g) \<le> C \<and> C < 59 + nat (paddle_x g) \<longleftrightarrow>
        r = 8 \<and> paddle_x g < int c \<and> int c \<le> paddle_x g + 6"
      "R = 4 + nat (ball_y g) \<and> C = 53 + nat (ball_x g) \<longleftrightarrow> int r = ball_y g + 1 \<and> int c = ball_x g + 1"
      using g unfolding rc by auto
    then show ?thesis
      using True rc by (simp add: draw_game_border_at R_def [symmetric] C_def [symmetric] game_picture_def empty_box_char)
  next
    case False
    then have "\<not> (R = 11 \<and> 53 + nat (paddle_x g) \<le> C \<and> C < 59 + nat (paddle_x g))"
      "\<not> (R = 4 + nat (ball_y g) \<and> C = 53 + nat (ball_x g))" using g by auto
    with False show ?thesis
      by (simp only: draw_game_border_at R_def [symmetric] C_def [symmetric] if_False)
  qed
  finally show ?thesis by (simp add: R_def C_def)
qed

section \<open>Progress bars\<close>

lemma bar_filled_le: "unat (bar_filled mx cur) \<le> 20"
  by (simp add: bar_filled_def Let_def word_less_nat_alt)

lemma bar_loop:
  "for_loop 0 20 (\<lambda>i bar. bar(1 + i := f i)) b =
    (\<lambda>j. if 1 \<le> j \<and> j < 21 then f (j - 1) else b j)"
proof -
  have "for_loop 0 20 (\<lambda>i bar. bar(1 + i := f i)) b = (\<lambda>j. if 1 \<le> j \<and> j < 1 + 20 then f (j - 1) else b j)"
    by (rule for_loop_inv [where P = "\<lambda>k bar. bar = (\<lambda>j. if 1 \<le> j \<and> j < 1 + k then f (j - 1) else b j)"])
      (auto simp: fun_eq_iff)
  then show ?thesis by simp
qed

lemma bar_text_eq:
  fixes mx cur :: u32
  defines "k \<equiv> unat (bar_filled mx cur)"
  shows "bar_text mx cur = ''['' @ replicate k CHR ''#'' @ replicate (20 - k) CHR ''.'' @ '']''"
proof -
  define bar where "bar = (\<lambda>j :: nat. if 1 \<le> j \<and> j < 21
    then if of_nat (j - 1) < bar_filled mx cur then CHR ''#'' else CHR ''.''
    else if j = 0 then CHR ''['' else if j = 21 then CHR '']'' else CHR 0x00)"
  have inner: "(of_nat (j - 1) < bar_filled mx cur) = (j - 1 < k)" if "j < 21" for j
    using that by (simp add: k_def word_less_nat_alt unat_of_nat_u32)
  have "bar_text mx cur = takeWhile (\<lambda>c. c \<noteq> CHR 0x00) (map bar [0..<23])"
    unfolding bar_text_def Let_def bar_loop by (rule arg_cong [of _ _ "takeWhile _"]) (auto simp: bar_def)
  also have "[0..<23] = [0..<22] @ [22]" by code_simp
  also have "takeWhile (\<lambda>c. c \<noteq> CHR 0x00) (map bar ([0..<22] @ [22])) = map bar [0..<22]"
  proof -
    have nz: "bar j \<noteq> CHR 0x00" if "j < 22" for j using that by (auto simp: bar_def)
    have z: "bar 22 = CHR 0x00" by (simp add: bar_def)
    show ?thesis by (subst map_append, subst takeWhile_append2) (auto simp: nz z)
  qed
  also have "map bar [0..<22] = ''['' @ replicate k CHR ''#'' @ replicate (20 - k) CHR ''.'' @ '']''"
  proof (rule nth_equalityI)
    have k: "k \<le> 20" unfolding k_def by (rule bar_filled_le)
    then show "length (map bar [0..<22]) =
        length (''['' @ replicate k CHR ''#'' @ replicate (20 - k) CHR ''.'' @ '']'')" by simp
    fix j
    assume "j < length (map bar [0..<22])"
    then have "j < 22" by simp
    then consider "j = 0" | j' where "j = Suc j'" "j' < 20" | "j = 21" by (cases j) force+
    then show "map bar [0..<22] ! j =
        (''['' @ replicate k CHR ''#'' @ replicate (20 - k) CHR ''.'' @ '']'') ! j"
    proof cases
      case (2 j')
      then show ?thesis using k inner [of j] by (auto simp: bar_def nth_append)
    qed (use k in \<open>auto simp: bar_def nth_append\<close>)
  qed
  finally show ?thesis .
qed

section \<open>Reading the keyboard\<close>

text \<open>Whether a repeat event is due.\<close>

definition repeats_at :: "u32 \<Rightarrow> keyboard \<Rightarrow> bool" where
  "repeats_at now k \<longleftrightarrow> ck_keyboard_held_key k \<noteq> 0 \<and>
     now - ck_keyboard_held_key_time k \<ge> 500 \<and> now - ck_keyboard_last_repeat_time k \<ge> 50"

lemma read_key_fields [simp]:
  "ck_keyboard_held_key (snd (ck_keyboard_read_key k)) = ck_keyboard_held_key k"
  "ck_keyboard_held_key_time (snd (ck_keyboard_read_key k)) = ck_keyboard_held_key_time k"
  "ck_keyboard_last_repeat_time (snd (ck_keyboard_read_key k)) = ck_keyboard_last_repeat_time k"
  "ck_keyboard_shift_pressed (snd (ck_keyboard_read_key k)) = ck_keyboard_shift_pressed k"
  by (simp_all add: ck_keyboard_read_key_def)

lemma keyboard_repeat_eq:
  "ck_keyboard_held_key k \<noteq> 0 \<Longrightarrow> keyboard_repeat now k =
    (if repeats_at now k then (ck_keyboard_held_key k, k\<lparr>ck_keyboard_last_repeat_time := now\<rparr>) else (0, k))"
  by (simp add: keyboard_repeat_def repeats_at_def Let_def)

text \<open>Reading a character takes a code from the buffer, or uses up the repeat that is due.\<close>

lemma read_char_cases:
  fixes k :: keyboard
  defines "k1 \<equiv> snd (ck_keyboard_read_key k)"
  obtains (code) "fst (ck_keyboard_read_key k) \<noteq> 0"
      "ck_keyboard_read_char now k =
        (ck_scancode_to_ascii (fst (ck_keyboard_read_key k)) (ck_keyboard_shift_pressed k), k1)"
  | (none) "fst (ck_keyboard_read_key k) = 0" "ck_keyboard_read_char now k = (0, k1)"
  | (again) "fst (ck_keyboard_read_key k) = 0" "repeats_at now k" "ck_keyboard_read_char now k =
        (ck_scancode_to_ascii (ck_keyboard_held_key k) (ck_keyboard_shift_pressed k),
         k1\<lparr>ck_keyboard_last_repeat_time := now\<rparr>)"
proof -
  have r: "repeats_at now k1 = repeats_at now k" by (simp add: repeats_at_def k1_def)
  obtain sc where rk: "ck_keyboard_read_key k = (sc, k1)" by (metis k1_def prod.collapse)
  have held: "ck_keyboard_held_key k1 = ck_keyboard_held_key k"
    "ck_keyboard_shift_pressed k1 = ck_keyboard_shift_pressed k" by (simp_all add: k1_def)
  show ?thesis
  proof (cases "sc = 0 \<and> ck_keyboard_held_key k1 \<noteq> 0")
    case True
    then have "keyboard_repeat now k1 = (if repeats_at now k
        then (ck_keyboard_held_key k, k1\<lparr>ck_keyboard_last_repeat_time := now\<rparr>) else (0, k1))"
      using keyboard_repeat_eq [of k1 now] r held by simp
    with True rk held show ?thesis
      using none again by (cases "repeats_at now k") (simp_all add: ck_keyboard_read_char_def)
  next
    case False
    with rk held show ?thesis
      using code none by (cases "sc = 0") (auto simp: ck_keyboard_read_char_def)
  qed
qed

lemma read_char_inv:
  assumes "kb_inv k"
  shows "kb_inv (snd (ck_keyboard_read_char now k))"
  using read_key_queue(1) [OF assms]
  by (cases rule: read_char_cases [of k now]) simp_all

lemma monitor_key_fields [simp]:
  "mon_kbd (monitor_key c m) = mon_kbd m" "mon_cells (monitor_key c m) = mon_cells m"
  "mon_sched (monitor_key c m) = mon_sched m"
  by (simp_all add: monitor_key_def Let_def)

lemma monitor_key_inv: "tasks_inv (mon_tasks m) \<Longrightarrow> tasks_inv (mon_tasks (monitor_key c m))"
  by (simp add: monitor_key_def game_on_key_inv Let_def)

lemma monitor_key_exit: "exit_requested m \<or> c = 0x71 \<Longrightarrow> exit_requested (monitor_key c m)"
proof -
  have "char_of (unat (0x71 :: u8)) = CHR ''q''" by code_simp
  then show "exit_requested m \<or> c = 0x71 \<Longrightarrow> exit_requested (monitor_key c m)"
    by (auto simp: monitor_key_def Let_def)
qed

text \<open>The task rows and the footer, row by row.\<close>

lemmas only_row_after = only_row_trans [OF _ only_row_write(1)] only_row_trans [OF _ only_row_write(2)]
  only_row_trans [OF _ only_row_write(3)] only_row_trans [OF _ only_row_write(4)]
  only_row_trans [OF _ only_row_write(5)]

lemma unat_task_row: "i < 8 \<Longrightarrow> unat (12 + of_nat i :: u16) = 12 + i"
  using unat_of_nat_u16 [of "12 + i"] by simp

lemma draw_task_row_only: "i < 8 \<Longrightarrow> only_row (12 + i) v (draw_task_row t s ds tot i v)"
  unfolding unat_task_row [symmetric] draw_task_row_def Let_def
  by (cases "ck_scheduler_get_task (of_nat i) s"; simp only: option.case)
    (intro only_row_after only_row_refl)+

text \<open>The first task row blanks column 73 of row 12, where the game frame has its lower right corner.\<close>

lemma first_task_row_corner:
  assumes "0 < ck_task_count s"
  shows "draw_task_row t s ds tot 0 v (12 * VGA_WIDTH + 73) = schar_cell VGA_COLOR_WHITE CHR '' ''"
proof -
  obtain j where "ck_scheduler_get_task 0 s = Some j"
    using assms by (simp add: ck_scheduler_get_task_def)
  moreover have "length (bar_text mx cur) = 22" for mx cur
    using bar_filled_le [of mx cur] by (simp add: bar_text_eq)
  ultimately show ?thesis
    by (simp add: draw_task_row_def Let_def draw_progress_bar_def vga_write_string_keep
        vga_write_uint32_keep vga_clear_row_at ck_task_name_def)
qed

lemma fold_task_rows_keep:
  "\<forall>i \<in> set is. i < 8 \<and> 12 + i \<noteq> x div 80 \<Longrightarrow> fold (draw_task_row t s ds tot) is v x = v x"
proof (induction "is" arbitrary: v)
  case (Cons i "is")
  then have "draw_task_row t s ds tot i v x = v x"
    using draw_task_row_only [of i v t s ds tot] by (simp add: only_row_def)
  with Cons show ?case by simp
qed simp

lemma takeWhile_task_rows:
  assumes "n \<le> 8"
  shows "takeWhile (\<lambda>i. (12 + of_nat i :: u16) < 20) [0..<n] = [0..<n]"
  using assms by (simp add: takeWhile_eq_all_conv word_less_nat_alt unat_task_row)

lemma draw_task_rows_corner:
  assumes "0 < unat (ck_task_count s)" and "unat (ck_task_count s) \<le> 8"
  shows "draw_task_rows t s ds tot v (12 * VGA_WIDTH + 73) = schar_cell VGA_COLOR_WHITE CHR '' ''"
proof -
  have "[0..<unat (ck_task_count s)] = 0 # [1..<unat (ck_task_count s)]"
    using assms(1) by (simp add: upt_conv_Cons)
  then have "draw_task_rows t s ds tot v (12 * VGA_WIDTH + 73) =
      fold (draw_task_row t s ds tot) [1..<unat (ck_task_count s)] (draw_task_row t s ds tot 0 v) (12 * VGA_WIDTH + 73)"
    unfolding draw_task_rows_def ck_scheduler_task_count_def takeWhile_task_rows [OF assms(2)]
    by simp
  also have "\<dots> = draw_task_row t s ds tot 0 v (12 * VGA_WIDTH + 73)"
    using assms(2) by (intro fold_task_rows_keep) auto
  also have "\<dots> = schar_cell VGA_COLOR_WHITE CHR '' ''"
    using assms(1) by (intro first_task_row_corner) (simp add: word_less_nat_alt)
  finally show ?thesis .
qed

lemma draw_footer_keep: "x div 80 \<noteq> 20 \<Longrightarrow> x div 80 \<noteq> 23 \<Longrightarrow> draw_footer s v x = v x"
  unfolding draw_footer_def Let_def
  by (simp add: vga_write_uint32_keep vga_write_string_keep vga_clear_row_at)

section \<open>The monitor keeps every invariant\<close>

definition monitor_inv :: "monitor \<Rightarrow> bool" where
  "monitor_inv m \<longleftrightarrow> kb_inv (mon_kbd m) \<and> tasks_inv (mon_tasks m) \<and> sched_inv (mon_sched m)"

lemma keyboard_irqs_inv: "kb_inv k \<Longrightarrow> kb_inv (fold (\<lambda>(scancode, tick). keyboard_irq scancode tick) irqs k)"
  by (induction irqs arbitrary: k) (auto simp: keyboard_irq_queue(1))

lemma monitor_frame_inv:
  assumes "monitor_inv m"
  shows "monitor_inv (monitor_frame m)" and "clipped (mon_cells m) (mon_cells (monitor_frame m))"
proof -
  obtain t s where w: "ck_scheduler_run_tasks run_entry (mon_tasks m, mon_sched m) = (t, s)" by fastforce
  have inv: "tasks_inv t" "sched_inv s"
    using assms run_tasks_inv [of "mon_sched m" "mon_tasks m"]
      tf.run_tasks_round(1) [of "mon_sched m" "mon_tasks m"] w by (simp_all add: monitor_inv_def)
  obtain ds prev tot where d: "task_deltas (ck_scheduler_task_count s) t (prev_counters m) = (ds, prev, tot)"
    by (cases "task_deltas (ck_scheduler_task_count s) t (prev_counters m)") auto
  show "monitor_inv (monitor_frame m)"
    using assms inv w d by (simp add: monitor_inv_def monitor_frame_def)
  show "clipped (mon_cells m) (mon_cells (monitor_frame m))"
    using w d draw_clipped draw_task_rows_clipped
    by (simp add: monitor_frame_def) (meson clipped_trans)
qed

lemma monitor_read_inv:
  assumes "monitor_inv m" and "monitor_read inp m = (e, m')"
  shows "monitor_inv m'" and "clipped (mon_cells m) (mon_cells m')"
proof -
  obtain irqs now1 now where inp: "inp = (irqs, now1, now)" by (cases inp) auto
  let ?k = "fold (\<lambda>(scancode, tick). keyboard_irq scancode tick) irqs (mon_kbd m)"
  obtain c k' where r: "ck_keyboard_read_char now1 ?k = (c, k')" by fastforce
  let ?m1 = "m\<lparr>mon_kbd := k'\<rparr>"
  have k': "kb_inv k'"
    using read_char_inv [of ?k now1] keyboard_irqs_inv [of "mon_kbd m" irqs] assms(1) r by (simp add: monitor_inv_def)
  have m1: "monitor_inv ?m1" "monitor_inv (?m1\<lparr>last_draw := now\<rparr>)" "monitor_inv (monitor_key c ?m1)"
    using assms(1) k' monitor_key_inv [of ?m1 c] by (simp_all add: monitor_inv_def)
  have "m' \<in> {monitor_key c ?m1, ?m1, monitor_frame (?m1\<lparr>last_draw := now\<rparr>)}"
    using assms(2) by (auto simp: inp monitor_read_def r Let_def split: if_splits)
  then show "monitor_inv m'" "clipped (mon_cells m) (mon_cells m')"
    using m1 monitor_frame_inv [OF m1(2)] by (auto simp: clipped_refl)
qed

lemma monitor_loop_inv:
  assumes "monitor_inv m" and "monitor_loop inps m = (e, m')"
  shows "monitor_inv m' \<and> clipped (mon_cells m) (mon_cells m')"
  using assms
proof (induction inps arbitrary: m)
  case Nil
  then show ?case by (simp add: clipped_refl)
next
  case (Cons inp inps)
  obtain e1 m1 where r: "monitor_read inp m = (e1, m1)" by fastforce
  note i = monitor_read_inv [OF Cons.prems(1) r]
  show ?case
  proof (cases e1)
    case True
    with i r Cons.prems(2) show ?thesis by simp
  next
    case False
    with r Cons.prems(2) Cons.IH [OF i(1)] i(2) clipped_trans show ?thesis by auto
  qed
qed

lemma monitor_start_inv:
  assumes "monitor_inv m"
  shows "monitor_inv (monitor_start m)" and "clipped (mon_cells m) (mon_cells (monitor_start m))"
  using assms
  by (simp_all add: monitor_inv_def monitor_start_def game_init_inv)
    (intro clipped_loop clipped_write clipped_refl)

lemma run_monitor_inv:
  assumes "monitor_inv m" and "ck_visualizer_run_monitor inps m = (e, m')"
  shows "monitor_inv m'" and "clipped (mon_cells m) (mon_cells m')"
proof -
  note st = monitor_start_inv [OF assms(1)]
  obtain e1 m1 where l: "monitor_loop inps (monitor_start m) = (e1, m1)" by fastforce
  have "monitor_inv m1" "clipped (mon_cells m) (mon_cells m1)"
    using monitor_loop_inv [OF st(1) l] st(2) clipped_trans by blast+
  moreover have "mon_kbd m' = mon_kbd m1" "mon_tasks m' = mon_tasks m1" "mon_sched m' = mon_sched m1"
    "mon_cells m' = mon_cells m1"
    using assms(2) l by (cases e1; auto simp: ck_visualizer_run_monitor_def)+
  ultimately show "monitor_inv m'" "clipped (mon_cells m) (mon_cells m')" by (simp_all add: monitor_inv_def)
qed

section \<open>Leaving the monitor\<close>

text \<open>
  Inputs without keyboard interrupts, whose ticks pass through less than 50 milliseconds, so that a held
  key repeats at most once.
\<close>

definition quiet :: "monitor_input list \<Rightarrow> bool" where
  "quiet inps \<longleftrightarrow> (\<forall>(irqs, now1, now) \<in> set inps. irqs = []) \<and>
     sorted_wrt (\<lambda>(_, t, _) (_, t', _). t' - t < (50 :: u32)) inps"

text \<open>The calls that the characters in the buffer and a repeat that is due still take.\<close>

definition pending_reads :: "monitor_input list \<Rightarrow> keyboard \<Rightarrow> nat" where
  "pending_reads inps k = length (kb_queue k) + of_bool (\<exists>(irqs, now1, now) \<in> set inps. repeats_at now1 k)"

definition exit_pending :: "monitor \<Rightarrow> bool" where
  "exit_pending m \<longleftrightarrow> exit_requested m \<or>
     (\<exists>c \<in> set (kb_queue (mon_kbd m)). c \<noteq> 0 \<and> ck_scancode_to_ascii c (ck_keyboard_shift_pressed (mon_kbd m)) = 0x71)"

lemma monitor_frame_fields [simp]:
  "mon_kbd (monitor_frame m) = mon_kbd m" "exit_requested (monitor_frame m) = exit_requested m"
  by (simp_all add: monitor_frame_def Let_def case_prod_unfold)

text \<open>One call of a quiet sequence either leaves the loop or brings the exit nearer.\<close>

lemma monitor_read_progress:
  assumes inv: "kb_inv (mon_kbd m)" and ex: "exit_pending m" and q: "quiet (([], t, now) # inps)"
    and r: "monitor_read ([], t, now) m = (False, m')"
  shows "kb_inv (mon_kbd m') \<and> exit_pending m' \<and>
    pending_reads inps (mon_kbd m') < pending_reads (([], t, now) # inps) (mon_kbd m)"
proof -
  let ?k = "mon_kbd m" and ?k1 = "snd (ck_keyboard_read_key (mon_kbd m))"
  let ?asc = "\<lambda>c. ck_scancode_to_ascii c (ck_keyboard_shift_pressed ?k)"
  note rk = read_key_queue [OF inv]
  obtain c k' where rc: "ck_keyboard_read_char t ?k = (c, k')" by fastforce
  have m': "mon_kbd m' = k'" "exit_requested m' \<longleftrightarrow> exit_requested m \<or> (c \<noteq> 0 \<and> exit_requested (monitor_key c (m\<lparr>mon_kbd := k'\<rparr>)))"
    "c = 0 \<Longrightarrow> \<not> exit_requested m"
    using r monitor_key_exit [of "m\<lparr>mon_kbd := k'\<rparr>" c] by (auto simp: monitor_read_def rc Let_def split: if_splits)
  have k'inv: "kb_inv k'" using read_char_inv [OF inv, of t] rc by simp
  have rep1: "repeats_at n ?k1 = repeats_at n ?k" for n by (simp add: repeats_at_def)
  show ?thesis
  proof (cases rule: read_char_cases [of ?k t])
    case code
    then obtain x xs where k: "kb_queue ?k = x # xs" "x \<noteq> 0" "fst (ck_keyboard_read_key ?k) = x"
      using rk(2) by (cases "kb_queue ?k") auto
    have k': "k' = ?k1" "c = ?asc x" "kb_queue k' = xs" using code rc k rk(3) by simp_all
    have "exit_pending m'"
      using ex m' monitor_key_exit [of "m\<lparr>mon_kbd := k'\<rparr>" c] k k' by (auto simp: exit_pending_def)
    moreover have "pending_reads inps k' < pending_reads (([], t, now) # inps) ?k"
      using k k'(1,3) by (auto simp: pending_reads_def rep1)
    ultimately show ?thesis using k'inv m'(1) by simp
  next
    case none
    then have k': "c = 0" "k' = ?k1" using rc by simp_all
    with ex m'(3) obtain x xs where k: "kb_queue ?k = x # xs" by (cases "kb_queue ?k") (auto simp: exit_pending_def)
    with none rk have "x = 0" "kb_queue k' = xs" by (simp_all add: k')
    with ex m' k k' have "exit_pending m'" "pending_reads inps k' < pending_reads (([], t, now) # inps) ?k"
      by (auto simp: exit_pending_def pending_reads_def rep1)
    then show ?thesis using k'inv m'(1) by simp
  next
    case again
    then have k': "k' = ?k1\<lparr>ck_keyboard_last_repeat_time := t\<rparr>" using rc by simp
    have "\<not> repeats_at t' k'" if "(irqs, t', now') \<in> set inps" for irqs t' now'
      using q that by (force simp: quiet_def repeats_at_def k')
    then have "pending_reads inps k' < pending_reads (([], t, now) # inps) ?k"
      using again rk(3) by (auto simp: pending_reads_def k')
    moreover have "exit_pending m'"
      using ex m' monitor_key_exit [of "m\<lparr>mon_kbd := k'\<rparr>" c] again rk(2,3)
      by (cases "kb_queue ?k") (auto simp: exit_pending_def k')
    ultimately show ?thesis using k'inv m'(1) by simp
  qed
qed

lemma monitor_leaves:
  "kb_inv (mon_kbd m) \<Longrightarrow> exit_pending m \<Longrightarrow> quiet inps \<Longrightarrow> pending_reads inps (mon_kbd m) < length inps \<Longrightarrow>
    \<exists>m'. monitor_loop inps m = (True, m')"
proof (induction inps arbitrary: m)
  case (Cons inp inps)
  obtain t now where inp: "inp = ([], t, now)" using Cons.prems(3) by (cases inp) (auto simp: quiet_def)
  obtain e m1 where r: "monitor_read inp m = (e, m1)" by fastforce
  show ?case
  proof (cases e)
    case True
    with r show ?thesis by simp
  next
    case False
    have "quiet inps" using Cons.prems(3) by (simp add: quiet_def)
    with monitor_read_progress [of m t now inps m1] Cons.IH [of m1] Cons.prems r False show ?thesis by (simp add: inp)
  qed
qed simp

section \<open>Properties\<close>

text \<open>
  C14: the monitor is safe. From a state with valid keyboard, game and scheduler states, for every
  sequence of keyboard interrupts and clock values, also with interrupts between the reads of the
  keyboard: the three invariants hold again, and nothing outside the 2000 cells of the screen is written.
\<close>

theorem monitor_safe:
  assumes "kb_inv (mon_kbd m)" and "tasks_inv (mon_tasks m)" and "sched_inv (mon_sched m)"
    and "ck_visualizer_run_monitor inps m = (left, m')"
  shows "kb_inv (mon_kbd m') \<and> tasks_inv (mon_tasks m') \<and> sched_inv (mon_sched m') \<and>
    (\<forall>i \<ge> VGA_MEMSIZE. mon_cells m' i = mon_cells m i)"
  using run_monitor_inv [OF _ assms(4)] assms(1-3) by (simp add: monitor_inv_def clipped_def)

definition sample_monitor :: monitor where
  "sample_monitor = \<lparr>mon_cells = (\<lambda>_. 0), mon_ports = [], mon_tasks = tasks_static,
     mon_sched = sample_scheduler, mon_kbd = keyboard_static, prev_counters = (\<lambda>_. 0), last_draw = 0,
     exit_requested = False\<rparr>"

theorem monitor_safe_witness:
  "mon_cells (snd (ck_visualizer_run_monitor [([(0x1E, 5)], 100, 100), ([(0x10, 120)], 130, 131)] sample_monitor)) 2000 = 0"
proof -
  obtain left m' where r: "ck_visualizer_run_monitor [([(0x1E, 5)], 100, 100), ([(0x10, 120)], 130, 131)] sample_monitor = (left, m')"
    by fastforce
  have "kb_inv (mon_kbd sample_monitor)" "tasks_inv (mon_tasks sample_monitor)" "sched_inv (mon_sched sample_monitor)"
    "mon_cells sample_monitor = (\<lambda>_. 0)"
    by (simp_all add: sample_monitor_def keyboard_static_queue tasks_static_inv sample_scheduler_inv)
  with monitor_safe [OF _ _ _ r] r show ?thesis by simp
qed

text \<open>
  C27: Q quits. If the buffer holds a code that types \<open>q\<close> under the current shift state, the monitor is
  left after at most as many reads of the keyboard as there are codes in the buffer and two more (one for
  a key repeat, one for the read that finds nothing), provided no further key arrives and these reads
  take less than 50 milliseconds: whatever else is in the buffer, key repeat included, and whether or
  not frames are drawn in between.
\<close>

theorem monitor_quits_on_q:
  fixes m :: monitor
  assumes "kb_inv (mon_kbd m)" and "c \<in> set (kb_queue (mon_kbd m))" and "c \<noteq> 0"
    and "ck_scancode_to_ascii c (ck_keyboard_shift_pressed (mon_kbd m)) = 0x71"
    and "quiet inps" and "length (kb_queue (mon_kbd m)) + 2 \<le> length inps"
  shows "\<exists>m'. monitor_loop inps m = (True, m')"
  using assms by (intro monitor_leaves) (auto simp: exit_pending_def pending_reads_def)

theorem monitor_quits_on_q_witness:
  "\<exists>m'. monitor_loop [([], 7, 7), ([], 8, 8), ([], 8, 60)] (sample_monitor\<lparr>mon_kbd := keyboard_irq 0x10 5 keyboard_static\<rparr>) =
     (True, m')"
proof -
  let ?k = "keyboard_irq 0x10 5 keyboard_static"
  have q: "kb_inv ?k" "kb_queue ?k = [0x10]"
    using keyboard_irq_queue [OF keyboard_static_queue(1), of "0x10" 5]
    by (simp_all add: keyboard_static_queue keyboard_item_def)
  have "ck_keyboard_shift_pressed ?k = 0"
    by (simp add: keyboard_irq_def keyboard_enqueue_def keyboard_static_def Let_def)
  moreover have "ck_scancode_to_ascii 0x10 0 = 0x71" by code_simp
  ultimately show ?thesis
    using monitor_quits_on_q [of "sample_monitor\<lparr>mon_kbd := ?k\<rparr>" "0x10" "[([], 7, 7), ([], 8, 8), ([], 8, 60)]"] q
    by (simp add: quiet_def)
qed

text \<open>
  C30: the picture of the game. As long as the game state is valid (which the tasks guarantee), drawing
  the frame fills exactly the box of 10 rows and 22 columns at row 3, column 52: the ball inside the
  border, the six cells of the paddle on the lowest inner row, spaces elsewhere, and the border
  unbroken, \<open>+\<close> in the four corners, \<open>-\<close> along the top and bottom rows and \<open>|\<close> along the two sides; no
  cell outside the box changes.
\<close>

theorem game_frame_picture:
  assumes "game_inv g"
  shows "(\<forall>r < 10. \<forall>c < 22. draw_game_frame g v ((3 + r) * VGA_WIDTH + 52 + c) = game_picture g r c) \<and>
    (\<forall>i. (i div VGA_WIDTH < 3 \<or> 13 \<le> i div VGA_WIDTH \<or> i mod VGA_WIDTH < 52 \<or> 74 \<le> i mod VGA_WIDTH) \<longrightarrow>
       draw_game_frame g v i = v i) \<and>
    (\<forall>r < 10. \<forall>c < 22. r = 0 \<or> r = 9 \<or> c = 0 \<or> c = 21 \<longrightarrow>
       draw_game_frame g v ((3 + r) * VGA_WIDTH + 52 + c) = schar_cell VGA_COLOR_WHITE
         (if (r = 0 \<or> r = 9) \<and> (c = 0 \<or> c = 21) then CHR ''+''
          else if r = 0 \<or> r = 9 then CHR ''-'' else CHR ''|''))"
proof -
  have at: "draw_game_frame g v ((3 + r) * VGA_WIDTH + 52 + c) = game_picture g r c"
    if "r < 10" "c < 22" for r c
  proof -
    have "((3 + r) * VGA_WIDTH + 52 + c) div VGA_WIDTH = 3 + r"
      "((3 + r) * VGA_WIDTH + 52 + c) mod VGA_WIDTH = 52 + c"
      using that cell_eq_iff [of "52 + c" "(3 + r) * VGA_WIDTH + 52 + c" "3 + r"] by simp_all
    with that show ?thesis by (simp only: draw_game_frame_at [OF assms]) simp
  qed
  have "game_picture g r c = schar_cell VGA_COLOR_WHITE
      (if (r = 0 \<or> r = 9) \<and> (c = 0 \<or> c = 21) then CHR ''+''
       else if r = 0 \<or> r = 9 then CHR ''-'' else CHR ''|'')"
    if "r < 10" "c < 22" "r = 0 \<or> r = 9 \<or> c = 0 \<or> c = 21" for r c
    using that assms by (auto simp: game_picture_def game_inv_def empty_box_char game_frame_char_def)
  with at show ?thesis by (simp add: draw_game_frame_at [OF assms])
qed

theorem game_frame_picture_witness:
  "draw_game_frame (ck_game (ck_game_init tasks_static)) (\<lambda>_. 0) (6 * VGA_WIDTH + 55) =
     schar_cell VGA_COLOR_YELLOW CHR ''o'' \<and>
   draw_game_frame (ck_game (ck_game_init tasks_static)) (\<lambda>_. 0) (12 * VGA_WIDTH + 60) =
     schar_cell VGA_COLOR_WHITE CHR ''-''"
proof -
  let ?g = "ck_game (ck_game_init tasks_static)"
  have g: "game_inv ?g" using game_init_inv [of tasks_static] by (simp add: tasks_inv_def)
  note p = game_frame_picture [OF g, of "\<lambda>_. 0"]
  have "draw_game_frame ?g (\<lambda>_. 0) ((3 + 3) * VGA_WIDTH + 52 + 3) = game_picture ?g 3 3"
    by (rule p [THEN conjunct1, rule_format]) simp_all
  moreover have "game_picture ?g 3 3 = schar_cell VGA_COLOR_YELLOW CHR ''o''"
    by (simp add: game_picture_def ck_game_init_def)
  moreover have "draw_game_frame ?g (\<lambda>_. 0) ((3 + 9) * VGA_WIDTH + 52 + 8) = schar_cell VGA_COLOR_WHITE CHR ''-''"
    using p [THEN conjunct2, THEN conjunct2, rule_format, of 9 8] by simp
  ultimately show ?thesis by simp
qed

text \<open>
  Progress bars. For a share of a total that is not zero and below 2^32/20 the bar has
  \<open>share * 20 div total\<close> of its 20 positions filled, all of them exactly for the whole and none for
  nothing; in every case the text is 22 characters long. For larger totals the product wraps around: a
  task that did all of 214748365 units of work gets an empty bar.
\<close>

theorem progress_bar_exact:
  fixes mx cur :: u32
  assumes "0 < unat mx" and "unat mx * 20 < 2 ^ 32" and "unat cur \<le> unat mx"
  shows "bar_text mx cur = ''['' @ replicate (unat cur * 20 div unat mx) CHR ''#'' @
      replicate (20 - unat cur * 20 div unat mx) CHR ''.'' @ '']'' \<and>
    (cur = mx \<longrightarrow> unat cur * 20 div unat mx = 20) \<and>
    bar_text 214748365 214748365 = ''['' @ replicate 20 CHR ''.'' @ '']''"
proof -
  have "unat cur * 20 < 2 ^ 32" using assms(2,3) by linarith
  then have m: "unat (cur * 20) = unat cur * 20" using unat_mult_lem [of cur 20] by simp
  then have d: "unat (cur * 20 div mx) = unat cur * 20 div unat mx" by (simp add: unat_div)
  have "unat cur * 20 div unat mx \<le> unat mx * 20 div unat mx"
    using assms(3) by (intro div_le_mono) simp
  then have le: "unat cur * 20 div unat mx \<le> 20" using assms(1) by simp
  have "mx \<noteq> 0" using assms(1) by auto
  then have "unat (bar_filled mx cur) = unat cur * 20 div unat mx"
    using d le by (simp add: bar_filled_def Let_def word_less_nat_alt)
  moreover have "unat (bar_filled 214748365 214748365) = 0" by (simp add: bar_filled_def)
  ultimately show ?thesis
    using assms(1) bar_text_eq [of mx cur] bar_text_eq [of 214748365 214748365] by auto
qed

theorem progress_bar_exact_witness:
  "bar_text 12 3 = ''['' @ replicate 5 CHR ''#'' @ replicate 15 CHR ''.'' @ '']''"
  using progress_bar_exact [of 12 3] by simp

text \<open>
  The frame of the game is not left whole. \<^verbatim>\<open>draw_game_frame\<close> draws a \<open>+\<close> as the lower right corner of
  the box, at row 12, column 73; but row 12 is also the row of the first task, which is cleared and
  rewritten in the same frame: with at least one task the corner is blank on the finished screen.
\<close>

theorem monitor_overwrites_game_border:
  assumes "kb_inv (mon_kbd m)" and "tasks_inv (mon_tasks m)" and "sched_inv (mon_sched m)"
    and "0 < ck_task_count (mon_sched m)"
  shows "draw_game_frame (ck_game (mon_tasks m)) v (12 * VGA_WIDTH + 73) = schar_cell VGA_COLOR_WHITE CHR ''+'' \<and>
    mon_cells (monitor_frame m) (12 * VGA_WIDTH + 73) = schar_cell VGA_COLOR_WHITE CHR '' ''"
proof
  have g: "game_inv (ck_game (mon_tasks m))" using assms(2) by (simp add: tasks_inv_def)
  then show "draw_game_frame (ck_game (mon_tasks m)) v (12 * VGA_WIDTH + 73) = schar_cell VGA_COLOR_WHITE CHR ''+''"
    by (simp add: draw_game_frame_at game_picture_def empty_box_char game_frame_char_def game_inv_def)
  obtain t s where w: "ck_scheduler_run_tasks run_entry (mon_tasks m, mon_sched m) = (t, s)" by fastforce
  have s: "sched_inv s" "ck_task_count s = ck_task_count (mon_sched m)"
    using tf.run_tasks_round(1,2) [OF assms(3), of "mon_tasks m"] w by simp_all
  obtain ds prev tot where d: "task_deltas (ck_scheduler_task_count s) t (prev_counters m) = (ds, prev, tot)"
    by (cases "task_deltas (ck_scheduler_task_count s) t (prev_counters m)") auto
  have "0 < unat (ck_task_count s)" "unat (ck_task_count s) \<le> 8"
    using s assms(4) by (simp_all add: sched_inv_def word_less_nat_alt)
  note corner = draw_task_rows_corner [OF this]
  show "mon_cells (monitor_frame m) (12 * VGA_WIDTH + 73) = schar_cell VGA_COLOR_WHITE CHR '' ''"
    using w d corner [of t ds tot] by (simp add: monitor_frame_def draw_footer_keep)
qed

theorem monitor_overwrites_game_border_witness:
  "mon_cells (monitor_frame sample_monitor) (12 * VGA_WIDTH + 73) = schar_cell VGA_COLOR_WHITE CHR '' ''"
  using monitor_overwrites_game_border [of sample_monitor "\<lambda>_. 0"]
  by (simp add: sample_monitor_def keyboard_static_queue tasks_static_inv sample_scheduler_inv)
    (simp add: sample_scheduler_def)

end
