(* ===== verification/Shell.thy ===== *)
theory Shell
  imports Terminal Shell_Text Visualizer
begin

text \<open>
  The shell, \<^verbatim>\<open>src/src/kernel/shell.c\<close>: the status line, the commands and the main loop. What a command
  prints is a list of output items, one per call of \<^verbatim>\<open>ck_vga_write_string\<close> or \<^verbatim>\<open>ck_vga_write_number\<close>, in
  the order of the calls. The values the timer returns at its calls, the keyboard interrupts that arrive
  and the inputs of the task monitor are inputs of an iteration of the main loop.
\<close>

section \<open>State\<close>

text \<open>
  The statics of \<^verbatim>\<open>shell.c\<close> and the local variables of \<^verbatim>\<open>ck_shell_run\<close>, with the state of the components
  the shell calls. \<open>halted\<close> holds after \<^verbatim>\<open>cli; hlt\<close>.
\<close>

record shell =
  tty :: terminal
  sh_history :: history
  last_ticks :: u32
  input_buffer :: "char carray"
  input_len :: nat
  sh_tasks :: tasks
  sh_sched :: scheduler
  sh_kbd :: keyboard
  sh_heap :: heap
  sh_prev_counters :: "u32 carray"
  halted :: bool

record shell_input =
  in_irqs :: "(u8 \<times> u32) list"
  in_status :: u32
  in_read :: u32
  in_exec :: u32
  in_status2 :: u32
  in_monitor :: "monitor_input list"

section \<open>The status line\<close>

text \<open>Characters stored one after the other from a position on.\<close>

definition status_put :: "char \<Rightarrow> nat \<times> vga \<Rightarrow> nat \<times> vga" where
  "status_put c = (\<lambda>(pos, v). (pos + 1, v(pos := schar_cell COLOR_YELLOW c)))"

definition status_puts :: "string \<Rightarrow> nat \<times> vga \<Rightarrow> nat \<times> vga" where
  "status_puts s pv = fold status_put s pv"

definition ck_shell_draw_status :: "u32 \<Rightarrow> shell \<Rightarrow> shell" where
  "ck_shell_draw_status ticks s =
     (let seconds = ticks div 1000; ms = ticks mod 1000 in
      if ticks = last_ticks s then s
      else
        let v = ck_vga_clear_line 0 (cells (tty s));
            pv = status_puts ''Time: '' (0, v);
            pv = (if seconds = 0 then pv else status_puts (rev (number_buf seconds)) pv);
            pv = status_put CHR ''.'' pv;
            pv = status_puts [digit_char (unat ((ms div 100) mod 10)), digit_char (unat ((ms div 10) mod 10)),
                              digit_char (unat (ms mod 10))] pv;
            pv = status_puts ''s'' pv
        in s\<lparr>last_ticks := ticks, tty := (tty s)\<lparr>cells := snd pv\<rparr>\<rparr>)"

section \<open>What the commands print\<close>

datatype out = Str string u8 | Num u32 u8

fun print_out :: "out \<Rightarrow> terminal \<Rightarrow> terminal" where
  "print_out (Str s color) t = ck_vga_write_string s color t"
| "print_out (Num n color) t = ck_vga_write_number n color t"

definition print_outs :: "out list \<Rightarrow> terminal \<Rightarrow> terminal" where
  "print_outs os t = fold print_out os t"

abbreviation ln :: "string \<Rightarrow> string" where "ln s \<equiv> s @ [CHR 0x0A]"

definition help_out :: "out list" where
  "help_out = [
    Str (ln ''That's grated of you to ask! Here are my flavors:'') COLOR_GREEN,
    Str (ln ''  help    - the crust of the matter'') COLOR_WHITE,
    Str (ln ''  uptime  - how long kernel has been baking'') COLOR_WHITE,
    Str (ln ''  time    - this kernel is on a ROLL (no time to waste)'') COLOR_WHITE,
    Str (ln ''  echo    - repeat what I tell you'') COLOR_WHITE,
    Str (ln ''  info    - kernel details (what's in the mix)'') COLOR_WHITE,
    Str (ln ''  ps      - process list (the kitchen crew)'') COLOR_WHITE,
    Str (ln ''  memory  - see the cream filling (memory stats)'') COLOR_WHITE,
    Str (ln ''  tasks   - detailed task counters'') COLOR_WHITE,
    Str (ln ''  taskmon - live scheduler + mini game (A/D move, Q quit)'') COLOR_WHITE,
    Str (ln ''  history - show command history'') COLOR_WHITE,
    Str (ln ''  clear   - clean slate? Un-beet-able!'') COLOR_WHITE,
    Str (ln ''  reboot  - let's make a fresh bake'') COLOR_WHITE]"

definition uptime_out :: "u32 \<Rightarrow> out list" where
  "uptime_out ticks =
     (let seconds = ticks div 1000; millis = ticks mod 1000 in
      [Str ''System uptime: '' COLOR_GREEN, Num seconds COLOR_WHITE, Str ''.'' COLOR_WHITE,
       Num (millis div 100) COLOR_WHITE, Str (ln '' seconds (baked to perfection!)'') COLOR_GREEN])"

definition echo_out :: "string \<Rightarrow> out list" where
  "echo_out args =
     (if ck_strlen args > 0 then [Str args COLOR_YELLOW, Str (ln '''') COLOR_YELLOW]
      else [Str (ln ''(echo what?)'') COLOR_YELLOW])"

definition info_out :: "heap \<Rightarrow> scheduler \<Rightarrow> out list" where
  "info_out h s =
     (let total_mem = ck_pmem_get_total_memory (hp_pmem h);
          used_pages = ck_pmem_get_used_pages (hp_pmem h);
          heap_used = ck_heap_get_total_allocated h - ck_heap_get_total_freed h;
          num_tasks = ck_scheduler_task_count s in
      [Str (ln ''CheesecakeOS v1.0 - Multitasking x86 Kernel'') COLOR_GREEN,
       Str (ln ''Architecture: 32-bit x86 (i686) Protected Mode'') COLOR_WHITE,
       Str (ln ''Bootloader: GRUB Multiboot2'') COLOR_WHITE,
       Str ''Memory: '' COLOR_WHITE, Num (total_mem div 1048576) COLOR_WHITE, Str '' MB | '' COLOR_WHITE,
       Num used_pages COLOR_WHITE, Str (ln '' pages used'') COLOR_WHITE,
       Str ''Heap: '' COLOR_WHITE, Num (heap_used div 1024) COLOR_WHITE, Str (ln '' KB allocated'') COLOR_WHITE,
       Str (ln ''Interrupts: 32 exceptions + 16 IRQs (PIC remapped)'') COLOR_WHITE,
       Str (ln ''Timer: 1 kHz PIT (Intel 8254)'') COLOR_WHITE,
       Str (ln ''Input: PS/2 keyboard'') COLOR_WHITE,
       Str ''Tasks: '' COLOR_WHITE, Num num_tasks COLOR_WHITE, Str '' running | '' COLOR_WHITE,
       Num (ck_scheduler_get_context_switches s) COLOR_WHITE, Str (ln '' context switches'') COLOR_WHITE])"

definition ps_row :: "scheduler \<Rightarrow> tasks \<Rightarrow> nat \<Rightarrow> out list" where
  "ps_row s t i =
     (case ck_scheduler_get_task (of_nat i) s of
        None \<Rightarrow> []
      | Some _ \<Rightarrow> [Num (of_nat i) COLOR_YELLOW, Str ''    READY     '' COLOR_WHITE,
                   Num (ck_task_counter t i) COLOR_YELLOW, Str (ln '''') COLOR_WHITE])"

definition ps_out :: "scheduler \<Rightarrow> tasks \<Rightarrow> out list" where
  "ps_out s t =
     [Str (ln ''PID  STATE    COUNTER'') COLOR_GREEN, Str (ln ''---  --------  -----------'') COLOR_WHITE] @
     concat (map (ps_row s t) [0..<unat (ck_scheduler_task_count s)])"

definition history_row :: "history \<Rightarrow> nat \<Rightarrow> out list" where
  "history_row h i = [Num (of_nat (i + 1)) COLOR_YELLOW, Str '': '' COLOR_WHITE,
     Str (history_line h i) COLOR_WHITE, Str (ln '''') COLOR_WHITE]"

definition history_out :: "history \<Rightarrow> out list" where
  "history_out h =
     [Str (ln ''Command History:'') COLOR_GREEN] @
     concat (map (history_row h) [0..<ck_history_count h]) @
     (if ck_history_count h = 0 then [Str (ln ''(no commands yet)'') COLOR_YELLOW] else [])"

definition time_out :: "u32 \<Rightarrow> out list" where
  "time_out ticks =
     [Str ''Baking time: '' COLOR_GREEN, Num (ticks div 1000) COLOR_WHITE, Str ''.'' COLOR_WHITE,
      Num (ticks mod 1000) COLOR_WHITE, Str (ln '' seconds (looking gouda!)'') COLOR_WHITE]"

definition memory_out :: "heap \<Rightarrow> out list" where
  "memory_out h =
     (let total_mem = ck_pmem_get_total_memory (hp_pmem h);
          used_pages = ck_pmem_get_used_pages (hp_pmem h);
          free_pages = ck_pmem_get_free_pages (hp_pmem h);
          heap_alloc = ck_heap_get_total_allocated h;
          heap_freed = ck_heap_get_total_freed h in
      [Str (ln ''Memory Status - A Creamy Filling:'') COLOR_GREEN,
       Str ''Total memory: '' COLOR_WHITE, Num (total_mem div 1048576) COLOR_WHITE, Str '' MB ('' COLOR_WHITE,
       Num (total_mem div 4096) COLOR_WHITE, Str (ln '' pages)'') COLOR_WHITE,
       Str ''Used pages: '' COLOR_WHITE, Num used_pages COLOR_WHITE, Str '' | Free pages: '' COLOR_WHITE,
       Num free_pages COLOR_WHITE, Str (ln '''') COLOR_WHITE,
       Str ''Heap allocated: '' COLOR_WHITE, Num heap_alloc COLOR_WHITE, Str '' bytes | Freed: '' COLOR_WHITE,
       Num heap_freed COLOR_WHITE, Str (ln '' bytes'') COLOR_WHITE])"

definition tasks_row :: "scheduler \<Rightarrow> tasks \<Rightarrow> nat \<Rightarrow> out list" where
  "tasks_row s t i =
     (case ck_scheduler_get_task (of_nat i) s of
        None \<Rightarrow> []
      | Some j \<Rightarrow> [Str ''Task #'' COLOR_YELLOW, Num (of_nat i) COLOR_YELLOW, Str '': Counter = '' COLOR_WHITE,
                   Num (ck_task_counter t i) COLOR_WHITE, Str '' (runs: '' COLOR_WHITE,
                   Num (times_run (ck_task_table s j)) COLOR_WHITE, Str (ln '')'') COLOR_WHITE])"

definition tasks_out :: "scheduler \<Rightarrow> tasks \<Rightarrow> out list" where
  "tasks_out s t =
     [Str (ln ''Running Kernel Tasks - The Kitchen Crew:'') COLOR_GREEN,
      Str ''Total tasks: '' COLOR_WHITE, Num (ck_scheduler_task_count s) COLOR_WHITE,
      Str (ln (ln '''')) COLOR_WHITE] @
     concat (map (tasks_row s t) [0..<unat (ck_scheduler_task_count s)])"

definition banner_out :: "out list" where
  "banner_out = [
    Str (ln '''') COLOR_GREEN,
    Str (ln ''  +====================================+'') COLOR_GREEN,
    Str (ln ''  | CheesecakeOS - Multitasking v1.0 |'') COLOR_GREEN,
    Str (ln ''  |    Ready to serve! (May 2026)    |'') COLOR_GREEN,
    Str (ln ''  +====================================+'') COLOR_GREEN,
    Str (ln '''') COLOR_WHITE,
    Str (ln ''Type 'help' for commands | Try 'taskmon' for live demo'') COLOR_YELLOW,
    Str (ln '''') COLOR_WHITE,
    Str ''> '' COLOR_YELLOW]"

text \<open>The message for an unknown command starts with the UTF-8 bytes of a cookie.\<close>

definition unknown_out :: "out list" where
  "unknown_out = [Str ([CHR 0xF0, CHR 0x9F, CHR 0x8D, CHR 0xAA] @
     ln '' That command is crumbly... try 'help' for the menu.'') COLOR_RED]"

section \<open>Commands\<close>

definition shell_print :: "out list \<Rightarrow> shell \<Rightarrow> shell" where
  "shell_print os s = s\<lparr>tty := print_outs os (tty s)\<rparr>"

text \<open>The screen the shell shows at its start and after the monitor.\<close>

definition shell_home :: "u32 \<Rightarrow> shell \<Rightarrow> shell" where
  "shell_home ticks s =
     (let s1 = ck_shell_draw_status ticks (s\<lparr>tty := ck_vga_clear_screen (tty s)\<rparr>);
          s2 = s1\<lparr>tty := ck_vga_update_hw_cursor ((tty s1)\<lparr>ck_cursor_pos := 2 * 80\<rparr>)\<rparr>
      in shell_print banner_out s2)"

text \<open>
  The command \<^verbatim>\<open>taskmon\<close>; \<open>None\<close> while the monitor has not returned. The monitor works on the screen
  and the ports, the tasks, the scheduler, the keyboard and its own statics.
\<close>

definition taskmon_notice :: "shell \<Rightarrow> shell" where
  "taskmon_notice = shell_print [Str (ln ''Entering live task monitor... (press 'q' to exit)'') COLOR_YELLOW]"

definition monitor_of :: "shell \<Rightarrow> monitor" where
  "monitor_of s = \<lparr>mon_cells = cells (tty s), mon_ports = ports (tty s), mon_tasks = sh_tasks s,
     mon_sched = sh_sched s, mon_kbd = sh_kbd s, prev_counters = sh_prev_counters s, last_draw = 0,
     exit_requested = False\<rparr>"

definition after_monitor :: "monitor \<Rightarrow> shell \<Rightarrow> shell" where
  "after_monitor m s = s\<lparr>tty := (tty s)\<lparr>cells := mon_cells m, ports := mon_ports m\<rparr>, sh_tasks := mon_tasks m,
     sh_sched := mon_sched m, sh_kbd := mon_kbd m, sh_prev_counters := prev_counters m\<rparr>"

definition shell_taskmon :: "shell_input \<Rightarrow> shell \<Rightarrow> shell option" where
  "shell_taskmon inp s =
     (let s1 = taskmon_notice s in
      case ck_visualizer_run_monitor (in_monitor inp) (monitor_of s1) of
        (True, m') \<Rightarrow> Some (shell_home (in_status2 inp) (after_monitor m' s1))
      | (False, m') \<Rightarrow> None)"

definition shell_clear :: "shell \<Rightarrow> shell" where
  "shell_clear s =
     (let t = (ck_vga_clear_screen (tty s))\<lparr>ck_cursor_pos := 80\<rparr>
      in s\<lparr>tty := print_outs [Str (ln ''Fresh and crumbly, just like a new kernel!'') COLOR_GREEN] t\<rparr>)"

definition ck_shell_execute :: "shell_input \<Rightarrow> string \<Rightarrow> shell \<Rightarrow> shell option" where
  "ck_shell_execute inp cmd s0 =
     (let s = (if ck_strlen cmd > 0 then s0\<lparr>sh_history := ck_history_add cmd (sh_history s0)\<rparr> else s0);
          cmd_name = ck_get_first_word cmd 64;
          cmd_args = ck_get_args cmd 128 in
      if ck_strcmp cmd_name ''help'' = 0 then Some (shell_print help_out s)
      else if ck_strcmp cmd_name ''uptime'' = 0 then Some (shell_print (uptime_out (in_exec inp)) s)
      else if ck_strcmp cmd_name ''echo'' = 0 then Some (shell_print (echo_out cmd_args) s)
      else if ck_strcmp cmd_name ''info'' = 0 then Some (shell_print (info_out (sh_heap s) (sh_sched s)) s)
      else if ck_strcmp cmd_name ''ps'' = 0 then Some (shell_print (ps_out (sh_sched s) (sh_tasks s)) s)
      else if ck_strcmp cmd_name ''history'' = 0 then Some (shell_print (history_out (sh_history s)) s)
      else if ck_strcmp cmd_name ''time'' = 0 then Some (shell_print (time_out (in_exec inp)) s)
      else if ck_strcmp cmd_name ''memory'' = 0 then Some (shell_print (memory_out (sh_heap s)) s)
      else if ck_strcmp cmd_name ''tasks'' = 0 then Some (shell_print (tasks_out (sh_sched s) (sh_tasks s)) s)
      else if ck_strcmp cmd_name ''taskmon'' = 0 then shell_taskmon inp s
      else if ck_strcmp cmd_name ''clear'' = 0 then Some (shell_clear s)
      else if ck_strcmp cmd_name ''reboot'' = 0 then
        Some ((shell_print [Str (ln ''Time to serve this kernel... it's reached peak temp!'') COLOR_RED] s)\<lparr>halted := True\<rparr>)
      else if ck_strlen cmd_name = 0 then Some s
      else Some (shell_print unknown_out s))"

section \<open>The main loop\<close>

definition shell_enter :: "shell_input \<Rightarrow> shell \<Rightarrow> shell option" where
  "shell_enter inp s =
     (let s1 = s\<lparr>input_buffer := (input_buffer s)(input_len s := CHR 0x00), tty := ck_vga_newline (tty s)\<rparr> in
      case ck_shell_execute inp (c_string 256 (input_buffer s1)) s1 of
        None \<Rightarrow> None
      | Some s2 \<Rightarrow>
          if halted s2 then Some s2
          else Some (shell_print [Str ''> '' COLOR_YELLOW] (s2\<lparr>input_len := 0\<rparr>)))"

definition shell_backspace :: "shell \<Rightarrow> shell" where
  "shell_backspace s =
     (if input_len s > 0 then
        let pos = ck_cursor_pos (tty s) - 1
        in s\<lparr>input_len := input_len s - 1,
             tty := ck_vga_update_hw_cursor
               ((tty s)\<lparr>ck_cursor_pos := pos, cells := (cells (tty s))(unat pos := blank)\<rparr>)\<rparr>
      else s)"

definition shell_type :: "char \<Rightarrow> shell \<Rightarrow> shell" where
  "shell_type c s =
     (if input_len s < 256 - 1 then
        s\<lparr>input_buffer := (input_buffer s)(input_len s := c), input_len := input_len s + 1,
          tty := ck_vga_write_char c COLOR_WHITE (tty s)\<rparr>
      else s)"

definition shell_key :: "shell_input \<Rightarrow> u8 \<Rightarrow> shell \<Rightarrow> shell option" where
  "shell_key inp c s =
     (if c = 10 then shell_enter inp s
      else if c = 8 then Some (shell_backspace s)
      else if 32 \<le> c \<and> c < 127 then Some (shell_type (char_of (unat c)) s)
      else Some s)"

text \<open>
  One iteration. The keyboard interrupts of the input are those that arrive before the loop reads the
  keyboard; the tasks and the status line do not look at it.
\<close>

definition shell_iteration :: "shell_input \<Rightarrow> shell \<Rightarrow> shell option" where
  "shell_iteration inp s =
     (if halted s then Some s
      else
        let (t, sch) = ck_scheduler_run_tasks run_entry (sh_tasks s, sh_sched s);
            k = fold (\<lambda>(scancode, tick). keyboard_irq scancode tick) (in_irqs inp) (sh_kbd s);
            s1 = ck_shell_draw_status (in_status inp) (s\<lparr>sh_tasks := t, sh_sched := sch\<rparr>);
            (c, k') = ck_keyboard_read_char (in_read inp) k;
            s2 = s1\<lparr>sh_kbd := k'\<rparr>
        in if c = 0 then Some s2 else shell_key inp c s2)"

definition ck_shell_start :: "u32 \<Rightarrow> shell \<Rightarrow> shell" where
  "ck_shell_start ticks s = shell_home ticks (s\<lparr>input_len := 0\<rparr>)"

inductive shell_step :: "shell \<Rightarrow> shell \<Rightarrow> bool" where
  iterate: "shell_iteration inp s = Some s' \<Longrightarrow> shell_step s s'"

section \<open>The status line shows the time\<close>

lemma status_puts_at:
  "status_puts s (pos, v) =
    (pos + length s, \<lambda>i. if pos \<le> i \<and> i < pos + length s then schar_cell COLOR_YELLOW (s ! (i - pos)) else v i)"
proof (induction s arbitrary: pos v)
  case Nil
  then show ?case by (auto simp: status_puts_def fun_eq_iff)
next
  case (Cons c s)
  have "status_puts (c # s) (pos, v) = status_puts s (pos + 1, v(pos := schar_cell COLOR_YELLOW c))"
    by (simp add: status_puts_def status_put_def)
  then show ?case unfolding Cons.IH by (auto simp: fun_eq_iff nth_Cons')
qed

lemma status_puts_append: "status_puts (xs @ ys) pv = status_puts ys (status_puts xs pv)"
  by (simp add: status_puts_def)

text \<open>The text of the status line: no digit for the seconds during the first second.\<close>

definition status_text :: "u32 \<Rightarrow> string" where
  "status_text ticks = ''Time: '' @ (if ticks div 1000 = 0 then '''' else decimal (unat ticks div 1000)) @ ''.'' @
     low_digits 3 (unat ticks mod 1000) @ ''s''"

lemma unat_div_1000: "unat (ticks div 1000 :: u32) = unat ticks div 1000" and
  unat_mod_1000: "unat (ticks mod 1000 :: u32) = unat ticks mod 1000"
  by (simp_all add: unat_div unat_mod)

lemma draw_status_text:
  "ck_shell_draw_status ticks s =
    (if ticks = last_ticks s then s
     else s\<lparr>last_ticks := ticks, tty := (tty s)\<lparr>cells := snd (status_puts (status_text ticks) (0, ck_vga_clear_line 0 (cells (tty s))))\<rparr>\<rparr>)"
proof -
  let ?ms = "ticks mod 1000 :: u32"
  have d: "[digit_char (unat (?ms div 100 mod 10)), digit_char (unat (?ms div 10 mod 10)), digit_char (unat (?ms mod 10))] =
      low_digits 3 (unat ticks mod 1000)"
    by (simp add: numeral_3_eq_3 unat_mod_10 unat_div_10 unat_mod_1000 unat_div)
  have sec: "status_puts (if ticks div 1000 = 0 then '''' else decimal (unat ticks div 1000)) pv =
      (if ticks div 1000 = 0 then pv else status_puts (rev (number_buf (ticks div 1000))) pv)" for pv
    by (simp add: rev_number_buf unat_div_1000 status_puts_def)
  have dot: "status_puts ''.'' pv = status_put CHR ''.'' pv" for pv by (simp add: status_puts_def)
  show ?thesis
    unfolding status_text_def status_puts_append sec dot d [symmetric]
    by (simp add: ck_shell_draw_status_def Let_def)
qed

lemma length_status_text: "length (status_text ticks) \<le> 21"
  using length_decimal_u32 [of "ticks div 1000"] by (simp add: status_text_def unat_div_1000 numeral_3_eq_3)

lemma draw_status_fields [simp]:
  "ck_cursor_pos (tty (ck_shell_draw_status ticks s)) = ck_cursor_pos (tty s)"
  "ports (tty (ck_shell_draw_status ticks s)) = ports (tty s)"
  "input_buffer (ck_shell_draw_status ticks s) = input_buffer s"
  "input_len (ck_shell_draw_status ticks s) = input_len s"
  "sh_history (ck_shell_draw_status ticks s) = sh_history s"
  "sh_tasks (ck_shell_draw_status ticks s) = sh_tasks s"
  "sh_sched (ck_shell_draw_status ticks s) = sh_sched s"
  "sh_prev_counters (ck_shell_draw_status ticks s) = sh_prev_counters s"
  "sh_kbd (ck_shell_draw_status ticks s) = sh_kbd s"
  "sh_heap (ck_shell_draw_status ticks s) = sh_heap s"
  "halted (ck_shell_draw_status ticks s) = halted s"
  by (simp_all add: draw_status_text)

lemma draw_status_cells:
  "VGA_WIDTH \<le> i \<Longrightarrow> cells (tty (ck_shell_draw_status ticks s)) i = cells (tty s) i"
  "ticks \<noteq> last_ticks s \<Longrightarrow> i < VGA_WIDTH \<Longrightarrow> cells (tty (ck_shell_draw_status ticks s)) i =
     (if i < length (status_text ticks) then schar_cell COLOR_YELLOW (status_text ticks ! i) else blank)"
  using length_status_text [of ticks]
  by (auto simp: draw_status_text status_puts_at clear_line_at div_eq_0_iff)

section \<open>What printing does\<close>

fun out_text :: "out \<Rightarrow> string" where
  "out_text (Str s color) = s"
| "out_text (Num n color) = write_number_text n"

definition outs_newlines :: "out list \<Rightarrow> nat" where
  "outs_newlines os = newlines (concat (map out_text os))"

lemma outs_newlines_simps [simp]:
  "outs_newlines [] = 0"
  "outs_newlines (Str s color # os) = newlines s + outs_newlines os"
  "outs_newlines (Num n color # os) = outs_newlines os"
  "outs_newlines (xs @ ys) = outs_newlines xs + outs_newlines ys"
proof -
  have "newlines (write_number_text n) = 0"
    using digits_no_newline [of "unat n"] by (auto simp: newlines_def write_number_decimal filter_empty_conv)
  then show "outs_newlines (Num n color # os) = outs_newlines os" by (simp add: outs_newlines_def)
qed (simp_all add: outs_newlines_def, simp add: newlines_def)

lemma outs_newlines_concat: "outs_newlines (concat xss) = sum_list (map outs_newlines xss)"
  by (induction xss) simp_all

lemma print_out_string: "\<exists>color. print_out x t = ck_vga_write_string (out_text x) color t"
  by (cases x) (auto simp: write_number_string)

lemma print_outs_Cons: "\<exists>color. print_outs (x # os) t = print_outs os (ck_vga_write_string (out_text x) color t)"
  using print_out_string [of x t] by (simp add: print_outs_def) metis

lemma print_outs_cursor:
  "cursor_in lo n t \<Longrightarrow> n + outs_newlines os \<le> 700 \<Longrightarrow> cursor_in lo (n + outs_newlines os) (print_outs os t)"
proof (induction os arbitrary: n t)
  case Nil
  then show ?case by (simp add: print_outs_def)
next
  case (Cons x os)
  obtain color where e: "print_outs (x # os) t = print_outs os (ck_vga_write_string (out_text x) color t)"
    using print_outs_Cons by blast
  have n: "outs_newlines (x # os) = newlines (out_text x) + outs_newlines os" by (simp add: outs_newlines_def)
  have "cursor_in lo (n + newlines (out_text x)) (ck_vga_write_string (out_text x) color t)"
    using Cons.prems n by (intro write_string_cursor) simp_all
  from Cons.IH [OF this] Cons.prems n show ?case by (simp add: e add.assoc)
qed

lemma print_outs_synced: "cursor_synced t \<Longrightarrow> cursor_synced (print_outs os t)"
proof (induction os arbitrary: t)
  case (Cons x os)
  then show ?case using print_outs_Cons [of x os t] write_string_synced [OF Cons.prems] by metis
qed (simp add: print_outs_def)

lemma print_outs_clipped: "VGA_MEMSIZE \<le> i \<Longrightarrow> cells (print_outs os t) i = cells t i"
proof (induction os arbitrary: t)
  case (Cons x os)
  then show ?case using print_outs_Cons [of x os t] write_string_clipped by metis
qed (simp add: print_outs_def)

lemma newlines_Cons [simp]: "newlines (c # s) = (if c = CHR 0x0A then Suc (newlines s) else newlines s)"
  and newlines_Nil [simp]: "newlines [] = 0"
  by (simp_all add: newlines_def)

lemma history_line_short: "length (history_line h i) \<le> 64"
proof -
  have "length (takeWhile P xs) \<le> length xs" for P and xs :: "char list" by (rule length_takeWhile_le)
  from this [of "\<lambda>c. c \<noteq> CHR 0x00" "map (ck_history h i) [0..<64]"] show ?thesis
    by (simp add: history_line_def c_string_def)
qed

lemma sum_list_bound: "\<forall>x \<in> set xs. f x \<le> k \<Longrightarrow> sum_list (map f xs) \<le> length xs * (k :: nat)"
  by (induction xs) auto

text \<open>No command prints enough newlines to move the cursor far behind the screen.\<close>

lemma command_newlines:
  "outs_newlines help_out \<le> 690" "outs_newlines (uptime_out n) \<le> 690" "outs_newlines (time_out n) \<le> 690"
  "outs_newlines (info_out h s) \<le> 690" "outs_newlines (memory_out h) \<le> 690" "outs_newlines banner_out \<le> 690"
  "outs_newlines unknown_out \<le> 690" "length args \<le> 127 \<Longrightarrow> outs_newlines (echo_out args) \<le> 690"
  "sched_inv s \<Longrightarrow> outs_newlines (ps_out s t) \<le> 690" "sched_inv s \<Longrightarrow> outs_newlines (tasks_out s t) \<le> 690"
  "history_inv hs \<Longrightarrow> outs_newlines (history_out hs) \<le> 690"
proof -
  show "outs_newlines help_out \<le> 690" by (simp add: help_out_def)
  show "outs_newlines (uptime_out n) \<le> 690" by (simp add: uptime_out_def Let_def)
  show "outs_newlines (time_out n) \<le> 690" by (simp add: time_out_def)
  show "outs_newlines (info_out h s) \<le> 690" by (simp add: info_out_def Let_def)
  show "outs_newlines (memory_out h) \<le> 690" by (simp add: memory_out_def Let_def)
  show "outs_newlines banner_out \<le> 690" by (simp add: banner_out_def)
  show "outs_newlines unknown_out \<le> 690" by (simp add: unknown_out_def)
  show "outs_newlines (echo_out args) \<le> 690" if "length args \<le> 127"
    using that newlines_le [of args] by (simp add: echo_out_def)
  have rows: "outs_newlines (concat (map f [0..<unat (ck_scheduler_task_count s)])) \<le> 8"
    if "\<And>i. outs_newlines (f i) \<le> 1" "sched_inv s" for f and s
    using that sum_list_bound [of "map f [0..<unat (ck_scheduler_task_count s)]" outs_newlines 1]
    by (simp add: outs_newlines_concat sched_inv_def ck_scheduler_task_count_def)
  show "outs_newlines (ps_out s t) \<le> 690" if "sched_inv s"
  proof -
    have "outs_newlines (ps_row s t i) \<le> 1" for i by (simp add: ps_row_def split: option.splits)
    from rows [of "ps_row s t", OF this that] show ?thesis by (simp add: ps_out_def)
  qed
  show "outs_newlines (tasks_out s t) \<le> 690" if "sched_inv s"
  proof -
    have "outs_newlines (tasks_row s t i) \<le> 1" for i by (simp add: tasks_row_def split: option.splits)
    from rows [of "tasks_row s t", OF this that] show ?thesis by (simp add: tasks_out_def)
  qed
  show "outs_newlines (history_out hs) \<le> 690" if "history_inv hs"
  proof -
    have "outs_newlines (history_row hs i) \<le> 65" for i
      using newlines_le [of "history_line hs i"] history_line_short [of hs i] by (simp add: history_row_def)
    then have "outs_newlines (concat (map (history_row hs) [0..<ck_history_count hs])) \<le> 650"
      using that sum_list_bound [of "map (history_row hs) [0..<ck_history_count hs]" outs_newlines 65]
      by (simp add: outs_newlines_concat history_inv_def)
    then show ?thesis by (simp add: history_out_def)
  qed
qed

section \<open>The invariant of the shell\<close>

text \<open>
  The components the shell calls are in valid states, and the hardware cursor is where the shell's
  cursor is.
\<close>

definition shell_base :: "shell \<Rightarrow> bool" where
  "shell_base s \<longleftrightarrow> kb_inv (sh_kbd s) \<and> tasks_inv (sh_tasks s) \<and> sched_inv (sh_sched s) \<and>
     history_inv (sh_history s) \<and> cursor_synced (tty s)"

text \<open>A character that can be typed.\<close>

definition typable :: "char \<Rightarrow> bool" where
  "typable c \<longleftrightarrow> 32 \<le> (of_char c :: nat) \<and> (of_char c :: nat) < 127"

text \<open>
  While the user types: the input fits its buffer, the cursor is on the screen behind it, and the cells
  before the cursor show the input.
\<close>

definition line_start :: "shell \<Rightarrow> nat" where
  "line_start s = unat (ck_cursor_pos (tty s)) - input_len s"

definition shell_line :: "shell \<Rightarrow> bool" where
  "shell_line s \<longleftrightarrow> input_len s \<le> 255 \<and> cursor_in (162 + input_len s) 0 (tty s) \<and>
     (\<forall>i < input_len s. typable (input_buffer s i) \<and>
        cells (tty s) (line_start s + i) = vga_cell COLOR_WHITE (input_buffer s i))"

lemma shell_line_bounds:
  assumes "shell_line s"
  shows "unat (ck_cursor_pos (tty s)) = line_start s + input_len s" "162 \<le> line_start s"
    "line_start s + input_len s \<le> VGA_MEMSIZE"
proof -
  have "162 + input_len s \<le> unat (ck_cursor_pos (tty s))" "unat (ck_cursor_pos (tty s)) \<le> VGA_MEMSIZE"
    using assms by (simp_all add: shell_line_def cursor_in_def)
  then show "unat (ck_cursor_pos (tty s)) = line_start s + input_len s" "162 \<le> line_start s"
    "line_start s + input_len s \<le> VGA_MEMSIZE" unfolding line_start_def by linarith+
qed

definition shell_inv :: "shell \<Rightarrow> bool" where
  "shell_inv s \<longleftrightarrow> shell_base s \<and> (\<not> halted s \<longrightarrow> shell_line s)"

lemma cursor_synced_cong: "ports t' = ports t \<Longrightarrow> ck_cursor_pos t' = ck_cursor_pos t \<Longrightarrow> cursor_synced t' = cursor_synced t"
  by (simp add: cursor_synced_def)

lemma draw_status_inv:
  "shell_base s \<Longrightarrow> shell_base (ck_shell_draw_status ticks s)"
  "shell_line s \<Longrightarrow> shell_line (ck_shell_draw_status ticks s)"
proof -
  show "shell_base s \<Longrightarrow> shell_base (ck_shell_draw_status ticks s)"
    by (simp add: shell_base_def cursor_synced_def)
  assume l: "shell_line s"
  then have "162 + input_len s \<le> unat (ck_cursor_pos (tty s))" by (simp add: shell_line_def cursor_in_def)
  then have "VGA_WIDTH \<le> line_start s + i" for i by (simp add: line_start_def)
  moreover have "line_start (ck_shell_draw_status ticks s) = line_start s" by (simp add: line_start_def)
  ultimately show "shell_line (ck_shell_draw_status ticks s)"
    using l by (simp add: shell_line_def cursor_in_def draw_status_cells(1))
qed

lemma shell_base_cong:
  "shell_base s \<Longrightarrow> kb_inv k \<Longrightarrow> tasks_inv t \<Longrightarrow> sched_inv sc \<Longrightarrow>
    shell_base (s\<lparr>sh_tasks := t, sh_sched := sc\<rparr>) \<and> shell_base (s\<lparr>sh_kbd := k\<rparr>)"
  by (simp add: shell_base_def)

lemma shell_print_base: "shell_base s \<Longrightarrow> shell_base (shell_print os s)"
  by (simp add: shell_base_def shell_print_def print_outs_synced)

text \<open>The prompt: after it the cursor is on the screen, two columns into a line at least.\<close>

lemma prompt_line:
  assumes "cursor_in 160 n (tty s)" and "input_len s = 0"
  shows "shell_line (shell_print [Str ''> '' COLOR_YELLOW] s)"
proof -
  have "cursor_in 161 0 (ck_vga_write_char CHR ''>'' COLOR_YELLOW (tty s))"
    using write_char_advances [OF assms(1)] by simp
  from write_char_advances [OF this]
  have "cursor_in 162 0 (ck_vga_write_char CHR '' '' COLOR_YELLOW (ck_vga_write_char CHR ''>'' COLOR_YELLOW (tty s)))"
    by simp
  then show ?thesis using assms(2) by (simp add: shell_line_def shell_print_def print_outs_def)
qed

text \<open>Typing a character, with or without scrolling.\<close>

lemma shell_type_inv:
  assumes "shell_base s" and "shell_line s" and "typable c"
  shows "shell_base (shell_type c s)" and "shell_line (shell_type c s)"
proof -
  show "shell_base (shell_type c s)"
    using assms(1) by (simp add: shell_base_def shell_type_def write_char_synced)
  let ?t = "tty s" and ?n = "input_len s" and ?p = "unat (ck_cursor_pos (tty s))"
  let ?t' = "ck_vga_write_char c COLOR_WHITE ?t"
  show "shell_line (shell_type c s)"
  proof (cases "?n < 255")
    case True
    define b where "b = line_start s"
    have p: "?p = b + ?n" "162 \<le> b" "b + ?n \<le> 2000"
      using shell_line_bounds [OF assms(2)] by (simp_all add: b_def)
    have shown: "cells ?t (b + i) = vga_cell COLOR_WHITE (input_buffer s i)" if "i < ?n" for i
      using assms(2) that by (simp add: shell_line_def b_def)
    have cur: "cursor_in (162 + Suc ?n) 0 ?t'"
      using write_char_advances [of "162 + ?n" 0 ?t] assms(2) True by (simp add: shell_line_def)
    have "cells ?t' (line_start (shell_type c s) + i) = vga_cell COLOR_WHITE (((input_buffer s)(?n := c)) i)"
      if "i \<le> ?n" for i
    proof (cases "?p < 2000")
      case plain: True
      then have "line_start (shell_type c s) = b"
        using True p by (simp add: line_start_def shell_type_def write_char_plain)
      with plain that show ?thesis using p shown [of i] by (auto simp: write_char_plain)
    next
      case False
      then have e: "?p = 2000" "b + ?n = 2000" using p by simp_all
      then have st: "line_start (shell_type c s) = b - 80"
        using True p by (simp add: line_start_def shell_type_def write_char_scroll)
      have "b - 80 + i + 80 = b + i" using p by simp
      with e that show ?thesis
        using p shown [of i] by (auto simp: st write_char_scroll scroll_at)
    qed
    with cur assms(2,3) True show ?thesis
      by (auto simp: shell_line_def shell_type_def less_Suc_eq_le)
  next
    case False
    with assms(2) show ?thesis by (simp add: shell_type_def)
  qed
qed

lemma shell_backspace_inv:
  assumes "shell_base s" and "shell_line s"
  shows "shell_base (shell_backspace s)" and "shell_line (shell_backspace s)"
proof -
  show "shell_base (shell_backspace s)"
    using assms(1) by (simp add: shell_base_def shell_backspace_def Let_def)
  let ?n = "input_len s" and ?p = "unat (ck_cursor_pos (tty s))"
  show "shell_line (shell_backspace s)"
  proof (cases "?n > 0")
    case True
    have p: "162 + ?n \<le> ?p" "?p \<le> 2000" using assms(2) by (simp_all add: shell_line_def cursor_in_def)
    have u: "unat (ck_cursor_pos (tty s) - 1) = ?p - 1"
      using p by (subst unat_sub) (simp_all add: word_le_nat_alt)
    have st: "line_start (shell_backspace s) = line_start s"
      using True p u by (simp add: line_start_def shell_backspace_def Let_def)
    have "line_start s + i \<noteq> ?p - 1" if "i < ?n - 1" for i
      using that p by (simp add: line_start_def)
    then have "cells (tty (shell_backspace s)) (line_start s + i) = vga_cell COLOR_WHITE (input_buffer s i)"
      if "i < ?n - 1" for i
      using that assms(2) True u by (simp add: shell_line_def shell_backspace_def Let_def)
    then show ?thesis
      using assms(2) True p u st by (auto simp: shell_line_def shell_backspace_def Let_def cursor_in_def)
  next
    case False
    with assms(2) show ?thesis by (simp add: shell_backspace_def)
  qed
qed

section \<open>Commands keep the invariant\<close>

text \<open>The state in which a command leaves the shell: halted, or ready for the prompt.\<close>

definition shell_ready :: "shell \<Rightarrow> bool" where
  "shell_ready s \<longleftrightarrow> shell_base s \<and> (halted s \<or> (\<exists>n \<le> 700. cursor_in 160 n (tty s)))"

lemma shell_print_ready:
  assumes "shell_base s" and "cursor_in 160 n (tty s)" and "n \<le> 10" and "outs_newlines os \<le> 690"
  shows "shell_ready (shell_print os s)"
proof -
  have "cursor_in 160 (n + outs_newlines os) (tty (shell_print os s))"
    using assms(2-4) by (simp add: shell_print_def print_outs_cursor)
  then show ?thesis
    using assms shell_print_base [OF assms(1)] by (auto simp: shell_ready_def intro!: exI [of _ "n + outs_newlines os"])
qed

lemma shell_print_clipped: "clipped (cells (tty s)) (cells (tty (shell_print os s)))"
  by (simp add: clipped_def shell_print_def print_outs_clipped)

lemma draw_status_clipped: "clipped (cells (tty s)) (cells (tty (ck_shell_draw_status ticks s)))"
  by (simp add: clipped_def draw_status_cells(1))

text \<open>The start screen, up to the prompt and with it.\<close>

definition home_before_banner :: "u32 \<Rightarrow> shell \<Rightarrow> shell" where
  "home_before_banner ticks s =
     (let s1 = ck_shell_draw_status ticks (s\<lparr>tty := ck_vga_clear_screen (tty s)\<rparr>)
      in s1\<lparr>tty := ck_vga_update_hw_cursor ((tty s1)\<lparr>ck_cursor_pos := 2 * 80\<rparr>)\<rparr>)"

lemma shell_home_eq: "shell_home ticks s = shell_print banner_out (home_before_banner ticks s)"
  by (simp add: shell_home_def home_before_banner_def Let_def)

lemma home_before_banner:
  assumes "kb_inv (sh_kbd s)" and "tasks_inv (sh_tasks s)" and "sched_inv (sh_sched s)" and "history_inv (sh_history s)"
  shows "shell_base (home_before_banner ticks s)" and "cursor_in 160 0 (tty (home_before_banner ticks s))"
    and "clipped (cells (tty s)) (cells (tty (home_before_banner ticks s)))"
    and "input_len (home_before_banner ticks s) = input_len s" and "halted (home_before_banner ticks s) = halted s"
  using assms
  by (simp_all add: home_before_banner_def Let_def shell_base_def cursor_in_def clipped_def
      draw_status_cells(1) clear_screen_at)

lemma shell_home_ready:
  assumes "kb_inv (sh_kbd s)" and "tasks_inv (sh_tasks s)" and "sched_inv (sh_sched s)" and "history_inv (sh_history s)"
  shows "shell_ready (shell_home ticks s)" and "clipped (cells (tty s)) (cells (tty (shell_home ticks s)))"
  using home_before_banner [OF assms, of ticks] command_newlines(6)
  by (auto simp: shell_home_eq intro: shell_print_ready shell_print_clipped clipped_trans)

lemma shell_start_inv:
  assumes "kb_inv (sh_kbd s)" and "tasks_inv (sh_tasks s)" and "sched_inv (sh_sched s)" and "history_inv (sh_history s)"
  shows "shell_inv (ck_shell_start ticks s)"
proof -
  let ?s = "home_before_banner ticks (s\<lparr>input_len := 0\<rparr>)"
  let ?os = "butlast banner_out"
  note h = home_before_banner [of "s\<lparr>input_len := 0\<rparr>" ticks]
  have b: "shell_base ?s" "cursor_in 160 0 (tty ?s)" "input_len ?s = 0" using h assms by simp_all
  have os: "banner_out = ?os @ [Str ''> '' COLOR_YELLOW]" "outs_newlines ?os \<le> 690" by (simp_all add: banner_out_def)
  have "cursor_in 160 (outs_newlines ?os) (tty (shell_print ?os ?s))"
    using print_outs_cursor [OF b(2), of ?os] os(2) by (simp add: shell_print_def)
  from prompt_line [OF this] b(3)
  have "shell_line (shell_print [Str ''> '' COLOR_YELLOW] (shell_print ?os ?s))" by (simp add: shell_print_def)
  moreover have "shell_print [Str ''> '' COLOR_YELLOW] (shell_print ?os ?s) = ck_shell_start ticks s"
    unfolding ck_shell_start_def shell_home_eq by (subst os(1)) (simp add: shell_print_def print_outs_def)
  moreover have "shell_base (ck_shell_start ticks s)"
    unfolding ck_shell_start_def shell_home_eq by (rule shell_print_base [OF b(1)])
  ultimately show ?thesis by (simp add: shell_inv_def)
qed

lemma monitor_runs:
  assumes "shell_base s" and "ck_visualizer_run_monitor inps (monitor_of s) = (e, m')"
  shows "monitor_inv m'" and "clipped (cells (tty s)) (mon_cells m')"
proof -
  have "monitor_inv (monitor_of s)" using assms(1) by (simp add: monitor_inv_def monitor_of_def shell_base_def)
  from run_monitor_inv [OF this assms(2)] show "monitor_inv m'" "clipped (cells (tty s)) (mon_cells m')"
    by (simp_all add: monitor_of_def)
qed

lemma taskmon_notice_inv:
  assumes "shell_base s"
  shows "shell_base (taskmon_notice s)" and "clipped (cells (tty s)) (cells (tty (taskmon_notice s)))"
  unfolding taskmon_notice_def by (rule shell_print_base [OF assms]) (rule shell_print_clipped)

lemma shell_taskmon_ready:
  assumes "shell_base s" and "shell_taskmon inp s = Some s'"
  shows "shell_ready s'" and "clipped (cells (tty s)) (cells (tty s'))"
proof -
  let ?s1 = "taskmon_notice s"
  note b1 = taskmon_notice_inv [OF assms(1)]
  obtain e m' where run: "ck_visualizer_run_monitor (in_monitor inp) (monitor_of ?s1) = (e, m')" by fastforce
  note r = run monitor_runs [OF b1(1) run]
  with assms(2) have e: "e" by (cases e) (simp_all add: shell_taskmon_def)
  let ?s2 = "after_monitor m' ?s1"
  have s': "s' = shell_home (in_status2 inp) ?s2"
    using assms(2) r(1) e by (simp add: shell_taskmon_def)
  have inv: "kb_inv (sh_kbd ?s2)" "tasks_inv (sh_tasks ?s2)" "sched_inv (sh_sched ?s2)" "history_inv (sh_history ?s2)"
    using r(2) b1(1) by (simp_all add: monitor_inv_def shell_base_def after_monitor_def)
  show "shell_ready s'" unfolding s' by (rule shell_home_ready [OF inv])
  have "clipped (cells (tty s)) (cells (tty ?s2))" using clipped_trans [OF b1(2) r(3)] by (simp add: after_monitor_def)
  then show "clipped (cells (tty s)) (cells (tty s'))"
    unfolding s' using shell_home_ready(2) [OF inv] clipped_trans by blast
qed

lemma shell_clear_ready:
  assumes "shell_base s"
  shows "shell_ready (shell_clear s)" and "clipped (cells (tty s)) (cells (tty (shell_clear s)))"
proof -
  let ?t = "(ck_vga_clear_screen (tty s))\<lparr>ck_cursor_pos := 80\<rparr>"
  let ?msg = "''Fresh and crumbly, just like a new kernel!''"
  have "cursor_in VGA_WIDTH 0 ?t" by (simp add: cursor_in_def)
  from write_string_cursor [OF this, of ?msg COLOR_GREEN]
  have "cursor_in VGA_WIDTH 0 (ck_vga_write_string ?msg COLOR_GREEN ?t)" by simp
  from newline_next_row [OF this]
  have "cursor_in 160 1 (ck_vga_newline (ck_vga_write_string ?msg COLOR_GREEN ?t))" by simp
  moreover have tt: "tty (shell_clear s) = ck_vga_newline (ck_vga_write_string ?msg COLOR_GREEN ?t)"
    by (simp only: shell_clear_def Let_def print_outs_def print_out.simps fold.simps id_comp comp_id comp_apply id_apply
        shell.simps write_string_append) (simp add: ck_vga_newline_def)
  moreover have "cursor_synced (tty (shell_clear s))" unfolding tt by (rule newline_fields(3))
  ultimately show "shell_ready (shell_clear s)"
    using assms by (auto simp: shell_ready_def shell_base_def shell_clear_def Let_def intro!: exI [of _ 1])
  show "clipped (cells (tty s)) (cells (tty (shell_clear s)))"
    by (simp add: clipped_def shell_clear_def Let_def print_outs_clipped clear_screen_at)
qed

text \<open>A command only prints, or it is one of \<^verbatim>\<open>taskmon\<close>, \<^verbatim>\<open>clear\<close> and \<^verbatim>\<open>reboot\<close>.\<close>

lemma execute_cases:
  fixes cmd :: string and s0 :: shell
  defines "s \<equiv> (if ck_strlen cmd > 0 then s0\<lparr>sh_history := ck_history_add cmd (sh_history s0)\<rparr> else s0)"
  assumes "shell_base s0" and "ck_shell_execute inp cmd s0 = r"
  obtains (prints) os where "outs_newlines os \<le> 690" "r = Some (shell_print os s)"
  | (taskmon) "ck_strcmp (ck_get_first_word cmd 64) ''taskmon'' = 0" "r = shell_taskmon inp s"
  | (clear) "r = Some (shell_clear s)"
  | (reboot) os where "r = Some ((shell_print os s)\<lparr>halted := True\<rparr>)"
proof -
  have inv: "sched_inv (sh_sched s)" "history_inv (sh_history s)"
    using assms(2) by (auto simp: s_def shell_base_def history_add_inv)
  have args: "length (ck_get_args cmd 128) \<le> 127" by (simp add: args_eq)
  note nls = command_newlines(1-7) command_newlines(8) [OF args] command_newlines(9,10) [OF inv(1)]
    command_newlines(11) [OF inv(2)]
  have nop: "\<exists>os. outs_newlines os \<le> 690 \<and> s = shell_print os s"
    by (intro exI [of _ "[]"]) (simp add: shell_print_def print_outs_def)
  let ?p = "\<lambda>os. outs_newlines os \<le> 690 \<and> r = Some (shell_print os s)"
  have "(\<exists>os. ?p os) \<or> ck_strcmp (ck_get_first_word cmd 64) ''taskmon'' = 0 \<and> r = shell_taskmon inp s \<or>
      r = Some (shell_clear s) \<or> (\<exists>os. r = Some ((shell_print os s)\<lparr>halted := True\<rparr>))"
    using assms(3) nop unfolding ck_shell_execute_def s_def [symmetric] Let_def
    by (auto split: if_split_asm simp del: ck_strlen_length intro: nls)
  then show ?thesis using that by blast
qed

lemma execute_ready:
  assumes "shell_base s0" and "cursor_in 160 n (tty s0)" and "n \<le> 10" and "ck_shell_execute inp cmd s0 = Some s'"
  shows "shell_ready s'" and "clipped (cells (tty s0)) (cells (tty s'))"
proof -
  define s where "s = (if ck_strlen cmd > 0 then s0\<lparr>sh_history := ck_history_add cmd (sh_history s0)\<rparr> else s0)"
  have b: "shell_base s" "cursor_in 160 n (tty s)" "cells (tty s) = cells (tty s0)"
    using assms(1,2) by (auto simp: s_def shell_base_def history_add_inv)
  have "shell_ready s' \<and> clipped (cells (tty s)) (cells (tty s'))"
  proof (cases rule: execute_cases [OF assms(1,4), folded s_def])
    case (1 os)
    then show ?thesis using shell_print_clipped [of s os] shell_print_ready [OF b(1,2) assms(3)] by simp
  next
    case 2
    then show ?thesis using shell_taskmon_ready [OF b(1), of inp s'] by simp
  next
    case 3
    then show ?thesis using shell_clear_ready [OF b(1)] by simp
  next
    case (4 os)
    then have "s' = (shell_print os s)\<lparr>halted := True\<rparr>" by simp
    then show ?thesis
      using shell_print_base [OF b(1), of os] shell_print_clipped [of s os] by (simp add: shell_ready_def shell_base_def)
  qed
  then show "shell_ready s'" "clipped (cells (tty s0)) (cells (tty s'))" using b(3) by simp_all
qed

lemma shell_enter_inv:
  assumes "shell_base s" and "shell_line s" and "shell_enter inp s = Some s'"
  shows "shell_inv s'" and "clipped (cells (tty s)) (cells (tty s'))"
proof -
  let ?s1 = "s\<lparr>input_buffer := (input_buffer s)(input_len s := CHR 0x00), tty := ck_vga_newline (tty s)\<rparr>"
  obtain s2 where e: "ck_shell_execute inp (c_string 256 (input_buffer ?s1)) ?s1 = Some s2"
    using assms(3) by (auto simp: shell_enter_def Let_def split: option.splits)
  have "cursor_in 160 0 (tty s)" using assms(2) by (simp add: shell_line_def cursor_in_def)
  then have c: "cursor_in 160 1 (tty ?s1)" using newline_cursor [of 160 0 "tty s"] by simp
  have b: "shell_base ?s1" using assms(1) by (simp add: shell_base_def newline_fields)
  have r: "shell_ready s2" "clipped (cells (tty s)) (cells (tty s2))"
    using execute_ready [OF b c _ e] by (simp_all add: newline_fields)
  let ?s3 = "s2\<lparr>input_len := 0\<rparr>"
  have b3: "shell_base ?s3" using r(1) by (simp add: shell_ready_def shell_base_def)
  have s': "s' = (if halted s2 then s2 else shell_print [Str ''> '' COLOR_YELLOW] ?s3)"
    using assms(3) e by (simp add: shell_enter_def Let_def split: if_splits)
  show "shell_inv s'"
  proof (cases "halted s2")
    case True
    with r(1) s' show ?thesis by (simp add: shell_inv_def shell_ready_def)
  next
    case False
    then obtain n where "cursor_in 160 n (tty ?s3)" using r(1) by (auto simp: shell_ready_def)
    from prompt_line [OF this] False s' shell_print_base [OF b3] show ?thesis by (simp add: shell_inv_def)
  qed
  show "clipped (cells (tty s)) (cells (tty s'))"
    using r(2) shell_print_clipped [of ?s3 "[Str ''> '' COLOR_YELLOW]"] clipped_trans [OF r(2)] by (simp add: s')
qed

lemma char_typable: "32 \<le> c \<Longrightarrow> c < (127 :: u8) \<Longrightarrow> typable (char_of (unat c))"
  by (simp add: typable_def word_le_nat_alt word_less_nat_alt)

lemma shell_key_inv:
  assumes "shell_base s" and "shell_line s" and "\<not> halted s" and "shell_key inp c s = Some s'"
  shows "shell_inv s' \<and> clipped (cells (tty s)) (cells (tty s'))"
proof -
  have ty: "clipped (cells (tty s)) (cells (tty (shell_type ch s)))" for ch
    by (simp add: clipped_def shell_type_def write_char_clipped)
  have "unat (ck_cursor_pos (tty s)) \<le> 2000" "input_len s \<le> unat (ck_cursor_pos (tty s))"
    using shell_line_bounds [OF assms(2)] by simp_all
  then have "unat (ck_cursor_pos (tty s) - 1) < 2000" if "0 < input_len s"
    using that by (subst unat_sub) (auto simp: word_le_nat_alt)
  then have bs: "clipped (cells (tty s)) (cells (tty (shell_backspace s)))"
    by (auto simp: clipped_def shell_backspace_def Let_def)
  have nh: "halted (shell_type ch s) = halted s" "halted (shell_backspace s) = halted s" for ch
    by (simp_all add: shell_type_def shell_backspace_def Let_def)
  from assms(4) consider "c = 10" "shell_enter inp s = Some s'" | "s' = shell_backspace s"
    | "32 \<le> c" "c < 127" "s' = shell_type (char_of (unat c)) s" | "s' = s"
    by (auto simp: shell_key_def split: if_splits)
  then show ?thesis
  proof cases
    case 1
    with shell_enter_inv [OF assms(1,2), of inp s'] show ?thesis by simp
  next
    case 2
    with shell_backspace_inv [OF assms(1,2)] bs nh show ?thesis by (simp add: shell_inv_def)
  next
    case 3
    with shell_type_inv [OF assms(1,2) char_typable [of c]] ty nh show ?thesis by (simp add: shell_inv_def)
  next
    case 4
    with assms show ?thesis by (simp add: shell_inv_def clipped_refl)
  qed
qed

text \<open>The part of an iteration before the key is handled.\<close>

lemma iteration_prefix:
  fixes s :: shell and inp :: shell_input
  assumes "shell_inv s" and "\<not> halted s"
  obtains c s2 where "shell_base s2" "shell_line s2" "\<not> halted s2" "input_buffer s2 = input_buffer s"
    "input_len s2 = input_len s" "sh_history s2 = sh_history s" "sh_heap s2 = sh_heap s" "clipped (cells (tty s)) (cells (tty s2))"
    "c = fst (ck_keyboard_read_char (in_read inp) (fold (\<lambda>(scancode, tick). keyboard_irq scancode tick) (in_irqs inp) (sh_kbd s)))"
    "sh_kbd s2 = snd (ck_keyboard_read_char (in_read inp) (fold (\<lambda>(scancode, tick). keyboard_irq scancode tick) (in_irqs inp) (sh_kbd s)))"
    "(sh_tasks s2, sh_sched s2) = ck_scheduler_run_tasks run_entry (sh_tasks s, sh_sched s)"
    "sh_prev_counters s2 = sh_prev_counters s"
    "shell_iteration inp s = (if c = 0 then Some s2 else shell_key inp c s2)"
proof -
  have b: "shell_base s" "shell_line s" using assms by (simp_all add: shell_inv_def)
  obtain t sch where w: "ck_scheduler_run_tasks run_entry (sh_tasks s, sh_sched s) = (t, sch)" by fastforce
  have ts: "tasks_inv t" "sched_inv sch"
    using b(1) run_tasks_inv [of "sh_sched s" "sh_tasks s"] tf.run_tasks_round(1) [of "sh_sched s" "sh_tasks s"] w
    by (simp_all add: shell_base_def)
  let ?k = "fold (\<lambda>(scancode, tick). keyboard_irq scancode tick) (in_irqs inp) (sh_kbd s)"
  obtain c k' where rc: "ck_keyboard_read_char (in_read inp) ?k = (c, k')" by fastforce
  have k: "kb_inv k'"
    using read_char_inv [of ?k "in_read inp"] keyboard_irqs_inv [of "sh_kbd s"] b(1) rc by (simp add: shell_base_def)
  let ?s0 = "s\<lparr>sh_tasks := t, sh_sched := sch\<rparr>"
  let ?s2 = "(ck_shell_draw_status (in_status inp) ?s0)\<lparr>sh_kbd := k'\<rparr>"
  have "shell_base ?s0" using b(1) ts by (simp add: shell_base_def)
  then have "shell_base ?s2" using k draw_status_inv(1) [of ?s0 "in_status inp"] by (simp add: shell_base_def)
  moreover have "shell_line ?s0" using b(2) by (simp add: shell_line_def line_start_def)
  then have "shell_line ?s2" using draw_status_inv(2) [of ?s0 "in_status inp"]
    by (simp add: shell_line_def line_start_def)
  moreover have "clipped (cells (tty s)) (cells (tty ?s2))"
    using draw_status_clipped [of ?s0 "in_status inp"] by simp
  moreover have "shell_iteration inp s = (if c = 0 then Some ?s2 else shell_key inp c ?s2)"
    using assms(2) w rc by (simp add: shell_iteration_def Let_def)
  ultimately show ?thesis using that [of ?s2 c] assms(2) rc w by simp
qed

lemma shell_iteration_inv:
  assumes "shell_inv s" and "shell_iteration inp s = Some s'"
  shows "shell_inv s' \<and> clipped (cells (tty s)) (cells (tty s'))"
proof (cases "halted s")
  case True
  with assms show ?thesis by (simp add: shell_iteration_def clipped_refl)
next
  case False
  obtain c s2 where p: "shell_base s2" "shell_line s2" "\<not> halted s2" "clipped (cells (tty s)) (cells (tty s2))"
    "shell_iteration inp s = (if c = 0 then Some s2 else shell_key inp c s2)"
    by (rule iteration_prefix [OF assms(1) False, of inp]) blast
  show ?thesis
  proof (cases "c = 0")
    case True
    with p assms(2) show ?thesis by (simp add: shell_inv_def)
  next
    case False
    with p assms(2) have "shell_key inp c s2 = Some s'" by simp
    from shell_key_inv [OF p(1-3) this] p(4) clipped_trans show ?thesis by blast
  qed
qed

inductive_cases shell_stepE: "shell_step s s'"

lemma shell_reachable_inv:
  assumes "shell_step\<^sup>*\<^sup>* s s'" and "shell_inv s"
  shows "shell_inv s' \<and> clipped (cells (tty s)) (cells (tty s'))"
  using assms
proof (induction rule: rtranclp_induct)
  case base
  then show ?case by (simp add: clipped_refl)
next
  case (step t u)
  then have t: "shell_inv t" "clipped (cells (tty s)) (cells (tty t))" by simp_all
  from step.hyps(2) obtain inp where "shell_iteration inp t = Some u" by (auto elim: shell_stepE)
  from shell_iteration_inv [OF t(1) this] t(2) clipped_trans show ?case by blast
qed

text \<open>The command line: what has been typed so far.\<close>

definition command_line :: "shell \<Rightarrow> string" where
  "command_line s = map (input_buffer s) [0..<input_len s]"

lemma typable_nonzero: "typable c \<Longrightarrow> CHR 0x00 \<noteq> c"
  by (auto simp: typable_def)

lemma command_line_string:
  assumes "shell_line s"
  shows "c_string 256 ((input_buffer s)(input_len s := CHR 0x00)) = command_line s"
  using assms
  by (intro c_string_eq) (auto simp: command_line_def nul_free_def shell_line_def typable_nonzero)

section \<open>Line editing\<close>

text \<open>
  The abstract line editor: a character is appended while there is room, a backspace removes the last
  one. Every key but Enter does to the command line what it does here.
\<close>

definition edit_line :: "u8 \<Rightarrow> string \<Rightarrow> string" where
  "edit_line c l =
     (if c = 8 then butlast l
      else if 32 \<le> c \<and> c < 127 \<and> length l < 255 then l @ [char_of (unat c)] else l)"

definition key_effect :: "u8 \<Rightarrow> shell \<Rightarrow> shell" where
  "key_effect c s =
     (if c = 8 then shell_backspace s
      else if 32 \<le> c \<and> c < 127 then shell_type (char_of (unat c)) s else s)"

lemma shell_key_effect: "c \<noteq> 10 \<Longrightarrow> shell_key inp c s = Some (key_effect c s)"
  by (simp add: shell_key_def key_effect_def)

lemma length_command_line [simp]: "length (command_line s) = input_len s"
  by (simp add: command_line_def)

lemma key_effect_line: "command_line (key_effect c s) = edit_line c (command_line s)"
proof -
  have "command_line (shell_backspace s) = butlast (command_line s)"
    by (cases "input_len s") (simp_all add: command_line_def shell_backspace_def Let_def)
  moreover have "command_line (shell_type ch s) = (if input_len s < 255 then command_line s @ [ch] else command_line s)" for ch
    by (simp add: command_line_def shell_type_def)
  ultimately show ?thesis by (simp add: key_effect_def edit_line_def)
qed

lemma key_effect_inv:
  "shell_base s \<Longrightarrow> shell_line s \<Longrightarrow> shell_base (key_effect c s) \<and> shell_line (key_effect c s)"
  using shell_type_inv [of s "char_of (unat c)"] shell_backspace_inv [of s]
  by (simp add: key_effect_def char_typable)

lemma key_effect_fields [simp]:
  "sh_kbd (key_effect c s) = sh_kbd s" "halted (key_effect c s) = halted s" "sh_history (key_effect c s) = sh_history s"
  "sh_heap (key_effect c s) = sh_heap s"
  by (simp_all add: key_effect_def shell_type_def shell_backspace_def Let_def)

lemma command_line_nul_free: "shell_line s \<Longrightarrow> nul_free (command_line s)"
  by (auto simp: command_line_def nul_free_def shell_line_def typable_nonzero)

lemma shell_print_fields [simp]:
  "sh_history (shell_print os s) = sh_history s" "sh_kbd (shell_print os s) = sh_kbd s"
  "halted (shell_print os s) = halted s" "input_len (shell_print os s) = input_len s"
  "tty (shell_print os s) = print_outs os (tty s)"
  by (simp_all add: shell_print_def)

text \<open>A command other than \<^verbatim>\<open>taskmon\<close> completes; it is recorded in the history, and only \<^verbatim>\<open>reboot\<close> halts.\<close>

lemma execute_outcome:
  assumes "nul_free cmd" and "ck_get_first_word cmd 64 \<noteq> ''taskmon''"
  obtains s' where "ck_shell_execute inp cmd s = Some s'"
    "sh_history s' = (if cmd = [] then sh_history s else ck_history_add cmd (sh_history s))"
    "sh_kbd s' = sh_kbd s" "halted s' \<longleftrightarrow> halted s \<or> ck_get_first_word cmd 64 = ''reboot''"
proof -
  let ?w = "ck_get_first_word cmd 64"
  have cmp: "ck_strcmp ?w x = 0 \<longleftrightarrow> ?w = x" if "nul_free x" for x
    using ck_strcmp_eq_0 [OF nul_free_parts(1) [OF assms(1)] that] .
  let ?r = "ck_shell_execute inp cmd s"
  note e = ck_shell_execute_def [of inp cmd s] Let_def cmp nul_free_def
  have "?r \<noteq> None" using assms(2) by (simp add: e)
  then obtain s' where r: "?r = Some s'" by blast
  then have "sh_history s' = (if cmd = [] then sh_history s else ck_history_add cmd (sh_history s)) \<and>
      sh_kbd s' = sh_kbd s \<and> (halted s' \<longleftrightarrow> halted s \<or> ?w = ''reboot'')"
    using assms(2) by (simp add: e shell_clear_def split: if_splits) (auto simp: shell_clear_def Let_def)
  with r that show ?thesis by blast
qed

lemma start_command_line: "command_line (ck_shell_start ticks s) = []"
  by (simp add: command_line_def ck_shell_start_def shell_home_def shell_print_def Let_def)

text \<open>The command \<^verbatim>\<open>taskmon\<close> is not done only while the monitor it has started is not left.\<close>

lemma shell_taskmon_pending:
  "shell_taskmon inp s = None \<longleftrightarrow> \<not> fst (ck_visualizer_run_monitor (in_monitor inp) (monitor_of (taskmon_notice s)))"
  by (auto simp: shell_taskmon_def Let_def split: prod.splits bool.splits)

text \<open>
  The command \<^verbatim>\<open>taskmon\<close> starts the monitor on the shell's own tasks, keyboard and counters, and leaves
  the history and the shell's run state alone.
\<close>

lemma execute_taskmon:
  assumes "nul_free cmd" and "ck_get_first_word cmd 64 = ''taskmon''"
  shows "ck_shell_execute inp cmd s = shell_taskmon inp (s\<lparr>sh_history := ck_history_add cmd (sh_history s)\<rparr>)"
proof -
  have "cmd \<noteq> []" using assms(2) by (auto simp: first_word_eq)
  define w where "w = ck_get_first_word cmd 64"
  have cmp: "ck_strcmp w x = 0 \<longleftrightarrow> w = x" if "nul_free x" for x
    unfolding w_def using ck_strcmp_eq_0 [OF nul_free_parts(1) [OF assms(1)] that] .
  have w: "(w = ''taskmon'') = True" "w \<noteq> ''help''" "w \<noteq> ''uptime''" "w \<noteq> ''echo''" "w \<noteq> ''info''"
    "w \<noteq> ''ps''" "w \<noteq> ''history''" "w \<noteq> ''time''" "w \<noteq> ''memory''" "w \<noteq> ''tasks''"
    by (simp_all add: w_def assms(2))
  show ?thesis
    using \<open>cmd \<noteq> []\<close> by (simp add: ck_shell_execute_def Let_def cmp w nul_free_def flip: w_def)
qed

lemma shell_taskmon_fields:
  assumes "shell_taskmon inp s = Some s'"
  shows "sh_history s' = sh_history s" "halted s' = halted s"
  using assms
  by (auto simp: shell_taskmon_def shell_home_def after_monitor_def taskmon_notice_def Let_def
      split: prod.splits bool.splits)

lemma monitor_of_notice:
  "mon_tasks (monitor_of (taskmon_notice s)) = sh_tasks s" "mon_sched (monitor_of (taskmon_notice s)) = sh_sched s"
  "mon_kbd (monitor_of (taskmon_notice s)) = sh_kbd s"
  "prev_counters (monitor_of (taskmon_notice s)) = sh_prev_counters s"
  "last_draw (monitor_of (taskmon_notice s)) = 0" "\<not> exit_requested (monitor_of (taskmon_notice s))"
  by (simp_all add: monitor_of_def taskmon_notice_def shell_print_def)

text \<open>Enter: the line is recorded and executed; only \<^verbatim>\<open>taskmon\<close> can take longer than the iteration.\<close>

lemma enter_outcome:
  fixes s :: shell
  assumes "shell_base s" "shell_line s" "\<not> halted s"
  defines "word \<equiv> ck_get_first_word (command_line s) 64"
  obtains m where "mon_tasks m = sh_tasks s" "mon_sched m = sh_sched s" "mon_kbd m = sh_kbd s"
    "prev_counters m = sh_prev_counters s" "last_draw m = 0" "\<not> exit_requested m"
    "shell_enter inp s = None \<longleftrightarrow>
       word = ''taskmon'' \<and> \<not> fst (ck_visualizer_run_monitor (in_monitor inp) m)"
    "\<And>s'. shell_enter inp s = Some s' \<Longrightarrow> sh_history s' =
         (if command_line s = [] then sh_history s else ck_history_add (command_line s) (sh_history s)) \<and>
       (halted s' \<longleftrightarrow> word = ''reboot'') \<and> (\<not> halted s' \<longrightarrow> command_line s' = [])"
proof -
  let ?s1 = "s\<lparr>input_buffer := (input_buffer s)(input_len s := CHR 0x00), tty := ck_vga_newline (tty s)\<rparr>"
  let ?s2 = "?s1\<lparr>sh_history := ck_history_add (command_line s) (sh_history s)\<rparr>"
  let ?h = "if command_line s = [] then sh_history s else ck_history_add (command_line s) (sh_history s)"
  let ?e = "ck_shell_execute inp (command_line s) ?s1"
  have nf: "nul_free (command_line s)" by (rule command_line_nul_free [OF assms(2)])
  have enter: "shell_enter inp s = (case ?e of None \<Rightarrow> None | Some t \<Rightarrow>
      if halted t then Some t else Some (shell_print [Str ''> '' COLOR_YELLOW] (t\<lparr>input_len := 0\<rparr>)))"
    using command_line_string [OF assms(2)] by (simp add: shell_enter_def Let_def)
  have exec: "(?e = None \<longleftrightarrow> word = ''taskmon'' \<and>
        \<not> fst (ck_visualizer_run_monitor (in_monitor inp) (monitor_of (taskmon_notice ?s2)))) \<and>
      (\<forall>t. ?e = Some t \<longrightarrow> sh_history t = ?h \<and> (halted t \<longleftrightarrow> word = ''reboot''))"
  proof (cases "word = ''taskmon''")
    case True
    then have "command_line s \<noteq> []" by (auto simp: word_def first_word_eq)
    moreover have e: "?e = shell_taskmon inp ?s2"
      using execute_taskmon [OF nf, of inp ?s1] True by (simp add: word_def)
    ultimately show ?thesis
      using True assms(3) shell_taskmon_pending [of inp ?s2] shell_taskmon_fields [of inp ?s2] by auto
  next
    case False
    then have w: "ck_get_first_word (command_line s) 64 \<noteq> ''taskmon''" by (simp add: word_def)
    obtain t where "?e = Some t" "sh_history t = ?h" "halted t \<longleftrightarrow> word = ''reboot''"
      by (rule execute_outcome [OF nf w, of inp ?s1]) (use assms(3) in \<open>simp add: word_def\<close>)
    with False show ?thesis by simp
  qed
  show ?thesis
  proof (rule that [of "monitor_of (taskmon_notice ?s2)"])
    show "shell_enter inp s = None \<longleftrightarrow> word = ''taskmon'' \<and>
        \<not> fst (ck_visualizer_run_monitor (in_monitor inp) (monitor_of (taskmon_notice ?s2)))"
    proof -
      have "shell_enter inp s = None \<longleftrightarrow> ?e = None" by (simp add: enter split: option.split)
      from this conjunct1 [OF exec] show ?thesis by (rule trans)
    qed
  next
    fix s'
    assume "shell_enter inp s = Some s'"
    then obtain t where "?e = Some t" and
      s': "s' = (if halted t then t else shell_print [Str ''> '' COLOR_YELLOW] (t\<lparr>input_len := 0\<rparr>))"
      by (auto simp: enter split: option.splits if_splits)
    with exec show "sh_history s' = ?h \<and> (halted s' \<longleftrightarrow> word = ''reboot'') \<and>
        (\<not> halted s' \<longrightarrow> command_line s' = [])"
      by (auto simp: command_line_def)
  qed (simp_all add: monitor_of_notice)
qed

section \<open>Properties\<close>

text \<open>A shell at the end of the boot sequence, for the witnesses.\<close>

definition sample_shell :: shell where
  "sample_shell = \<lparr>tty = \<lparr>cells = (\<lambda>_. 0), ports = [], ck_cursor_pos = 0\<rparr>, sh_history = history_static,
     last_ticks = 0, input_buffer = (\<lambda>_. CHR 0x00), input_len = 0, sh_tasks = tasks_static,
     sh_sched = sample_scheduler, sh_kbd = keyboard_static, sh_heap = fresh_heap,
     sh_prev_counters = (\<lambda>_. 0), halted = False\<rparr>"

lemma sample_shell_ok:
  "kb_inv (sh_kbd sample_shell)" "tasks_inv (sh_tasks sample_shell)" "sched_inv (sh_sched sample_shell)"
  "history_inv (sh_history sample_shell)"
  by (simp_all add: sample_shell_def keyboard_static_queue tasks_static_inv sample_scheduler_inv
      history_static_def history_inv_def)

text \<open>
  C4: what you see is what you run. Whatever keys arrive and whenever, whatever commands were executed
  before (scrolling, clearing and the task monitor included): while the shell waits for input, the cells
  before the cursor show, in white and in order, exactly the string that Enter would execute; that string
  has at most 255 characters; the cursor is on the screen, never on the status line, and the hardware
  cursor is at the same place; and no cell behind the 2000 cells of the screen has ever been written.
\<close>

theorem shell_shows_command_line:
  assumes "kb_inv (sh_kbd s0)" and "tasks_inv (sh_tasks s0)" and "sched_inv (sh_sched s0)" and "history_inv (sh_history s0)"
    and "shell_step\<^sup>*\<^sup>* (ck_shell_start ticks s0) s" and "\<not> halted s"
  shows "\<exists>line. c_string 256 ((input_buffer s)(input_len s := CHR 0x00)) = line \<and> length line = input_len s \<and>
    length line \<le> 255 \<and> 162 + length line \<le> unat (ck_cursor_pos (tty s)) \<and>
    unat (ck_cursor_pos (tty s)) \<le> VGA_MEMSIZE \<and>
    (\<forall>i < length line. cells (tty s) (unat (ck_cursor_pos (tty s)) - length line + i) = vga_cell COLOR_WHITE (line ! i)) \<and>
    hw_cursor (ports (tty s)) = ck_cursor_pos (tty s) \<and>
    (\<forall>i \<ge> VGA_MEMSIZE. cells (tty s) i = cells (tty (ck_shell_start ticks s0)) i)"
proof -
  have st: "shell_inv (ck_shell_start ticks s0)" using assms(1-4) by (rule shell_start_inv)
  from shell_reachable_inv [OF assms(5) st] assms(6)
  have b: "shell_base s" and l: "shell_line s" and c: "clipped (cells (tty (ck_shell_start ticks s0))) (cells (tty s))"
    by (simp_all add: shell_inv_def)
  have p: "162 + input_len s \<le> unat (ck_cursor_pos (tty s))" "unat (ck_cursor_pos (tty s)) \<le> VGA_MEMSIZE"
    using l by (simp_all add: shell_line_def cursor_in_def)
  show ?thesis
    using b c l p command_line_string [OF l]
    by (intro exI [of _ "command_line s"])
      (simp add: shell_base_def cursor_synced_def clipped_def shell_line_def line_start_def command_line_def)
qed

lemma shell_start_not_halted: "\<not> halted s \<Longrightarrow> \<not> halted (ck_shell_start ticks s)"
  by (simp add: ck_shell_start_def shell_home_def shell_print_def Let_def)

theorem shell_shows_command_line_witness:
  "hw_cursor (ports (tty (ck_shell_start 5 sample_shell))) = ck_cursor_pos (tty (ck_shell_start 5 sample_shell))"
proof -
  have "\<not> halted (ck_shell_start 5 sample_shell)" by (intro shell_start_not_halted) (simp add: sample_shell_def)
  from shell_shows_command_line [OF sample_shell_ok rtranclp.rtrancl_refl this] show ?thesis by blast
qed

text \<open>
  Line editing refines a list. In every state in which the shell waits for input, a key other than
  Enter changes the command line exactly as the abstract editor does (append while shorter than 255,
  remove the last on backspace, ignore everything else); so after any sequence of such keys the command
  line is what the editor makes of it, and typing a printable character and deleting it gives the same
  line back.
\<close>

theorem shell_line_editing:
  assumes "shell_base s" and "shell_line s" and "\<forall>c \<in> set cs. c \<noteq> 10"
  shows "fold (\<lambda>c r. Option.bind r (shell_key inp c)) cs (Some s) = Some (fold key_effect cs s) \<and>
    command_line (fold key_effect cs s) = fold edit_line cs (command_line s) \<and>
    (32 \<le> c \<and> c < 127 \<and> length (command_line s) < 255 \<longrightarrow> edit_line 8 (edit_line c (command_line s)) = command_line s)"
proof -
  have "fold (\<lambda>c r. Option.bind r (shell_key inp c)) cs (Some s) = Some (fold key_effect cs s)"
    using assms(3) by (induction cs arbitrary: s) (simp_all add: shell_key_effect)
  moreover have "command_line (fold key_effect cs s) = fold edit_line cs (command_line s)"
    by (induction cs arbitrary: s) (simp_all add: key_effect_line)
  moreover have "edit_line 8 (edit_line c (command_line s)) = command_line s"
    if "32 \<le> c" "c < 127" "length (command_line s) < 255"
  proof -
    have "c \<noteq> 8" using that(1) by auto
    with that show ?thesis by (simp add: edit_line_def)
  qed
  ultimately show ?thesis by blast
qed

theorem shell_line_editing_witness:
  "command_line (fold key_effect [0x68, 0x70, 8, 0x69] (ck_shell_start 5 sample_shell)) = ''hi''"
proof -
  have inv: "shell_inv (ck_shell_start 5 sample_shell)" by (rule shell_start_inv [OF sample_shell_ok])
  have "\<not> halted (ck_shell_start 5 sample_shell)" by (intro shell_start_not_halted) (simp add: sample_shell_def)
  with inv have b: "shell_base (ck_shell_start 5 sample_shell)" "shell_line (ck_shell_start 5 sample_shell)"
    by (simp_all add: shell_inv_def)
  have "command_line (ck_shell_start 5 sample_shell) = []" by (rule start_command_line)
  moreover have "fold edit_line [0x68, 0x70, 8, 0x69] [] = ''hi''" by code_simp
  ultimately show ?thesis
    using shell_line_editing [OF b, of "[0x68, 0x70, 8, 0x69]"] by simp
qed

text \<open>
  C15: one iteration of the shell's main loop, for every state that satisfies the invariant, every
  input and every key. It does not return exactly when the key read is Enter, the first word of the
  line is \<^verbatim>\<open>taskmon\<close> and the monitor, started on the shell's tasks and scheduler after this iteration's
  round, on its keyboard after this read and on its counters, is not left. In every other case it
  returns and the invariant holds again: a key other than Enter edits the line as the abstract editor
  does and touches nothing of the history; Enter records a line that is not empty, halts exactly
  for \<^verbatim>\<open>reboot\<close>, and otherwise starts an empty line.
\<close>

theorem shell_iteration_completes:
  fixes s :: shell and inp :: shell_input
  assumes "shell_inv s" and "\<not> halted s"
  defines "r \<equiv> ck_keyboard_read_char (in_read inp)
      (fold (\<lambda>(scancode, tick). keyboard_irq scancode tick) (in_irqs inp) (sh_kbd s))"
    and "word \<equiv> take 63 (takeWhile (\<lambda>c. c \<noteq> CHR '' '') (command_line s))"
  shows "\<exists>m. (mon_tasks m, mon_sched m) = ck_scheduler_run_tasks run_entry (sh_tasks s, sh_sched s) \<and>
      mon_kbd m = snd r \<and> prev_counters m = sh_prev_counters s \<and> last_draw m = 0 \<and> \<not> exit_requested m \<and>
      (shell_iteration inp s = None \<longleftrightarrow>
        fst r = 10 \<and> word = ''taskmon'' \<and> \<not> fst (ck_visualizer_run_monitor (in_monitor inp) m)) \<and>
      (\<forall>s'. shell_iteration inp s = Some s' \<longrightarrow> shell_inv s' \<and>
        (if fst r = 10
         then sh_history s' = (if command_line s = [] then sh_history s
                else ck_history_add (command_line s) (sh_history s)) \<and>
           (halted s' \<longleftrightarrow> word = ''reboot'') \<and> (\<not> halted s' \<longrightarrow> command_line s' = [])
         else command_line s' = edit_line (fst r) (command_line s) \<and>
           sh_history s' = sh_history s \<and> \<not> halted s'))"
proof -
  obtain s2 where p: "shell_base s2" "shell_line s2" "\<not> halted s2" "input_buffer s2 = input_buffer s"
    "input_len s2 = input_len s" "sh_history s2 = sh_history s" "sh_kbd s2 = snd r"
    "(sh_tasks s2, sh_sched s2) = ck_scheduler_run_tasks run_entry (sh_tasks s, sh_sched s)"
    "sh_prev_counters s2 = sh_prev_counters s"
    and it: "shell_iteration inp s = (if fst r = 0 then Some s2 else shell_key inp (fst r) s2)"
    unfolding r_def by (rule iteration_prefix [OF assms(1,2), of inp]) blast
  have line: "command_line s2 = command_line s" using p(4,5) by (simp add: command_line_def)
  have w: "ck_get_first_word (command_line s) 64 = word" by (simp add: word_def first_word_eq)
  obtain m where m: "mon_tasks m = sh_tasks s2" "mon_sched m = sh_sched s2" "mon_kbd m = sh_kbd s2"
    "prev_counters m = sh_prev_counters s2" "last_draw m = 0" "\<not> exit_requested m"
    and none: "shell_enter inp s2 = None \<longleftrightarrow>
       word = ''taskmon'' \<and> \<not> fst (ck_visualizer_run_monitor (in_monitor inp) m)"
    and some: "\<And>s'. shell_enter inp s2 = Some s' \<Longrightarrow> sh_history s' =
         (if command_line s = [] then sh_history s else ck_history_add (command_line s) (sh_history s)) \<and>
       (halted s' \<longleftrightarrow> word = ''reboot'') \<and> (\<not> halted s' \<longrightarrow> command_line s' = [])"
    by (rule enter_outcome [OF p(1-3), of inp, unfolded line w p(6)]) (rule that; assumption)
  have key: "shell_iteration inp s = (if fst r = 10 then shell_enter inp s2 else Some (key_effect (fst r) s2))"
    using it shell_key_effect [of "fst r" inp s2] by (auto simp: shell_key_def key_effect_def)
  show ?thesis
  proof (intro exI [of _ m] conjI allI impI)
    show "shell_inv s'" if "shell_iteration inp s = Some s'" for s'
      using shell_iteration_inv [OF assms(1) that] by simp
    show "if fst r = 10
        then sh_history s' = (if command_line s = [] then sh_history s
               else ck_history_add (command_line s) (sh_history s)) \<and>
          (halted s' \<longleftrightarrow> word = ''reboot'') \<and> (\<not> halted s' \<longrightarrow> command_line s' = [])
        else command_line s' = edit_line (fst r) (command_line s) \<and>
          sh_history s' = sh_history s \<and> \<not> halted s'" if "shell_iteration inp s = Some s'" for s'
    proof (cases "fst r = 10")
      case True
      with that key some show ?thesis by simp
    next
      case False
      with that key have "s' = key_effect (fst r) s2" by simp
      with False p(3,6) show ?thesis by (simp add: key_effect_line line)
    qed
  qed (use m p none key in auto)
qed

theorem shell_iteration_completes_witness:
  "\<exists>s'. shell_iteration \<lparr>in_irqs = [(0x23, 7)], in_status = 8, in_read = 8, in_exec = 8, in_status2 = 8, in_monitor = []\<rparr>
     (ck_shell_start 5 sample_shell) = Some s' \<and> shell_inv s' \<and> \<not> halted s' \<and> command_line s' = ''h''"
proof -
  let ?s = "ck_shell_start 5 sample_shell"
  let ?inp = "\<lparr>in_irqs = [(0x23, 7)], in_status = 8, in_read = 8, in_exec = 8, in_status2 = 8, in_monitor = []\<rparr>"
  have inv: "shell_inv ?s" by (rule shell_start_inv [OF sample_shell_ok])
  have nh: "\<not> halted ?s" by (intro shell_start_not_halted) (simp add: sample_shell_def)
  have l: "command_line ?s = []" by (simp add: start_command_line)
  have "sh_kbd ?s = keyboard_static"
    by (simp add: ck_shell_start_def shell_home_def Let_def sample_shell_def)
  moreover have "fst (ck_keyboard_read_char 8 (keyboard_irq 0x23 7 keyboard_static)) = 0x68" by code_simp
  ultimately have k: "fst (ck_keyboard_read_char 8 (keyboard_irq 0x23 7 (sh_kbd ?s))) = 0x68" by simp
  have "edit_line 0x68 [] = ''h''" by code_simp
  then show ?thesis
    using shell_iteration_completes [OF inv nh, of ?inp] k l by (cases "shell_iteration ?inp ?s") auto
qed

text \<open>
  C31: the status line. At a new tick it shows the seconds and the milliseconds, three digits, on the
  first row, which is otherwise blank, and no other row changes; at an old tick nothing changes. During
  the first second the digit before the point is missing.
\<close>

theorem status_line_shows_time:
  assumes "ticks \<noteq> last_ticks s" and "i < VGA_WIDTH"
  shows "cells (tty (ck_shell_draw_status ticks s)) i =
      (if i < length (status_text ticks) then schar_cell COLOR_YELLOW (status_text ticks ! i) else blank) \<and>
    (\<forall>j \<ge> VGA_WIDTH. cells (tty (ck_shell_draw_status ticks s)) j = cells (tty s) j) \<and>
    ck_shell_draw_status ticks (ck_shell_draw_status ticks s) = ck_shell_draw_status ticks s \<and>
    (1000 \<le> unat ticks \<longrightarrow> status_text ticks = ''Time: '' @ decimal (unat ticks div 1000) @ ''.'' @
       low_digits 3 (unat ticks mod 1000) @ ''s'') \<and>
    status_text 7 = ''Time: .007s''"
proof -
  have "status_text 7 = ''Time: .007s''" by code_simp
  moreover
  have "ticks div 1000 \<noteq> 0" if "1000 \<le> unat ticks"
  proof -
    have "1 \<le> unat ticks div 1000" using that by (simp add: less_eq_div_iff_mult_less_eq)
    then show ?thesis by (metis not_one_le_zero unat_0 unat_div_1000)
  qed
  then have "1000 \<le> unat ticks \<longrightarrow> status_text ticks = ''Time: '' @ decimal (unat ticks div 1000) @ ''.'' @
       low_digits 3 (unat ticks mod 1000) @ ''s''" by (simp add: status_text_def)
  moreover have "ck_shell_draw_status ticks (ck_shell_draw_status ticks s) = ck_shell_draw_status ticks s"
    by (simp add: draw_status_text)
  moreover have "\<forall>j \<ge> VGA_WIDTH. cells (tty (ck_shell_draw_status ticks s)) j = cells (tty s) j"
    using draw_status_cells(1) by blast
  ultimately show ?thesis using draw_status_cells(2) [OF assms] by blast
qed

theorem status_line_shows_time_witness:
  "cells (tty (ck_shell_draw_status 61042 sample_shell)) 6 = schar_cell COLOR_YELLOW CHR ''6''"
proof -
  have "(61042 :: u32) div 1000 \<noteq> 0" by simp
  moreover have "decimal 61 = ''61''" "low_digits 3 42 = ''042''" by code_simp+
  ultimately have t: "status_text 61042 = ''Time: 61.042s''" by (simp add: status_text_def)
  have "61042 \<noteq> last_ticks sample_shell" "6 < VGA_WIDTH" by (simp_all add: sample_shell_def)
  from status_line_shows_time [OF this, THEN conjunct1, unfolded t] show ?thesis by simp
qed

end
