(* ===== verification/Drivers.thy ===== *)
theory Drivers
  imports Keyboard
begin

text \<open>
  The interrupt path from the controller to the drivers: the dispatcher of \<^verbatim>\<open>irq.c\<close> applied to the
  handlers the timer and the keyboard install, in the order of \<^verbatim>\<open>ck_main\<close>. A hardware interrupt is a
  line number and the byte that port 0x60 holds at that moment.
\<close>

record drivers =
  irq_handlers :: irq_table
  tmr :: timer
  kbd :: keyboard

fun run_handler :: "u8 \<Rightarrow> ck_irq_handler_t \<Rightarrow> u8 \<Rightarrow> drivers \<Rightarrow> drivers" where
  "run_handler port60 ck_irq_default_handler irq d = d"
| "run_handler port60 ck_timer_irq_handler irq d = d\<lparr>tmr := timer_irq (tmr d)\<rparr>"
| "run_handler port60 ck_keyboard_irq_handler irq d =
     d\<lparr>kbd := keyboard_irq port60 (ck_timer_get_ticks (tmr d)) (kbd d)\<rparr>"

definition hardware_irq :: "u8 \<Rightarrow> u8 \<Rightarrow> drivers \<Rightarrow> drivers \<times> port_io list" where
  "hardware_irq irq port60 d = ck_irq_handler (run_handler port60) (irq_handlers d) irq d"

text \<open>The handler table after \<^verbatim>\<open>ck_irq_init\<close>, \<^verbatim>\<open>ck_timer_init\<close> and \<^verbatim>\<open>ck_keyboard_init\<close>.\<close>

definition boot_irq_table :: "(nat \<Rightarrow> u32) \<Rightarrow> irq_table \<times> idt \<Rightarrow> irq_table" where
  "boot_irq_table stubs s = ck_keyboard_init (fst (ck_timer_init (fst (ck_irq_init stubs s))))"

definition drivers_booted :: "drivers \<Rightarrow> bool" where
  "drivers_booted d \<longleftrightarrow> (\<exists>stubs s. irq_handlers d = boot_irq_table stubs s)"

fun hardware_irqs :: "(u8 \<times> u8) list \<Rightarrow> drivers \<Rightarrow> drivers" where
  "hardware_irqs [] d = d"
| "hardware_irqs ((irq, port60) # es) d = hardware_irqs es (fst (hardware_irq irq port60 d))"

lemma boot_irq_table_entry:
  assumes "n < 16"
  shows "boot_irq_table stubs s n =
    Some (if n = 0 then ck_timer_irq_handler else if n = 1 then ck_keyboard_irq_handler
          else ck_irq_default_handler)"
proof -
  obtain t i where s: "s = (t, i)" by fastforce
  have "boot_irq_table stubs s = fold (\<lambda>(i, h). ck_irq_set_handler i h)
      [(0, ck_timer_irq_handler), (1, ck_keyboard_irq_handler)] (fst (ck_irq_init stubs s))"
    by (simp add: boot_irq_table_def ck_keyboard_init_def ck_timer_init_def)
  then show ?thesis
    using assms irqs.last_installation_wins [of 0 "[(1, ck_keyboard_irq_handler)]" ck_timer_irq_handler]
      irqs.last_installation_wins [of 1 "[]" ck_keyboard_irq_handler]
      irqs.installations_elsewhere [of n "[(0, ck_timer_irq_handler), (1, ck_keyboard_irq_handler)]"]
      irq_init_table [of stubs t i n]
    by (auto simp: s)
qed

lemma hardware_irq_booted:
  assumes "drivers_booted d"
  shows "fst (hardware_irq irq port60 d) =
    (if irq = 0 then d\<lparr>tmr := timer_irq (tmr d)\<rparr>
     else if irq = 1 then d\<lparr>kbd := keyboard_irq port60 (ck_timer_ticks (tmr d)) (kbd d)\<rparr>
     else d)"
proof (cases "irq < 16")
  case True
  then have n: "unat irq < 16" by (simp add: word_less_nat_alt)
  obtain stubs s where "irq_handlers d = boot_irq_table stubs s"
    using assms by (auto simp: drivers_booted_def)
  with boot_irq_table_entry [OF n, of stubs s] True show ?thesis
    by (auto simp: hardware_irq_def ck_irq_handler_def ck_timer_get_ticks_def unat_eq_0
        word_unat_eq_iff [of irq 1])
next
  case False
  then show ?thesis by (auto simp: hardware_irq_def ck_irq_handler_def)
qed

lemma hardware_irq_keeps_booted:
  "drivers_booted d \<Longrightarrow> drivers_booted (fst (hardware_irq irq port60 d))"
  using hardware_irq_booted [of d irq port60] by (simp add: drivers_booted_def)

lemma hardware_irqs_ticks:
  "drivers_booted d \<Longrightarrow> ck_timer_ticks (tmr (hardware_irqs es d)) =
    ck_timer_ticks (tmr d) + of_nat (length (filter (\<lambda>(irq, _). irq = 0) es))"
proof (induction es d rule: hardware_irqs.induct)
  case (2 irq port60 es d)
  have "ck_timer_ticks (tmr (fst (hardware_irq irq port60 d))) =
      ck_timer_ticks (tmr d) + (if irq = 0 then 1 else 0)"
    by (simp add: hardware_irq_booted [OF 2(2)] timer_irq_def)
  with 2 show ?case by (simp add: hardware_irq_keeps_booted)
qed simp

lemma hardware_irqs_keyboard:
  "drivers_booted d \<Longrightarrow> kb_inv (kbd d) \<Longrightarrow> kb_inv (kbd (hardware_irqs es d))"
proof (induction es d rule: hardware_irqs.induct)
  case (2 irq port60 es d)
  have "kb_inv (kbd (fst (hardware_irq irq port60 d)))"
    using 2(3) by (simp add: hardware_irq_booted [OF 2(2)] keyboard_irq_queue(1))
  with 2 show ?case by (simp add: hardware_irq_keeps_booted)
qed simp

section \<open>Properties\<close>

text \<open>
  Dispatch. After boot an interrupt on line 0 advances the tick counter and nothing else, one on
  line 1 runs the keyboard handler on the byte of port 0x60 and the current tick, and every other
  line (numbers outside the table included) leaves the drivers unchanged; in all cases the
  interrupt is acknowledged, at the slave first exactly when the line is the slave's, and the
  handler table stays as it is.
\<close>

theorem irq_dispatch:
  assumes "drivers_booted d"
  shows "hardware_irq irq port60 d =
    (if irq = 0 then d\<lparr>tmr := timer_irq (tmr d)\<rparr>
     else if irq = 1 then d\<lparr>kbd := keyboard_irq port60 (ck_timer_ticks (tmr d)) (kbd d)\<rparr>
     else d,
     if irq < 8 then [Outb CK_PIC_MASTER_CMD 0x20]
     else [Outb CK_PIC_SLAVE_CMD 0x20, Outb CK_PIC_MASTER_CMD 0x20])"
proof (rule prod_eqI)
  show "snd (hardware_irq irq port60 d) = snd
    (if irq = 0 then d\<lparr>tmr := timer_irq (tmr d)\<rparr>
     else if irq = 1 then d\<lparr>kbd := keyboard_irq port60 (ck_timer_ticks (tmr d)) (kbd d)\<rparr>
     else d,
     if irq < 8 then [Outb CK_PIC_MASTER_CMD 0x20]
     else [Outb CK_PIC_SLAVE_CMD 0x20, Outb CK_PIC_MASTER_CMD 0x20])"
    by (auto simp: hardware_irq_def ck_irq_handler_def ck_pic_send_eoi_def not_le)
qed (simp add: hardware_irq_booted [OF assms])

definition sample_drivers :: drivers where
  "sample_drivers = \<lparr>irq_handlers = boot_irq_table (\<lambda>_. 0) (irq_static, \<lparr>ck_idt = (\<lambda>_. \<lparr>base_low = 0,
     selector = 0, always0 = 0, gate_flags = 0, base_high = 0\<rparr>),
     ck_idt_desc = \<lparr>idt_limit = 0, idt_base = 0\<rparr>, idtr = None\<rparr>),
     tmr = \<lparr>ck_timer_ticks = 0xFFFFFFFF\<rparr>, kbd = keyboard_static\<rparr>"

theorem irq_dispatch_witness:
  "hardware_irq 0 0 sample_drivers =
     (sample_drivers\<lparr>tmr := \<lparr>ck_timer_ticks = 0\<rparr>\<rparr>, [Outb CK_PIC_MASTER_CMD 0x20])"
proof -
  have "drivers_booted sample_drivers"
    unfolding drivers_booted_def sample_drivers_def drivers.simps by blast
  from irq_dispatch [OF this, of 0 0] show ?thesis
    by (simp add: timer_irq_def sample_drivers_def)
qed

text \<open>
  C24: the clock. After any sequence of hardware interrupts from boot the tick counter is the number of
  timer interrupts modulo 2^32 from its start value, whatever other interrupts came between, and the
  keyboard's ring buffer indices stay inside the buffer.
\<close>

theorem drivers_clock:
  assumes "drivers_booted d" and "kb_inv (kbd d)"
  shows "unat (ck_timer_get_ticks (tmr (hardware_irqs es d))) =
      (unat (ck_timer_ticks (tmr d)) + length (filter (\<lambda>(irq, _). irq = 0) es)) mod 2 ^ 32 \<and>
    kb_inv (kbd (hardware_irqs es d))"
  using hardware_irqs_ticks [OF assms(1), of es] hardware_irqs_keyboard [OF assms, of es]
  by (simp add: ck_timer_get_ticks_def unat_word_ariths unsigned_of_nat take_bit_eq_mod mod_simps)

theorem drivers_clock_witness:
  "unat (ck_timer_get_ticks (tmr (hardware_irqs [(0, 0), (1, 0x1E), (0, 0)] sample_drivers))) = 1"
proof -
  have "drivers_booted sample_drivers"
    unfolding drivers_booted_def sample_drivers_def drivers.simps by blast
  moreover have "kb_inv (kbd sample_drivers)" by (simp add: sample_drivers_def keyboard_static_queue)
  ultimately show ?thesis
    using drivers_clock [of sample_drivers "[(0, 0), (1, 0x1E), (0, 0)]"]
    by (simp add: sample_drivers_def)
qed

end
