(* ===== verification/Paging.thy ===== *)
theory Paging
  imports Pmem
begin

text \<open>
  Paging, \<^verbatim>\<open>src/src/memory/paging.c\<close>. The state is the page directory, the 256 page tables
  and their counter, the two control registers the code writes, and the addresses passed to
  \<^verbatim>\<open>invlpg\<close>. Where the linker puts the two arrays is not fixed by the sources, so their
  addresses are a parameter (a \<open>paging_layout\<close>); the C code follows the address stored in a
  directory entry, and the model resolves that address back to one of the 256 tables. An
  address that is not the start of one of them is a wild pointer, the outcome \<open>None\<close>.
\<close>

section \<open>State and operations\<close>

abbreviation CK_PAGE_PRESENT :: u32 where "CK_PAGE_PRESENT \<equiv> 0x001"
abbreviation CK_PAGE_WRITE :: u32 where "CK_PAGE_WRITE \<equiv> 0x002"
abbreviation CK_PAGE_KERNEL :: u32 where "CK_PAGE_KERNEL \<equiv> CK_PAGE_PRESENT OR CK_PAGE_WRITE"
abbreviation CK_PAGE_TABLE_COUNT :: "'a::numeral" where "CK_PAGE_TABLE_COUNT \<equiv> 256"

record paging_layout =
  page_directory_addr :: u32
  page_tables_addr :: u32

record paging =
  ck_page_directory :: "u32 carray"
  ck_page_tables :: "u32 carray carray"
  ck_page_table_count :: u32
  cr3 :: u32
  cr0 :: u32
  tlb_flushes :: "u32 list"

text \<open>The zero-initialised statics (control registers as after reset into protected mode).\<close>

definition paging_static :: paging where
  "paging_static = \<lparr>ck_page_directory = (\<lambda>_. 0), ck_page_tables = (\<lambda>_ _. 0),
     ck_page_table_count = 0, cr3 = 0, cr0 = 1, tlb_flushes = []\<rparr>"

text \<open>The address of table \<open>k\<close>, and the table an address points to.\<close>

definition page_table_addr :: "paging_layout \<Rightarrow> nat \<Rightarrow> u32" where
  "page_table_addr L k = page_tables_addr L + of_nat k * 4096"

definition page_table_at :: "paging_layout \<Rightarrow> u32 \<Rightarrow> nat option" where
  "page_table_at L addr =
     (let d = unat (addr - page_tables_addr L) in
      if d mod 4096 = 0 \<and> d div 4096 < CK_PAGE_TABLE_COUNT then Some (d div 4096) else None)"

definition ck_paging_get_pd_index :: "u32 \<Rightarrow> u32" where
  "ck_paging_get_pd_index vaddr = drop_bit 22 vaddr AND 0x3FF"

definition ck_paging_get_pt_index :: "u32 \<Rightarrow> u32" where
  "ck_paging_get_pt_index vaddr = drop_bit 12 vaddr AND 0x3FF"

definition ck_paging_create_pde :: "u32 \<Rightarrow> u32 \<Rightarrow> u32" where
  "ck_paging_create_pde pt_address flags = (pt_address AND 0xFFFFF000) OR (flags AND 0xFFF)"

definition ck_paging_create_pte :: "u32 \<Rightarrow> u32 \<Rightarrow> u32" where
  "ck_paging_create_pte page_address flags = (page_address AND 0xFFFFF000) OR (flags AND 0xFFF)"

definition ck_paging_flush_tlb :: "u32 \<Rightarrow> paging \<Rightarrow> paging" where
  "ck_paging_flush_tlb vaddr s = s\<lparr>tlb_flushes := tlb_flushes s @ [vaddr]\<rparr>"

definition ck_paging_enable :: "paging_layout \<Rightarrow> paging \<Rightarrow> paging" where
  "ck_paging_enable L s = s\<lparr>cr3 := page_directory_addr L, cr0 := cr0 s OR 0x80000000\<rparr>"

text \<open>The body of the loop over page tables in \<^verbatim>\<open>ck_paging_init\<close>.\<close>

definition paging_init_table :: "paging_layout \<Rightarrow> nat \<Rightarrow> paging \<Rightarrow> paging" where
  "paging_init_table L pt_idx s =
     (let cleared = for_loop 0 1024 (\<lambda>i t. t(i := 0)) (ck_page_tables s pt_idx);
          filled = for_loop 0 1024 (\<lambda>pte_idx t. t(pte_idx := ck_paging_create_pte
            (of_nat pt_idx * 1024 * 4096 + of_nat pte_idx * 4096) CK_PAGE_KERNEL)) cleared
      in s\<lparr>ck_page_tables := (ck_page_tables s)(pt_idx := filled),
           ck_page_directory := (ck_page_directory s)
             (pt_idx := ck_paging_create_pde (page_table_addr L pt_idx) CK_PAGE_KERNEL),
           ck_page_table_count := ck_page_table_count s + 1\<rparr>)"

definition ck_paging_init :: "paging_layout \<Rightarrow> paging \<Rightarrow> paging" where
  "ck_paging_init L s =
     (let s0 = s\<lparr>ck_page_directory := for_loop 0 1024 (\<lambda>i d. d(i := 0)) (ck_page_directory s),
                 ck_page_table_count := 0\<rparr>
      in ck_paging_enable L (for_loop 0 256 (paging_init_table L) s0))"

text \<open>
  \<^verbatim>\<open>ck_paging_map_page\<close>: the branch that installs a new page table, then the write of the
  entry. The result pairs the return value with the new state.
\<close>

definition paging_new_table :: "paging_layout \<Rightarrow> u32 \<Rightarrow> paging \<Rightarrow> paging option" where
  "paging_new_table L vaddr s =
     (if ck_page_table_count s \<ge> CK_PAGE_TABLE_COUNT then None
      else let k = unat (ck_page_table_count s) in
        Some (ck_paging_flush_tlb vaddr
          (s\<lparr>ck_page_tables := (ck_page_tables s)
               (k := for_loop 0 1024 (\<lambda>i t. t(i := 0)) (ck_page_tables s k)),
             ck_page_directory := (ck_page_directory s)
               (unat (ck_paging_get_pd_index vaddr) :=
                  ck_paging_create_pde (page_table_addr L k) CK_PAGE_KERNEL),
             ck_page_table_count := ck_page_table_count s + 1\<rparr>)))"

definition paging_write_entry :: "paging_layout \<Rightarrow> u32 \<Rightarrow> u32 \<Rightarrow> paging \<Rightarrow> paging option" where
  "paging_write_entry L vaddr entry s =
     (case page_table_at L
        (ck_page_directory s (unat (ck_paging_get_pd_index vaddr)) AND 0xFFFFF000) of
        None \<Rightarrow> None
      | Some k \<Rightarrow> Some (ck_paging_flush_tlb vaddr
          (s\<lparr>ck_page_tables := (ck_page_tables s)
               (k := (ck_page_tables s k)(unat (ck_paging_get_pt_index vaddr) := entry))\<rparr>)))"

definition ck_paging_map_page ::
  "paging_layout \<Rightarrow> u32 \<Rightarrow> u32 \<Rightarrow> u32 \<Rightarrow> paging \<Rightarrow> (u32 \<times> paging) option" where
  "ck_paging_map_page L vaddr paddr flags s =
     (let pd_idx = unat (ck_paging_get_pd_index vaddr);
          entry = ck_paging_create_pte paddr flags in
      if ck_page_directory s pd_idx AND CK_PAGE_PRESENT = 0 then
        (case paging_new_table L vaddr s of
           None \<Rightarrow> Some (0, s)
         | Some s1 \<Rightarrow> map_option (Pair 1) (paging_write_entry L vaddr entry s1))
      else map_option (Pair 1) (paging_write_entry L vaddr entry s))"

definition ck_paging_unmap_page :: "paging_layout \<Rightarrow> u32 \<Rightarrow> paging \<Rightarrow> paging option" where
  "ck_paging_unmap_page L vaddr s =
     (let pd_idx = unat (ck_paging_get_pd_index vaddr) in
      if ck_page_directory s pd_idx AND CK_PAGE_PRESENT = 0 then Some s
      else paging_write_entry L vaddr 0 s)"

definition ck_paging_virt_to_phys :: "paging_layout \<Rightarrow> u32 \<Rightarrow> paging \<Rightarrow> u32 option" where
  "ck_paging_virt_to_phys L vaddr s =
     (let pd_idx = unat (ck_paging_get_pd_index vaddr);
          pt_idx = unat (ck_paging_get_pt_index vaddr);
          page_offset = vaddr AND 0xFFF in
      if ck_page_directory s pd_idx AND CK_PAGE_PRESENT = 0 then Some 0
      else case page_table_at L (ck_page_directory s pd_idx AND 0xFFFFF000) of
        None \<Rightarrow> None
      | Some k \<Rightarrow>
          if ck_page_tables s k pt_idx AND CK_PAGE_PRESENT = 0 then Some 0
          else Some ((ck_page_tables s k pt_idx AND 0xFFFFF000) OR page_offset))"

section \<open>Abstraction and invariant\<close>

text \<open>
  The layout the attributes of the arrays give: the tables start on a page boundary and the
  megabyte they occupy does not wrap around the address space.
\<close>

definition layout_ok :: "paging_layout \<Rightarrow> bool" where
  "layout_ok L \<longleftrightarrow>
     unat (page_tables_addr L) mod 4096 = 0 \<and> unat (page_tables_addr L) + 256 * 4096 \<le> 2 ^ 32"

definition present :: "u32 \<Rightarrow> bool" where
  "present e \<longleftrightarrow> e AND CK_PAGE_PRESENT \<noteq> 0"

text \<open>
  Every present directory entry points to one of the tables handed out so far, and no two
  directory entries share a table.
\<close>

definition paging_inv :: "paging_layout \<Rightarrow> paging \<Rightarrow> bool" where
  "paging_inv L s \<longleftrightarrow> layout_ok L \<and>
     unat (ck_page_table_count s) \<le> CK_PAGE_TABLE_COUNT \<and>
     (\<forall>i < 1024. present (ck_page_directory s i) \<longrightarrow>
        (\<exists>k < unat (ck_page_table_count s).
           ck_page_directory s i = ck_paging_create_pde (page_table_addr L k) CK_PAGE_KERNEL)) \<and>
     (\<forall>i < 1024. \<forall>j < 1024. present (ck_page_directory s i) \<longrightarrow>
        ck_page_directory s i = ck_page_directory s j \<longrightarrow> i = j)"

text \<open>The page table entry that governs a virtual address; 0 where there is no table.\<close>

definition entry_of :: "paging_layout \<Rightarrow> paging \<Rightarrow> u32 \<Rightarrow> u32" where
  "entry_of L s vaddr =
     (let e = ck_page_directory s (unat (ck_paging_get_pd_index vaddr)) in
      if present e then
        (case page_table_at L (e AND 0xFFFFF000) of
           None \<Rightarrow> 0
         | Some k \<Rightarrow> ck_page_tables s k (unat (ck_paging_get_pt_index vaddr)))
      else 0)"

definition same_page :: "u32 \<Rightarrow> u32 \<Rightarrow> bool" where
  "same_page v w \<longleftrightarrow> unat v div 4096 = unat w div 4096"

section \<open>Address arithmetic\<close>

lemma low12_mask: "(0xFFF :: u32) = mask 12" and high20_mask: "(0xFFFFF000 :: u32) = NOT (mask 12)"
  by (simp_all add: mask_eq_exp_minus_1)

lemma unat_and_3FF: "unat (x AND 0x3FF :: u32) = unat x mod 1024"
proof -
  have "x AND 0x3FF = take_bit 10 x" by (simp add: take_bit_eq_mask mask_eq_exp_minus_1)
  then show ?thesis by (simp add: take_bit_eq_mod unat_mod)
qed

lemma unat_pd_index: "unat (ck_paging_get_pd_index v) = unat v div 4194304"
  using unat_u32_less [of v]
  by (simp add: ck_paging_get_pd_index_def unat_and_3FF drop_bit_eq_div unat_div
      less_mult_imp_div_less)

lemma unat_pt_index: "unat (ck_paging_get_pt_index v) = unat v div 4096 mod 1024"
  by (simp add: ck_paging_get_pt_index_def unat_and_3FF drop_bit_eq_div unat_div)

lemma pd_index_bound: "unat (ck_paging_get_pd_index v) < 1024"
  and pt_index_bound: "unat (ck_paging_get_pt_index v) < 1024"
  using unat_u32_less [of v] by (simp_all add: unat_pd_index unat_pt_index less_mult_imp_div_less)

lemma same_page_iff:
  "same_page v w \<longleftrightarrow> unat (ck_paging_get_pd_index v) = unat (ck_paging_get_pd_index w) \<and>
     unat (ck_paging_get_pt_index v) = unat (ck_paging_get_pt_index w)"
proof -
  have "n div 4194304 = n div 4096 div 1024" for n :: nat
    by (simp add: div_mult2_eq [symmetric])
  then show ?thesis using div_mod_eq_iff [of "unat v div 4096" "unat w div 4096" 1024]
    by (simp only: same_page_def unat_pd_index unat_pt_index)
qed

lemma create_pte_frame: "ck_paging_create_pte a f AND 0xFFFFF000 = a AND 0xFFFFF000"
  and create_pde_frame: "ck_paging_create_pde a f AND 0xFFFFF000 = a AND 0xFFFFF000"
  unfolding ck_paging_create_pte_def ck_paging_create_pde_def low12_mask high20_mask
  by (rule bit_word_eqI, auto simp: bit_simps)+

lemma present_iff_bit: "present e \<longleftrightarrow> bit e 0"
  by (simp add: present_def and_one_eq mod2_eq_if bit_0)

lemma present_create: "present (ck_paging_create_pte a f) \<longleftrightarrow> present f"
    "present (ck_paging_create_pde a f) \<longleftrightarrow> present f"
  unfolding present_iff_bit ck_paging_create_pte_def ck_paging_create_pde_def low12_mask high20_mask
  by (simp_all add: bit_simps)

lemma present_kernel [simp]: "present CK_PAGE_KERNEL" "present 3"
  and not_present_0 [simp]: "\<not> present 0"
  by (simp_all add: present_def)

lemma split_word_12: "(x AND 0xFFFFF000) OR (x AND 0xFFF) = (x :: u32)"
  unfolding low12_mask high20_mask by (rule bit_word_eqI) (auto simp: bit_simps)

lemma aligned_and: "unat x mod 4096 = 0 \<Longrightarrow> x AND 0xFFFFF000 = (x :: u32)"
proof -
  assume "unat x mod 4096 = 0"
  then have "unat (x mod 2 ^ 12) = 0" by (simp add: unat_mod)
  then have "take_bit 12 x = 0" by (simp only: take_bit_eq_mod unat_eq_zero)
  then have "x AND 0xFFF = 0" by (simp add: take_bit_eq_mask mask_eq_exp_minus_1)
  then show "x AND 0xFFFFF000 = x" using split_word_12 [of x] by simp
qed

section \<open>Page tables and the directory entries that point to them\<close>

lemma unat_table_offset: "k < 256 \<Longrightarrow> unat (of_nat k * 4096 :: u32) = k * 4096"
  by (rule unat_page_addr) simp

lemma unat_page_table_addr:
  "layout_ok L \<Longrightarrow> k < 256 \<Longrightarrow> unat (page_table_addr L k) = unat (page_tables_addr L) + k * 4096"
  by (simp add: page_table_addr_def layout_ok_def unat_add_u32 unat_table_offset)

lemma page_table_at_pde:
  assumes "layout_ok L" "k < 256"
  shows "page_table_at L (ck_paging_create_pde (page_table_addr L k) f AND 0xFFFFF000) = Some k"
proof -
  have "unat (page_table_addr L k) mod 4096 = 0"
    using assms by (simp add: unat_page_table_addr layout_ok_def)
  then have "ck_paging_create_pde (page_table_addr L k) f AND 0xFFFFF000 = page_table_addr L k"
    by (simp add: create_pde_frame aligned_and)
  then show ?thesis
    using assms by (simp add: page_table_at_def page_table_addr_def unat_table_offset)
qed

lemma pde_inj:
  assumes "layout_ok L" "k < 256" "k' < 256"
    "ck_paging_create_pde (page_table_addr L k) f = ck_paging_create_pde (page_table_addr L k') f"
  shows "k = k'"
  using page_table_at_pde [OF assms(1,2), of f] page_table_at_pde [OF assms(1,3), of f] assms(4)
  by (metis option.inject)

lemma present_tableE:
  assumes "paging_inv L s" "i < 1024" "present (ck_page_directory s i)"
  obtains k where "k < unat (ck_page_table_count s)" "k < 256"
    "ck_page_directory s i = ck_paging_create_pde (page_table_addr L k) CK_PAGE_KERNEL"
    "page_table_at L (ck_page_directory s i AND 0xFFFFF000) = Some k"
proof -
  from assms obtain k where k: "k < unat (ck_page_table_count s)"
    "ck_page_directory s i = ck_paging_create_pde (page_table_addr L k) CK_PAGE_KERNEL"
    unfolding paging_inv_def by blast
  moreover from k(1) assms(1) have "k < 256" by (simp add: paging_inv_def)
  moreover have "layout_ok L" using assms(1) by (simp add: paging_inv_def)
  ultimately show ?thesis using that page_table_at_pde by metis
qed

lemma paging_inv_inj:
  "paging_inv L s \<Longrightarrow> i < 1024 \<Longrightarrow> j < 1024 \<Longrightarrow> present (ck_page_directory s i) \<Longrightarrow>
   ck_page_directory s i = ck_page_directory s j \<Longrightarrow> i = j"
  unfolding paging_inv_def by blast

lemma distinct_tables:
  assumes "paging_inv L s" "i < 1024" "j < 1024" "i \<noteq> j"
    and "present (ck_page_directory s i)" "present (ck_page_directory s j)"
  shows "page_table_at L (ck_page_directory s i AND 0xFFFFF000) \<noteq>
         page_table_at L (ck_page_directory s j AND 0xFFFFF000)"
proof
  assume "page_table_at L (ck_page_directory s i AND 0xFFFFF000) =
          page_table_at L (ck_page_directory s j AND 0xFFFFF000)"
  then have "ck_page_directory s i = ck_page_directory s j"
    using present_tableE [OF assms(1,2,5)] present_tableE [OF assms(1,3,6)]
    by (metis option.inject)
  with assms show False using paging_inv_inj by blast
qed

section \<open>Writing entries\<close>

lemma flush_fields [simp]:
  "ck_page_directory (ck_paging_flush_tlb v s) = ck_page_directory s"
  "ck_page_tables (ck_paging_flush_tlb v s) = ck_page_tables s"
  "ck_page_table_count (ck_paging_flush_tlb v s) = ck_page_table_count s"
  by (simp_all add: ck_paging_flush_tlb_def)

lemma paging_inv_cong:
  "ck_page_directory s' = ck_page_directory s \<Longrightarrow> ck_page_table_count s' = ck_page_table_count s \<Longrightarrow>
   paging_inv L s' = paging_inv L s"
  by (simp only: paging_inv_def)

lemma write_entry_spec:
  assumes "paging_inv L s" "present (ck_page_directory s (unat (ck_paging_get_pd_index v)))"
  obtains s' where "paging_write_entry L v e s = Some s'" "paging_inv L s'"
    "\<And>w. entry_of L s' w = (if same_page v w then e else entry_of L s w)"
proof -
  obtain k where k: "page_table_at L
      (ck_page_directory s (unat (ck_paging_get_pd_index v)) AND 0xFFFFF000) = Some k"
    using present_tableE [OF assms(1) pd_index_bound assms(2)] by metis
  let ?s = "ck_paging_flush_tlb v (s\<lparr>ck_page_tables := (ck_page_tables s)
      (k := (ck_page_tables s k)(unat (ck_paging_get_pt_index v) := e))\<rparr>)"
  have "paging_write_entry L v e s = Some ?s" by (simp add: paging_write_entry_def k)
  moreover have "paging_inv L ?s" using assms(1) by (subst paging_inv_cong) simp_all
  moreover have "entry_of L ?s w = (if same_page v w then e else entry_of L s w)" for w
  proof (cases "unat (ck_paging_get_pd_index v) = unat (ck_paging_get_pd_index w)")
    case True
    then show ?thesis using assms(2) k by (simp add: entry_of_def Let_def same_page_iff)
  next
    case False
    have "page_table_at L (ck_page_directory s (unat (ck_paging_get_pd_index w)) AND 0xFFFFF000) \<noteq> Some k"
      if "present (ck_page_directory s (unat (ck_paging_get_pd_index w)))"
      using distinct_tables [OF assms(1) pd_index_bound pd_index_bound False assms(2) that] k by simp
    with False show ?thesis by (auto simp: entry_of_def Let_def same_page_iff split: option.split)
  qed
  ultimately show ?thesis using that by blast
qed

lemma new_table_spec:
  assumes "paging_inv L s" "\<not> present (ck_page_directory s (unat (ck_paging_get_pd_index v)))"
    "ck_page_table_count s < CK_PAGE_TABLE_COUNT"
  obtains s' where "paging_new_table L v s = Some s'" "paging_inv L s'"
    "present (ck_page_directory s' (unat (ck_paging_get_pd_index v)))"
    "\<And>w. entry_of L s' w = entry_of L s w"
proof -
  define k where "k = unat (ck_page_table_count s)"
  define pd where "pd = unat (ck_paging_get_pd_index v)"
  define s' where "s' = ck_paging_flush_tlb v (s\<lparr>ck_page_tables := (ck_page_tables s)
      (k := for_loop 0 1024 (\<lambda>i t. t(i := 0)) (ck_page_tables s k)),
      ck_page_directory := (ck_page_directory s)
        (pd := ck_paging_create_pde (page_table_addr L k) CK_PAGE_KERNEL),
      ck_page_table_count := ck_page_table_count s + 1\<rparr>)"
  have k: "k < 256" "layout_ok L" "unat (ck_page_table_count s + 1) = Suc k"
    using assms(1,3) by (simp_all add: k_def paging_inv_def u32_less_unat unat_Suc_u32)
  have old: "ck_page_directory s i \<noteq> ck_paging_create_pde (page_table_addr L k) CK_PAGE_KERNEL \<and>
      page_table_at L (ck_page_directory s i AND 0xFFFFF000) \<noteq> Some k"
    if pres: "i < 1024" "present (ck_page_directory s i)" for i
  proof -
    obtain k' where k': "k' < k" "k' < 256"
      "ck_page_directory s i = ck_paging_create_pde (page_table_addr L k') CK_PAGE_KERNEL"
      "page_table_at L (ck_page_directory s i AND 0xFFFFF000) = Some k'"
      using present_tableE [OF assms(1) pres] unfolding k_def by metis
    then show ?thesis using pde_inj [OF k(2) k'(2) k(1)] by auto
  qed
  have dir: "ck_page_directory s' i = (if i = pd then
      ck_paging_create_pde (page_table_addr L k) CK_PAGE_KERNEL else ck_page_directory s i)" for i
    by (simp add: s'_def)
  have inv: "paging_inv L s'"
    unfolding paging_inv_def
  proof (intro conjI allI impI)
    show "layout_ok L" "unat (ck_page_table_count s') \<le> CK_PAGE_TABLE_COUNT"
      using k by (simp_all add: s'_def)
  next
    fix i :: nat
    assume i: "i < 1024" "present (ck_page_directory s' i)"
    have cnt: "unat (ck_page_table_count s') = Suc k" by (simp add: s'_def k)
    show "\<exists>k < unat (ck_page_table_count s'). ck_page_directory s' i =
        ck_paging_create_pde (page_table_addr L k) CK_PAGE_KERNEL"
    proof (cases "i = pd")
      case True
      then show ?thesis using cnt dir by (intro exI [of _ k]) simp
    next
      case False
      with i have "present (ck_page_directory s i)" by (simp add: dir)
      with assms(1) i(1) obtain k' where "k' < k"
        "ck_page_directory s i = ck_paging_create_pde (page_table_addr L k') CK_PAGE_KERNEL"
        unfolding k_def by (rule present_tableE)
      with False cnt show ?thesis by (intro exI [of _ k']) (simp add: dir)
    qed
  next
    fix i j :: nat
    assume ij: "i < 1024" "j < 1024" "present (ck_page_directory s' i)"
      "ck_page_directory s' i = ck_page_directory s' j"
    then have "i = pd \<longleftrightarrow> j = pd"
      using old [of i] old [of j] unfolding dir by (auto split: if_splits)
    with ij show "i = j" using paging_inv_inj [OF assms(1) ij(1,2)] unfolding dir by (auto split: if_splits)
  qed
  have ent: "entry_of L s' w = entry_of L s w" for w
    using assms(2) old [OF pd_index_bound] page_table_at_pde [OF k(2,1)] pt_index_bound [of w]
    by (auto simp: entry_of_def s'_def pd_def Let_def for_loop_fill present_create split: option.split)
  show ?thesis
  proof (rule that [of s'])
    show "paging_new_table L v s = Some s'"
      using assms(3) by (simp add: paging_new_table_def s'_def k_def pd_def Let_def)
    show "present (ck_page_directory s' (unat (ck_paging_get_pd_index v)))"
      by (simp add: s'_def pd_def present_create)
  qed (rule inv, rule ent)
qed

section \<open>The interface of an address space\<close>

text \<open>
  What a user of the paging code may rely on, stated over the entry that governs each virtual
  address: mapping sets the entry of exactly one page or fails and changes nothing, unmapping
  clears it, translation reads it.
\<close>

locale address_space =
  fixes map_page :: "u32 \<Rightarrow> u32 \<Rightarrow> u32 \<Rightarrow> 's \<Rightarrow> (u32 \<times> 's) option"
    and unmap_page :: "u32 \<Rightarrow> 's \<Rightarrow> 's option"
    and translate :: "u32 \<Rightarrow> 's \<Rightarrow> u32 option"
    and entry :: "'s \<Rightarrow> u32 \<Rightarrow> u32"
    and invar :: "'s \<Rightarrow> bool"
  assumes map_law: "invar s \<Longrightarrow> \<exists>r s'. map_page v p f s = Some (r, s') \<and> invar s' \<and>
      (r = 0 \<and> s' = s \<or> r = 1 \<and>
         (\<forall>w. entry s' w = (if same_page v w then ck_paging_create_pte p f else entry s w)))"
    and unmap_law: "invar s \<Longrightarrow> \<exists>s'. unmap_page v s = Some s' \<and> invar s' \<and>
      (\<forall>w. entry s' w = (if same_page v w then 0 else entry s w))"
    and translate_law: "invar s \<Longrightarrow> translate v s = Some
      (if present (entry s v) then (entry s v AND 0xFFFFF000) OR (v AND 0xFFF) else 0)"
begin

lemma map_then_translate:
  assumes "invar s" "map_page v p f s = Some (r, s')" "r \<noteq> 0" "present f" "same_page v w"
  shows "translate w s' = Some ((p AND 0xFFFFF000) OR (w AND 0xFFF))"
proof -
  have "invar s'" "entry s' w = ck_paging_create_pte p f"
    using map_law [OF assms(1), of v p f] assms(2,3,5) by auto
  then show ?thesis using assms(4) translate_law [of s' w]
    by (simp only: present_create create_pte_frame if_True)
qed

lemma map_frame:
  assumes "invar s" "map_page v p f s = Some (r, s')" "\<not> same_page v w"
  shows "invar s' \<and> translate w s' = translate w s"
proof -
  have "invar s'" "entry s' w = entry s w"
    using map_law [OF assms(1), of v p f] assms(2,3) by auto
  then show ?thesis using assms(1) translate_law [of s' w] translate_law [of s w] by simp
qed

lemma unmap_then_translate:
  assumes "invar s" "unmap_page v s = Some s'"
  shows "invar s' \<and> translate w s' = (if same_page v w then Some 0 else translate w s)"
proof -
  have "invar s'" "entry s' w = (if same_page v w then 0 else entry s w)"
    using unmap_law [OF assms(1), of v] assms(2) by auto
  then show ?thesis using assms(1) translate_law [of s' w] translate_law [of s w] by simp
qed

lemma map_total: "invar s \<Longrightarrow> \<exists>r s'. map_page v p f s = Some (r, s') \<and> invar s'"
  and unmap_total: "invar s \<Longrightarrow> \<exists>s'. unmap_page v s = Some s' \<and> invar s'"
  and translate_total: "invar s \<Longrightarrow> \<exists>a. translate v s = Some a"
  using map_law unmap_law translate_law by blast+

end

lemma not_present_iff: "e AND CK_PAGE_PRESENT = 0 \<longleftrightarrow> \<not> present e"
  by (simp add: present_def)

lemma map_page_cases:
  assumes "paging_inv L s"
  obtains (full) "\<not> present (ck_page_directory s (unat (ck_paging_get_pd_index v)))"
      "ck_page_table_count s \<ge> CK_PAGE_TABLE_COUNT" "ck_paging_map_page L v p f s = Some (0, s)"
  | (ok) s' where "ck_paging_map_page L v p f s = Some (1, s')" "paging_inv L s'"
      "\<And>w. entry_of L s' w = (if same_page v w then ck_paging_create_pte p f else entry_of L s w)"
proof (cases "present (ck_page_directory s (unat (ck_paging_get_pd_index v)))")
  case True
  then show ?thesis
    using write_entry_spec [OF assms True, of "ck_paging_create_pte p f"] ok
    by (auto simp: ck_paging_map_page_def Let_def not_present_iff)
next
  case absent: False
  show ?thesis
  proof (cases "ck_page_table_count s \<ge> CK_PAGE_TABLE_COUNT")
    case True
    with absent show ?thesis
      by (intro full) (simp_all add: ck_paging_map_page_def Let_def not_present_iff paging_new_table_def)
  next
    case False
    then have "ck_page_table_count s < CK_PAGE_TABLE_COUNT" by simp
    then obtain s1 where s1: "paging_new_table L v s = Some s1" "paging_inv L s1"
      "present (ck_page_directory s1 (unat (ck_paging_get_pd_index v)))"
      "\<And>w. entry_of L s1 w = entry_of L s w" using new_table_spec [OF assms absent] by metis
    obtain s' where s': "paging_write_entry L v (ck_paging_create_pte p f) s1 = Some s'"
      "paging_inv L s'" "\<And>w. entry_of L s' w =
         (if same_page v w then ck_paging_create_pte p f else entry_of L s1 w)"
      using write_entry_spec [OF s1(2,3), of "ck_paging_create_pte p f"] by blast
    show ?thesis
    proof (rule ok)
      show "ck_paging_map_page L v p f s = Some (1, s')"
        using absent s1(1) s'(1) by (simp add: ck_paging_map_page_def Let_def not_present_iff)
    qed (use s' s1(4) in simp_all)
  qed
qed

lemma unmap_page_spec:
  assumes "paging_inv L s"
  shows "\<exists>s'. ck_paging_unmap_page L v s = Some s' \<and> paging_inv L s' \<and>
     (\<forall>w. entry_of L s' w = (if same_page v w then 0 else entry_of L s w))"
proof (cases "present (ck_page_directory s (unat (ck_paging_get_pd_index v)))")
  case True
  obtain s' where "paging_write_entry L v 0 s = Some s'" "paging_inv L s'"
    "\<And>w. entry_of L s' w = (if same_page v w then 0 else entry_of L s w)"
    using write_entry_spec [OF assms True, of 0] by blast
  with True show ?thesis
    by (intro exI [of _ s']) (simp add: ck_paging_unmap_page_def Let_def not_present_iff)
next
  case False
  then have "entry_of L s w = 0" if "same_page v w" for w
    using that by (simp add: entry_of_def same_page_iff Let_def)
  with False assms show ?thesis by (simp add: ck_paging_unmap_page_def Let_def not_present_iff)
qed

lemma virt_to_phys_spec:
  assumes "paging_inv L s"
  shows "ck_paging_virt_to_phys L v s = Some (if present (entry_of L s v)
     then (entry_of L s v AND 0xFFFFF000) OR (v AND 0xFFF) else 0)"
proof (cases "present (ck_page_directory s (unat (ck_paging_get_pd_index v)))")
  case True
  obtain k where "page_table_at L
      (ck_page_directory s (unat (ck_paging_get_pd_index v)) AND 0xFFFFF000) = Some k"
    using present_tableE [OF assms pd_index_bound True] by metis
  with True show ?thesis
    by (simp add: ck_paging_virt_to_phys_def entry_of_def Let_def not_present_iff)
next
  case False
  then show ?thesis by (simp add: ck_paging_virt_to_phys_def entry_of_def Let_def not_present_iff)
qed

interpretation asp: address_space "ck_paging_map_page L" "ck_paging_unmap_page L"
  "ck_paging_virt_to_phys L" "entry_of L" "paging_inv L" for L
proof unfold_locales
  fix s v p f
  assume inv: "paging_inv L s"
  show "\<exists>r s'. ck_paging_map_page L v p f s = Some (r, s') \<and> paging_inv L s' \<and>
      (r = 0 \<and> s' = s \<or> r = 1 \<and> (\<forall>w. entry_of L s' w =
         (if same_page v w then ck_paging_create_pte p f else entry_of L s w)))"
    by (rule map_page_cases [OF inv, of v p f]) (use inv in auto)
qed (rule unmap_page_spec virt_to_phys_spec; assumption)+

section \<open>The identity mapping set up at boot\<close>

lemma page_base: "of_nat (unat v div 4096) * 4096 = (v :: u32) AND 0xFFFFF000"
proof -
  have "v AND 0xFFFFF000 = push_bit 12 (drop_bit 12 v)"
    unfolding high20_mask by (rule bit_word_eqI) (auto simp: bit_simps)
  also have "\<dots> = (v div 4096) * 4096" by (simp add: push_bit_eq_mult drop_bit_eq_div)
  also have "v div 4096 = of_nat (unat v div 4096)" by (simp add: word_arith_nat_div)
  finally show ?thesis by simp
qed

lemma identity_frame:
  "of_nat (unat (ck_paging_get_pd_index v)) * 1024 * 4096 +
   of_nat (unat (ck_paging_get_pt_index v)) * 4096 = v AND 0xFFFFF000"
proof -
  have "unat v div 4194304 * 1024 + unat v div 4096 mod 1024 = unat v div 4096"
    using div_mult_mod_eq [of "unat v div 4096" 1024] by (simp add: div_mult2_eq [symmetric])
  then have "of_nat (unat v div 4194304 * 1024 + unat v div 4096 mod 1024) * 4096 = v AND 0xFFFFF000"
    by (simp only: page_base)
  then show ?thesis by (simp only: unat_pd_index unat_pt_index of_nat_add of_nat_mult of_nat_numeral
      distrib_right)
qed

definition identity_upto :: "paging_layout \<Rightarrow> nat \<Rightarrow> paging \<Rightarrow> bool" where
  "identity_upto L n s \<longleftrightarrow> ck_page_table_count s = of_nat n \<and>
     (\<forall>i < 1024. ck_page_directory s i =
        (if i < n then ck_paging_create_pde (page_table_addr L i) CK_PAGE_KERNEL else 0)) \<and>
     (\<forall>i < n. \<forall>j < 1024. ck_page_tables s i j =
        ck_paging_create_pte (of_nat i * 1024 * 4096 + of_nat j * 4096) CK_PAGE_KERNEL)"

lemma identity_init: "identity_upto L 256 (ck_paging_init L s)"
proof -
  define s0 where "s0 = s\<lparr>ck_page_directory := for_loop 0 1024 (\<lambda>i d. d(i := 0)) (ck_page_directory s),
    ck_page_table_count := 0\<rparr>"
  have "identity_upto L 256 (for_loop 0 256 (paging_init_table L) s0)"
  proof (rule for_loop_inv)
    show "identity_upto L 0 s0" by (simp add: identity_upto_def s0_def for_loop_fill)
  next
    fix i t
    assume "identity_upto L i t"
    then show "identity_upto L (Suc i) (paging_init_table L i t)"
      by (auto simp: identity_upto_def paging_init_table_def Let_def for_loop_fill less_Suc_eq
          simp del: of_nat_mult)
  qed simp
  then show ?thesis
    by (simp add: identity_upto_def ck_paging_init_def ck_paging_enable_def Let_def s0_def)
qed

lemma paging_inv_init: "layout_ok L \<Longrightarrow> paging_inv L (ck_paging_init L s)"
proof -
  assume L: "layout_ok L"
  let ?s = "ck_paging_init L s"
  have dir: "ck_page_directory ?s i = (if i < 256 then
      ck_paging_create_pde (page_table_addr L i) CK_PAGE_KERNEL else 0)" if "i < 1024" for i
    using identity_init [of L s] that unfolding identity_upto_def by blast
  have cnt: "unat (ck_page_table_count ?s) = 256"
    using identity_init [of L s] by (simp add: identity_upto_def)
  show ?thesis unfolding paging_inv_def
  proof (intro conjI allI impI)
    fix i :: nat
    assume i: "i < 1024" "present (ck_page_directory ?s i)"
    then have "i < 256" by (auto simp: dir split: if_splits)
    with i(1) show "\<exists>k < unat (ck_page_table_count ?s). ck_page_directory ?s i =
        ck_paging_create_pde (page_table_addr L k) CK_PAGE_KERNEL"
      by (intro exI [of _ i]) (simp add: cnt dir)
  next
    fix i j :: nat
    assume ij: "i < 1024" "j < 1024" "present (ck_page_directory ?s i)"
      "ck_page_directory ?s i = ck_page_directory ?s j"
    have lt: "k < 256" if "k < 1024" "present (ck_page_directory ?s k)" for k
      using that by (auto simp: dir split: if_splits)
    have "i < 256" "j < 256" using lt [OF ij(1,3)] lt [OF ij(2)] ij(3,4) by simp_all
    with ij show "i = j" using pde_inj [OF L] by (simp add: dir)
  qed (use L cnt in simp_all)
qed

lemma entry_init:
  assumes "layout_ok L"
  shows "entry_of L (ck_paging_init L s) v =
    (if unat v < 2 ^ 30 then ck_paging_create_pte v CK_PAGE_KERNEL else 0)"
proof -
  let ?s = "ck_paging_init L s"
  let ?pd = "unat (ck_paging_get_pd_index v)" and ?pt = "unat (ck_paging_get_pt_index v)"
  have dir: "ck_page_directory ?s ?pd = (if ?pd < 256 then
      ck_paging_create_pde (page_table_addr L ?pd) CK_PAGE_KERNEL else 0)"
    using identity_init [of L s] pd_index_bound unfolding identity_upto_def by blast
  have tab: "ck_page_tables ?s ?pd ?pt = ck_paging_create_pte v CK_PAGE_KERNEL" if "?pd < 256"
  proof -
    have "ck_page_tables ?s ?pd ?pt =
        ck_paging_create_pte (of_nat ?pd * 1024 * 4096 + of_nat ?pt * 4096) CK_PAGE_KERNEL"
      using identity_init [of L s] pt_index_bound that unfolding identity_upto_def by blast
    also have "\<dots> = ck_paging_create_pte v CK_PAGE_KERNEL"
      unfolding identity_frame by (simp add: ck_paging_create_pte_def and.assoc)
    finally show ?thesis .
  qed
  have "?pd < 256 \<longleftrightarrow> unat v < 2 ^ 30" by (simp add: unat_pd_index div_less_iff_less_mult)
  with dir tab show ?thesis
    using page_table_at_pde [OF assms] by (simp add: entry_of_def Let_def present_create)
qed

lemma virt_to_phys_init:
  assumes "layout_ok L"
  shows "ck_paging_virt_to_phys L v (ck_paging_init L s) = Some (if unat v < 2 ^ 30 then v else 0)"
  using asp.translate_law [OF paging_inv_init [OF assms], of v]
  by (simp only: entry_init [OF assms] present_create create_pte_frame split_word_12
      present_kernel not_present_0 if_True if_False split: if_split) simp

section \<open>Properties of paging\<close>

text \<open>A layout for the witnesses: both arrays page-aligned, just above the kernel's load address.\<close>

definition sample_layout :: paging_layout where
  "sample_layout = \<lparr>page_directory_addr = 0x110000, page_tables_addr = 0x111000\<rparr>"

lemma sample_layout_ok: "layout_ok sample_layout"
  by (simp add: layout_ok_def sample_layout_def)

text \<open>
  C18: after \<^verbatim>\<open>ck_paging_init\<close> the invariant holds, paging is on with CR3 at the page directory,
  and translation is the identity on the first gigabyte (256 tables of 4 MB each, where the
  comments say 256 MB) and "not mapped" above it.
\<close>

theorem paging_init_identity:
  assumes "layout_ok L"
  shows "paging_inv L (ck_paging_init L s) \<and>
    cr3 (ck_paging_init L s) = page_directory_addr L \<and> bit (cr0 (ck_paging_init L s)) 31 \<and>
    ck_paging_virt_to_phys L v (ck_paging_init L s) = Some (if unat v < 2 ^ 30 then v else 0)"
proof -
  note virt_to_phys_init [OF assms, of v s]
  moreover have "bit (cr0 (ck_paging_init L s)) 31"
    by (simp add: ck_paging_init_def ck_paging_enable_def Let_def bit_or_iff)
  ultimately show ?thesis using paging_inv_init [OF assms]
    by (simp add: ck_paging_init_def ck_paging_enable_def Let_def)
qed

theorem paging_init_identity_witness:
  "ck_paging_virt_to_phys sample_layout 0xB8000 (ck_paging_init sample_layout paging_static) = Some 0xB8000"
  using paging_init_identity [OF sample_layout_ok, of paging_static "0xB8000"] by simp

text \<open>
  C9: after a successful \<^verbatim>\<open>ck_paging_map_page\<close> with the present flag, every address of the
  virtual page translates to the same offset in the physical page, and no address of another
  page changes its translation.
\<close>

theorem paging_map_translate:
  assumes "paging_inv L s" "ck_paging_map_page L v p f s = Some (r, s')" "r \<noteq> 0" "present f"
  shows "paging_inv L s' \<and> ck_paging_virt_to_phys L w s' =
    (if same_page v w then Some ((p AND 0xFFFFF000) OR (w AND 0xFFF))
     else ck_paging_virt_to_phys L w s)"
  using asp.map_then_translate [OF assms, of w] asp.map_frame [OF assms(1,2), of w]
    asp.map_total [OF assms(1), of v p f] assms(2) by auto

theorem paging_map_translate_witness:
  "\<exists>s'. ck_paging_map_page sample_layout 0x400000 0x9000 3 (ck_paging_init sample_layout paging_static)
       = Some (1, s') \<and> ck_paging_virt_to_phys sample_layout 0x400123 s' = Some 0x9123"
proof -
  let ?s = "ck_paging_init sample_layout paging_static"
  have inv: "paging_inv sample_layout ?s" by (rule paging_inv_init [OF sample_layout_ok])
  have "present (ck_page_directory ?s 1)"
    using identity_init [of sample_layout paging_static] by (simp add: identity_upto_def present_create)
  then obtain s' where s': "ck_paging_map_page sample_layout 0x400000 0x9000 3 ?s = Some (1, s')"
    by (rule_tac map_page_cases [OF inv, of "0x400000" "0x9000" 3]) (auto simp: unat_pd_index)
  have "same_page 0x400000 0x400123" by (simp add: same_page_def)
  with paging_map_translate [OF inv s', of "0x400123"] s' show ?thesis by simp
qed

text \<open>
  C20: \<^verbatim>\<open>ck_paging_unmap_page\<close> makes exactly the addresses of its page untranslatable.
\<close>

theorem paging_unmap_translate:
  assumes "paging_inv L s"
  shows "\<exists>s'. ck_paging_unmap_page L v s = Some s' \<and> paging_inv L s' \<and>
    (\<forall>w. ck_paging_virt_to_phys L w s' =
       (if same_page v w then Some 0 else ck_paging_virt_to_phys L w s))"
  using asp.unmap_total [OF assms, of v] asp.unmap_then_translate [OF assms, of v] by blast

theorem paging_unmap_translate_witness:
  "\<exists>s'. ck_paging_unmap_page sample_layout 0 (ck_paging_init sample_layout paging_static) = Some s' \<and>
     ck_paging_virt_to_phys sample_layout 0xFFF s' = Some 0"
proof -
  have "same_page 0 0xFFF" by (simp add: same_page_def)
  with paging_unmap_translate [OF paging_inv_init [OF sample_layout_ok], of 0 paging_static]
  show ?thesis by fastforce
qed

text \<open>
  C19: under the invariant no operation follows a pointer outside the 256 page tables, and each
  keeps the invariant; mapping returns only 0 or 1, and 0 exactly when the directory entry is
  absent and all tables are in use.
\<close>

theorem paging_no_wild_pointer:
  assumes "paging_inv L s"
  shows "(\<exists>a. ck_paging_virt_to_phys L v s = Some a) \<and>
    (\<exists>s'. ck_paging_unmap_page L v s = Some s' \<and> paging_inv L s') \<and>
    (\<exists>r s'. ck_paging_map_page L v p f s = Some (r, s') \<and> paging_inv L s' \<and>
       r = (if \<not> present (ck_page_directory s (unat (ck_paging_get_pd_index v))) \<and>
               ck_page_table_count s \<ge> CK_PAGE_TABLE_COUNT then 0 else 1))"
proof -
  have "\<exists>r s'. ck_paging_map_page L v p f s = Some (r, s') \<and> paging_inv L s' \<and>
       r = (if \<not> present (ck_page_directory s (unat (ck_paging_get_pd_index v))) \<and>
               ck_page_table_count s \<ge> CK_PAGE_TABLE_COUNT then 0 else 1)"
  proof (cases "\<not> present (ck_page_directory s (unat (ck_paging_get_pd_index v))) \<and>
      ck_page_table_count s \<ge> CK_PAGE_TABLE_COUNT")
    case True
    then have "ck_paging_map_page L v p f s = Some (0, s)"
      by (simp add: ck_paging_map_page_def Let_def not_present_iff paging_new_table_def)
    with True assms show ?thesis by simp
  next
    case False
    then show ?thesis by (rule_tac map_page_cases [OF assms, of v p f]) auto
  qed
  then show ?thesis using asp.translate_total [OF assms] asp.unmap_total [OF assms] by blast
qed

theorem paging_no_wild_pointer_witness:
  "\<exists>a. ck_paging_virt_to_phys sample_layout 0x1234 (ck_paging_init sample_layout paging_static) = Some a"
  using paging_no_wild_pointer [OF paging_inv_init [OF sample_layout_ok], of "0x1234" paging_static]
  by blast

text \<open>
  C40: boot uses up all 256 page tables on the identity mapping, so from then on mapping any page
  at or above 1 GB (the heap's documented range at 0xD0000000 included) fails and changes nothing.
\<close>

theorem paging_high_half_unmappable:
  assumes "layout_ok L" "unat v \<ge> 2 ^ 30"
  shows "ck_paging_map_page L v p f (ck_paging_init L s) = Some (0, ck_paging_init L s)"
proof -
  let ?pd = "unat (ck_paging_get_pd_index v)"
  have "\<not> ?pd < 256" using assms(2) by (simp add: unat_pd_index div_less_iff_less_mult)
  then have "\<not> present (ck_page_directory (ck_paging_init L s) ?pd)"
    using identity_init [of L s] pd_index_bound [of v] by (simp add: identity_upto_def)
  moreover have "ck_page_table_count (ck_paging_init L s) \<ge> CK_PAGE_TABLE_COUNT"
    using identity_init [of L s] by (simp add: identity_upto_def)
  ultimately show ?thesis
    by (simp add: ck_paging_map_page_def Let_def not_present_iff paging_new_table_def)
qed

theorem paging_high_half_unmappable_witness:
  "ck_paging_map_page sample_layout 0xD0000000 0x180000 3 (ck_paging_init sample_layout paging_static)
     = Some (0, ck_paging_init sample_layout paging_static)"
  using paging_high_half_unmappable [OF sample_layout_ok, of "0xD0000000"] by simp

end
