(* ===== verification/Page_Memory.thy ===== *)
theory Page_Memory
  imports Paging Memory
begin

text \<open>
  The page tables in the memory of the machine. \<^verbatim>\<open>ck_page_tables\<close> of \<^verbatim>\<open>src/src/memory/paging.c\<close> is an array like
  any other: \<open>store_tables\<close> puts it into byte memory where the layout has it, \<open>load_tables\<close> reads it back,
  as the processor does when it walks the tables. Together they connect the tables with code that
  writes to the same memory through pointers of its own.
\<close>

section \<open>Storing and loading\<close>

definition entry_addr :: "paging_layout \<Rightarrow> nat \<Rightarrow> nat \<Rightarrow> u32" where
  "entry_addr L k i = page_table_addr L k + of_nat (4 * i)"

definition store_tables :: "paging_layout \<Rightarrow> paging \<Rightarrow> mem \<Rightarrow> mem" where
  "store_tables L p m = (\<lambda>a. let d = unat (a - page_tables_addr L) in
     if d < 256 * 4096
     then ucast (drop_bit (8 * (d mod 4)) (ck_page_tables p (d div 4096) (d mod 4096 div 4)))
     else m a)"

definition load_tables :: "paging_layout \<Rightarrow> mem \<Rightarrow> paging \<Rightarrow> paging" where
  "load_tables L m p = p\<lparr>ck_page_tables := (\<lambda>k i.
     if k < CK_PAGE_TABLE_COUNT \<and> i < 1024 then rd32 m (entry_addr L k i) else ck_page_tables p k i)\<rparr>"

lemma load_tables_fields [simp]:
  "ck_page_directory (load_tables L m p) = ck_page_directory p"
  "ck_page_table_count (load_tables L m p) = ck_page_table_count p"
  "cr0 (load_tables L m p) = cr0 p" "cr3 (load_tables L m p) = cr3 p"
  by (simp_all add: load_tables_def)

lemma paging_inv_load [simp]: "paging_inv L (load_tables L m p) = paging_inv L p"
  by (simp add: paging_inv_def)

lemma rd32_bytes:
  "m a = ucast v \<Longrightarrow> m (a + 1) = ucast (drop_bit 8 v) \<Longrightarrow> m (a + 2) = ucast (drop_bit 16 v) \<Longrightarrow>
    m (a + 3) = ucast (drop_bit 24 v) \<Longrightarrow> rd32 m a = v"
  using rd32_wr32_same [of a v m] by (simp add: rd32_def wr32_def)

lemma store_byte:
  assumes "k < 256" and "i < 1024" and "j < 4"
  shows "store_tables L p m (entry_addr L k i + of_nat j) = ucast (drop_bit (8 * j) (ck_page_tables p k i))"
proof -
  let ?d = "4096 * k + 4 * i + j"
  have e: "entry_addr L k i + of_nat j - page_tables_addr L = of_nat ?d"
    by (simp add: entry_addr_def page_table_addr_def algebra_simps)
  have "?d < 256 * 4096" using assms by linarith
  then have d: "unat (entry_addr L k i + of_nat j - page_tables_addr L) = ?d"
    unfolding e by (intro unat_of_nat_u32) simp
  have "4 * i + j < 4096" using assms by linarith
  then have "(4 * i + j + k * 4096) div 4096 = k" "(4 * i + j + k * 4096) mod 4096 = 4 * i + j"
    by simp_all
  then have "?d div 4096 = k" "?d mod 4096 = 4 * i + j" by (simp_all add: algebra_simps)
  moreover have "(4 * i + j) div 4 = i" using assms(3) by simp
  moreover have "?d mod 4 = j"
  proof -
    have "?d = 4 * (1024 * k + i) + j" by simp
    then show ?thesis using assms(3) by (simp only: mod_mult_self4 mod_less)
  qed
  ultimately show ?thesis using \<open>?d < 256 * 4096\<close> unfolding store_tables_def Let_def d by simp
qed

lemma rd32_store:
  assumes "k < 256" and "i < 1024"
  shows "rd32 (store_tables L p m) (entry_addr L k i) = ck_page_tables p k i"
  using store_byte [OF assms, of 0 L p m] store_byte [OF assms, of 1 L p m] store_byte [OF assms, of 2 L p m]
    store_byte [OF assms, of 3 L p m]
  by (intro rd32_bytes) simp_all

lemma rd32_cong:
  assumes "\<And>j. j < 4 \<Longrightarrow> m' (a + of_nat j) = m (a + of_nat j)"
  shows "rd32 m' a = rd32 m a"
  using assms [of 0] assms [of 1] assms [of 2] assms [of 3] by (simp add: rd32_def)

section \<open>Translation through memory\<close>

text \<open>After \<^verbatim>\<open>ck_paging_init\<close>: a page is translated by the word of memory at its entry.\<close>

abbreviation pd_of :: "u32 \<Rightarrow> nat" where "pd_of v \<equiv> unat (ck_paging_get_pd_index v)"
abbreviation pt_of :: "u32 \<Rightarrow> nat" where "pt_of v \<equiv> unat (ck_paging_get_pt_index v)"

lemma virt_to_phys_loaded:
  assumes "layout_ok L" and "unat v < 2 ^ 30"
  shows "ck_paging_virt_to_phys L v (load_tables L m (ck_paging_init L s)) =
    (let e = rd32 m (entry_addr L (pd_of v) (pt_of v)) in
     Some (if present e then (e AND 0xFFFFF000) OR (v AND 0xFFF) else 0))"
proof -
  have pd: "pd_of v < 256" using assms(2) by (simp add: unat_pd_index div_less_iff_less_mult)
  have "ck_page_directory (ck_paging_init L s) (pd_of v) =
      ck_paging_create_pde (page_table_addr L (pd_of v)) CK_PAGE_KERNEL"
    using identity_init [of L s] pd unfolding identity_upto_def by simp
  then have "entry_of L (load_tables L m (ck_paging_init L s)) v = rd32 m (entry_addr L (pd_of v) (pt_of v))"
    using page_table_at_pde [OF assms(1) pd] pd pt_index_bound [of v]
    by (simp add: entry_of_def Let_def present_create load_tables_def)
  moreover have "paging_inv L (load_tables L m (ck_paging_init L s))"
    using paging_inv_init [OF assms(1)] by simp
  ultimately show ?thesis using asp.translate_law [of L "load_tables L m (ck_paging_init L s)" v] by (simp add: Let_def)
qed

text \<open>A page whose entry in memory is untouched since the tables were stored is still mapped to itself.\<close>

lemma loaded_identity:
  assumes "layout_ok L" and "unat v < 2 ^ 30"
    and "\<And>j. j < 4 \<Longrightarrow> m' (entry_addr L (pd_of v) (pt_of v) + of_nat j) =
      store_tables L (ck_paging_init L s) m (entry_addr L (pd_of v) (pt_of v) + of_nat j)"
  shows "ck_paging_virt_to_phys L v (load_tables L m' (ck_paging_init L s)) = Some v"
proof -
  let ?s = "ck_paging_init L s"
  have pd: "pd_of v < 256" using assms(2) by (simp add: unat_pd_index div_less_iff_less_mult)
  have "rd32 m' (entry_addr L (pd_of v) (pt_of v)) = ck_page_tables ?s (pd_of v) (pt_of v)"
    using rd32_cong [where a = "entry_addr L (pd_of v) (pt_of v)" and m' = m' and m = "store_tables L ?s m", OF assms(3)] rd32_store [OF pd pt_index_bound [of v]] by simp
  also have "\<dots> = rd32 (store_tables L ?s m) (entry_addr L (pd_of v) (pt_of v))"
    using rd32_store [OF pd pt_index_bound [of v]] by simp
  finally have "ck_paging_virt_to_phys L v (load_tables L m' ?s) =
      ck_paging_virt_to_phys L v (load_tables L (store_tables L ?s m) ?s)"
    by (simp add: virt_to_phys_loaded [OF assms(1,2)])
  also have "load_tables L (store_tables L ?s m) ?s = ?s"
    by (simp add: load_tables_def rd32_store cong: if_cong)
  finally show ?thesis using virt_to_phys_init [OF assms(1), of v s] assms(2) by simp
qed

end
