(* ===== verification/Boot.thy ===== *)
theory Boot
  imports Shell Drivers Page_Memory "HOL-Library.Monad_Syntax"
begin

text \<open>
  The boot sequence, \<^verbatim>\<open>src/src/kernel/ck_kernel.c\<close>: the boot console and \<^verbatim>\<open>ck_main\<close>, which initialises
  every component in order, creates the three demo tasks and enters the shell. What the linker and the
  hardware decide (addresses of the stubs and tables, the masks read from the interrupt controllers, the
  contents of memory and the interrupts that arrive once they are enabled) is a record of parameters.
\<close>

section \<open>The boot console\<close>

abbreviation VGA_COLOR :: u8 where "VGA_COLOR \<equiv> 0x0F"

definition boot_clear_screen :: "console \<Rightarrow> console" where
  "boot_clear_screen = (\<lambda>(ck_boot_cursor, cells).
     (0, for_loop 0 VGA_MEMSIZE (\<lambda>i cells. cells(i := vga_cell VGA_COLOR CHR 0x20)) cells))"

definition boot_write_char :: "char \<Rightarrow> console \<Rightarrow> console" where
  "boot_write_char c = (\<lambda>(ck_boot_cursor, cells).
     if ck_boot_cursor \<ge> 2000 then (ck_boot_cursor, cells)
     else (ck_boot_cursor + 1, cells(unat ck_boot_cursor := vga_cell VGA_COLOR c)))"

definition boot_newline :: "console \<Rightarrow> console" where
  "boot_newline = (\<lambda>(ck_boot_cursor, cells).
     let line = unat ck_boot_cursor div VGA_WIDTH in (of_nat ((line + 1) * VGA_WIDTH), cells))"

fun boot_write_string :: "string \<Rightarrow> console \<Rightarrow> console" where
  "boot_write_string [] con = con"
| "boot_write_string (c # str) con =
     boot_write_string str (if c = CHR 0x0A then boot_newline con else boot_write_char c con)"

section \<open>\<open>ck_main\<close>\<close>

record boot_params =
  bp_default_stub :: u32
  bp_idt_addr :: u32
  bp_exception_stubs :: "nat \<Rightarrow> u32"
  bp_irq_stubs :: "nat \<Rightarrow> u32"
  bp_master_mask :: u8
  bp_slave_mask :: u8
  bp_layout :: paging_layout
  bp_early_irqs :: "(u8 \<times> u8) list"
  bp_stack_garbage :: "char carray"

record machine =
  m_console :: console
  m_ports :: "port_io list"
  m_idt :: idt
  m_drivers :: drivers
  m_paging :: paging
  m_heap :: heap
  m_sched :: scheduler
  m_interrupts :: bool

text \<open>The messages and the interrupt half of the sequence.\<close>

definition boot_say :: "string \<Rightarrow> machine \<Rightarrow> machine" where
  "boot_say str m = m\<lparr>m_console := boot_write_string str (m_console m)\<rparr>"

definition ck_boot_delay :: "machine \<Rightarrow> machine" where
  "ck_boot_delay m = for_loop 0 50000000 (\<lambda>i m. m) m"

definition boot_interrupts :: "boot_params \<Rightarrow> machine \<Rightarrow> machine" where
  "boot_interrupts P m0 =
     (let m = m0\<lparr>m_interrupts := False, m_console := boot_clear_screen (m_console m0)\<rparr>;
          m = ck_boot_delay (boot_say (ln ''CheesecakeOS v1.0'') m);
          m = ck_boot_delay (boot_say (ln ''Initializing IDT...'') m);
          m = m\<lparr>m_idt := ck_idt_init (bp_default_stub P) (bp_idt_addr P) (m_idt m)\<rparr>;
          m = ck_boot_delay (boot_say (ln ''Initializing PIC...'') m);
          m = m\<lparr>m_idt := ck_exceptions_init (bp_exception_stubs P) (m_idt m)\<rparr>;
          m = m\<lparr>m_ports := m_ports m @ ck_pic_init (bp_master_mask P) (bp_slave_mask P)\<rparr>;
          m = ck_boot_delay (boot_say (ln ''Initializing IRQs...'') m);
          (table, gates) = ck_irq_init (bp_irq_stubs P) (irq_handlers (m_drivers m), m_idt m);
          m = m\<lparr>m_idt := gates, m_drivers := (m_drivers m)\<lparr>irq_handlers := table\<rparr>\<rparr>;
          m = ck_boot_delay (boot_say (ln ''Initializing Timer...'') m);
          (table, ios) = ck_timer_init (irq_handlers (m_drivers m));
          m = m\<lparr>m_ports := m_ports m @ ios, m_drivers := (m_drivers m)\<lparr>irq_handlers := table\<rparr>\<rparr>;
          m = ck_boot_delay (boot_say (ln ''Initializing Keyboard...'') m)
      in m\<lparr>m_drivers := (m_drivers m)\<lparr>irq_handlers := ck_keyboard_init (irq_handlers (m_drivers m))\<rparr>\<rparr>)"

text \<open>
  The memory half. The page tables are in the memory that the heap writes to, so they are stored there
  before the heap is initialised, and \<open>ck_main\<close> reads them back when the heap is set up; nothing in
  between looks at them.
\<close>

definition boot_memory :: "boot_params \<Rightarrow> machine \<Rightarrow> machine" where
  "boot_memory P m0 =
     (let m = ck_boot_delay (boot_say (ln ''Initializing Memory Manager...'') m0);
          m = m\<lparr>m_heap := (m_heap m)\<lparr>hp_pmem := ck_pmem_init (hp_pmem (m_heap m))\<rparr>\<rparr>;
          m = m\<lparr>m_paging := ck_paging_init (bp_layout P) (m_paging m)\<rparr>;
          m = m\<lparr>m_heap := (m_heap m)\<lparr>hp_mem := store_tables (bp_layout P) (m_paging m) (hp_mem (m_heap m))\<rparr>\<rparr>
      in m\<lparr>m_heap := ck_heap_init (m_heap m)\<rparr>)"

text \<open>The tasks: the return value of \<^verbatim>\<open>ck_task_create\<close> is ignored.\<close>

definition boot_task :: "ck_task_entry_t \<Rightarrow> machine \<Rightarrow> machine option" where
  "boot_task entry m =
     (case ck_task_create True (Some entry) 4096 (m_sched m) (m_heap m) of
        None \<Rightarrow> None
      | Some (r, out, s, h) \<Rightarrow> Some (m\<lparr>m_sched := s, m_heap := h\<rparr>))"

definition boot_tasks :: "machine \<Rightarrow> machine option" where
  "boot_tasks m0 =
     (let m = ck_boot_delay (boot_say (ln ''Initializing Scheduler...'') m0);
          m = m\<lparr>m_sched := ck_scheduler_init (m_sched m)\<rparr>
      in do {
        m1 \<leftarrow> boot_task ck_task_demo_1_fn m;
        m2 \<leftarrow> boot_task ck_task_demo_2_fn m1;
        boot_task ck_task_demo_3_fn m2
      })"

text \<open>
  The state of the shell at its entry: its own statics, the locals of \<^verbatim>\<open>ck_shell_run\<close>, and the
  components as the boot sequence leaves them.
\<close>

definition shell_entry :: "boot_params \<Rightarrow> machine \<Rightarrow> shell" where
  "shell_entry P m = \<lparr>tty = \<lparr>cells = snd (m_console m), ports = m_ports m, ck_cursor_pos = 0\<rparr>,
     sh_history = history_static, last_ticks = 0, input_buffer = bp_stack_garbage P, input_len = 0,
     sh_tasks = tasks_static, sh_sched = m_sched m, sh_kbd = kbd (m_drivers m), sh_heap = m_heap m,
     sh_prev_counters = (\<lambda>_. 0), halted = False\<rparr>"

definition ck_main :: "boot_params \<Rightarrow> machine \<Rightarrow> (machine \<times> shell) option" where
  "ck_main P m0 =
     (case boot_tasks (boot_memory P (boot_interrupts P m0)) of
        None \<Rightarrow> None
      | Some m \<Rightarrow>
          let m = ck_boot_delay (boot_say (CHR 0x0A # ln ''System Ready.'') m);
              m = m\<lparr>m_paging := load_tables (bp_layout P) (hp_mem (m_heap m)) (m_paging m)\<rparr>;
              m = m\<lparr>m_interrupts := True\<rparr>;
              m = m\<lparr>m_drivers := hardware_irqs (bp_early_irqs P) (m_drivers m)\<rparr>
          in Some (m, ck_shell_start (ck_timer_get_ticks (tmr (m_drivers m))) (shell_entry P m)))"

lemma ck_boot_delay_id [simp]: "ck_boot_delay m = m"
proof -
  have "fold (\<lambda>i m. m) xs m = m" for xs :: "nat list" by (induction xs) simp_all
  then show ?thesis by (simp only: ck_boot_delay_def for_loop_def)
qed

section \<open>The free list as a list of headers\<close>

text \<open>
  \<open>headers m p bs\<close>: following the list from \<open>p\<close> shows the addresses, sizes and marks \<open>bs\<close> and then ends.
  Unlike the invariant of the heap this says nothing about what the blocks cover, so that it also
  describes the heap the boot sequence makes.
\<close>

type_synonym header = "u32 \<times> u32 \<times> u8"

fun headers :: "mem \<Rightarrow> u32 \<Rightarrow> header list \<Rightarrow> bool" where
  "headers m p [] \<longleftrightarrow> p = 0"
| "headers m p ((a, sz, al) # bs) \<longleftrightarrow> p = a \<and> a \<noteq> 0 \<and> hdr_size m a = sz \<and> hdr_allocated m a = al \<and>
     headers m (hdr_next m a) bs"

lemma headers_chain: "headers m p bs \<Longrightarrow> chain m p (map fst bs)"
  by (induction m p bs rule: headers.induct) auto

lemma headers_frame:
  assumes "\<And>a. a \<in> fst ` set bs \<Longrightarrow> hdr_size m' a = hdr_size m a \<and> hdr_allocated m' a = hdr_allocated m a \<and>
      hdr_next m' a = hdr_next m a"
  shows "headers m' p bs = headers m p bs"
  using assms by (induction m p bs rule: headers.induct) auto

lemma headers_find:
  "headers m p bs \<Longrightarrow> find (fits m t) (map fst bs) = map_option fst (find (\<lambda>(a, sz, al). al = 0 \<and> sz \<ge> t) bs)"
  by (induction m p bs rule: headers.induct) (auto simp: fits_def)

lemma headers_search:
  assumes "headers m p (bs @ [(b, sz, 0)])" and "\<forall>(a, n, al) \<in> set bs. al \<noteq> 0"
  shows "malloc_search m t p = Some (if sz \<ge> t then b else 0)"
proof -
  have "find (\<lambda>(a, n, al). al = 0 \<and> n \<ge> t) bs = None" using assms(2) by (auto simp: find_None_iff)
  then have "find (\<lambda>(a, n, al). al = 0 \<and> n \<ge> t) (bs @ [(b, sz, 0)]) = (if sz \<ge> t then Some (b, sz, 0) else None)"
    by (induction bs) (auto split: if_splits)
  then show ?thesis
    using malloc_search_chain [OF headers_chain [OF assms(1)], of t] headers_find [OF assms(1), of t] by simp
qed


text \<open>Writing a header elsewhere does not disturb a list.\<close>

lemma headers_write:
  assumes "\<And>a. a \<in> fst ` set bs \<Longrightarrow> apart a q"
  shows "headers (set_size q v m) p bs = headers m p bs" "headers (set_next q v m) p bs = headers m p bs"
    "headers (set_allocated q x m) p bs = headers m p bs"
  by (rule headers_frame, intro conjI header_read_apart assms, assumption+)+

lemma headers_append:
  "headers m p (bs @ cs) \<longleftrightarrow> (\<exists>q. segment m p (map fst bs) q \<and>
     (\<forall>(a, sz, al) \<in> set bs. hdr_size m a = sz \<and> hdr_allocated m a = al) \<and> headers m q cs)"
  by (induction m p bs rule: headers.induct) auto

text \<open>A block that does not fit in the page it is given goes in front of the list.\<close>

lemma headers_grow:
  assumes "headers m p bs" and "\<And>b. b \<in> fst ` set bs \<Longrightarrow> apart b a" and "a \<noteq> 0"
  shows "headers (set_next a p (set_allocated a 1 (set_size a t m))) a ((a, t, 1) # bs)"
  using assms by (simp add: headers_write)

text \<open>The last block of the list is split and its front part taken.\<close>

lemma headers_split:
  fixes b t sz :: u32
  assumes h: "headers m p (bs @ [(b, sz, 0)])"
    and ap: "\<And>a. a \<in> fst ` set bs \<Longrightarrow> apart a b" "\<And>a. a \<in> fst ` set bs \<Longrightarrow> apart a (b + t)" "apart b (b + t)"
    and nz: "b + t \<noteq> 0"
  shows "headers (set_allocated b 1 (malloc_split t b m)) p (bs @ [(b, t, 1), (b + t, sz - t, 0)])"
proof -
  let ?m = "set_allocated b 1 (malloc_split t b m)"
  have b: "hdr_size m b = sz" "hdr_allocated m b = 0" "hdr_next m b = 0" "b \<noteq> 0"
    using h unfolding headers_append by auto
  have old: "hdr_size ?m a = hdr_size m a \<and> hdr_allocated ?m a = hdr_allocated m a \<and> hdr_next ?m a = hdr_next m a"
    if "a \<in> fst ` set bs" for a
    using ap(1,2) [OF that] by (simp add: malloc_split_def Let_def header_read_apart)
  have new: "headers ?m b [(b, t, 1), (b + t, sz - t, 0)]"
    using ap(3) apart_sym [OF ap(3)] b nz by (simp add: malloc_split_def Let_def header_read_apart)
  obtain q where q: "segment m p (map fst bs) q"
    "\<forall>(a, n, al) \<in> set bs. hdr_size m a = n \<and> hdr_allocated m a = al" "q = b"
    using h unfolding headers_append by auto
  have "segment ?m p (map fst bs) q"
    using q(1) old by (subst segment_cong [where m = m]) auto
  moreover have "\<forall>(a, n, al) \<in> set bs. hdr_size ?m a = n \<and> hdr_allocated ?m a = al"
  proof (clarify)
    fix a n al
    assume i: "(a, n, al) \<in> set bs"
    then have "a \<in> fst ` set bs" by force
    from old [OF this] q(2) i show "hdr_size ?m a = n \<and> hdr_allocated ?m a = al" by auto
  qed
  ultimately show ?thesis using new q(3) unfolding headers_append by blast
qed


section \<open>Creating the boot tasks\<close>

text \<open>
  The heap between two creations of tasks: allocated blocks \<open>bs\<close>, then one free block \<open>(b, sz)\<close> that
  is too small for a stack and large enough for saved registers; the first \<open>k\<close> pages are in use. Of
  the memory \<open>M\<close> from before, only the headers of these blocks have been overwritten.
\<close>

definition only_headers :: "u32 set \<Rightarrow> mem \<Rightarrow> mem \<Rightarrow> bool" where
  "only_headers A m0 m \<longleftrightarrow> (\<forall>x. (\<forall>a \<in> A. 12 \<le> unat (x - a)) \<longrightarrow> m x = m0 x)"

definition boot_heap :: "mem \<Rightarrow> nat \<Rightarrow> header list \<Rightarrow> u32 \<Rightarrow> u32 \<Rightarrow> heap \<Rightarrow> bool" where
  "boot_heap M k bs b sz h \<longleftrightarrow> headers (hp_mem h) (ck_heap_freelist h) (bs @ [(b, sz, 0)]) \<and>
     (\<forall>(a, n, al) \<in> set bs. al \<noteq> 0) \<and> 44 < unat sz \<and> unat sz \<le> 4096 \<and>
     pmem_inv (hp_pmem h) \<and> used_set (hp_pmem h) = {..<k} \<and> 0 < k \<and> k < 1000 \<and>
     unat (ck_heap_size h) \<le> k * 4096 \<and> only_headers (insert b (fst ` set bs)) M (hp_mem h)"

lemma boot_heap_search:
  "boot_heap M k bs b sz h \<Longrightarrow> malloc_search (hp_mem h) t (ck_heap_freelist h) = Some (if sz \<ge> t then b else 0)"
  unfolding boot_heap_def by (blast intro: headers_search)

lemma boot_malloc_stack:
  fixes k :: nat
  defines "page \<equiv> of_nat k * CK_PAGE_SIZE :: u32"
  assumes h: "boot_heap M k bs b sz h" and k1: "Suc k < 1000" and ap: "\<And>a. a \<in> insert b (fst ` set bs) \<Longrightarrow> apart a page"
  obtains h' where "ck_malloc 4096 h = Some (page + 12, h')" "boot_heap M (Suc k) ((page, 4108, 1) # bs) b sz h'"
proof -
  have k: "k < CK_MAX_PAGES" using h by (simp add: boot_heap_def)
  have "page \<noteq> 0" using unat_page_addr [OF k] h by (auto simp: page_def boot_heap_def word_unat_eq_iff)
  obtain pm where pm: "ck_pmem_alloc_page (hp_pmem h) = (page, pm)" "used_set pm = {..<Suc k}" "pmem_inv pm"
    using alloc_next [of "hp_pmem h" k] h k by (auto simp: boot_heap_def page_def prod_eq_iff)
  have search: "malloc_search (hp_mem h) 4108 (ck_heap_freelist h) = Some 0"
    using boot_heap_search [OF h] h by (simp add: boot_heap_def u32_le_unat)
  have size: "unat (ck_heap_size h + 4108) = unat (ck_heap_size h) + 4108" "unat (ck_heap_size h + 4096) = unat (ck_heap_size h) + 4096"
    using h by (auto intro!: unat_add_u32 [THEN trans] simp: boot_heap_def)
  then have "\<not> ck_heap_size h + 4108 > CK_HEAP_MAX_SIZE" using h by (simp add: boot_heap_def u32_less_unat)
  with pm \<open>page \<noteq> 0\<close> have e: "ck_heap_expand 4108 h = (page, h\<lparr>hp_pmem := pm, ck_heap_size := ck_heap_size h + 4096\<rparr>)"
    by (simp add: ck_heap_expand_def)
  let ?m = "set_next page (ck_heap_freelist h) (set_allocated page 1 (set_size page 4108 (hp_mem h)))"
  let ?h = "h\<lparr>hp_pmem := pm, ck_heap_size := ck_heap_size h + 4096, hp_mem := ?m, ck_heap_freelist := page,
     ck_heap_total_allocated := ck_heap_total_allocated h + 4108\<rparr>"
  have m: "ck_malloc 4096 h = Some (page + 12, ?h)"
    using search e \<open>page \<noteq> 0\<close> by (simp add: ck_malloc_def malloc_grow_def)
  have "headers ?m page ((page, 4108, 1) # bs @ [(b, sz, 0)])"
    using h ap \<open>page \<noteq> 0\<close> by (intro headers_grow) (auto simp: boot_heap_def)
  moreover have "only_headers (insert b (fst ` set ((page, 4108, 1) # bs))) M ?m"
    using h by (simp add: boot_heap_def only_headers_def header_write_other)
  ultimately have "boot_heap M (Suc k) ((page, 4108, 1) # bs) b sz ?h"
    using h pm size k1 by (simp add: boot_heap_def)
  with m show ?thesis by (rule that)
qed

lemma boot_malloc_regs:
  assumes h: "boot_heap M k bs b sz h" and sz: "88 < unat sz"
    and ap: "\<And>a. a \<in> fst ` set bs \<Longrightarrow> apart a b \<and> apart a (b + 44)" "apart b (b + 44)" and nz: "b + 44 \<noteq> 0"
  obtains h' where "ck_malloc 32 h = Some (b + 12, h')" "boot_heap M k (bs @ [(b, 44, 1)]) (b + 44) (sz - 44) h'"
proof -
  have search: "malloc_search (hp_mem h) 44 (ck_heap_freelist h) = Some b"
    using boot_heap_search [OF h] sz by (simp add: u32_le_unat)
  have hd: "headers (hp_mem h) (ck_heap_freelist h) (bs @ [(b, sz, 0)])" using h by (simp add: boot_heap_def)
  then have b: "hdr_size (hp_mem h) b = sz" "b \<noteq> 0" unfolding headers_append by auto
  let ?h = "h\<lparr>hp_mem := set_allocated b 1 (malloc_split 44 b (hp_mem h)),
      ck_heap_total_allocated := ck_heap_total_allocated h + 44\<rparr>"
  have "44 < sz" using sz by (simp add: u32_less_unat)
  then have "ck_malloc 32 h = Some (b + 12, ?h)"
    using search b by (simp add: ck_malloc_def malloc_take_def)
  moreover have "headers (hp_mem ?h) (ck_heap_freelist ?h) (bs @ [(b, 44, 1), (b + 44, sz - 44, 0)])"
    using headers_split [OF hd _ _ ap(2) nz] ap(1) by simp
  moreover have "unat (sz - 44) = unat sz - 44" using sz by (simp add: unat_diff_u32)
  moreover have "only_headers (insert (b + 44) (fst ` set (bs @ [(b, 44, 1)]))) M (hp_mem ?h)"
    using h by (simp add: boot_heap_def only_headers_def header_write_other malloc_split_def Let_def)
  ultimately have "boot_heap M k (bs @ [(b, 44, 1)]) (b + 44) (sz - 44) ?h"
    using h sz by (auto simp: boot_heap_def)
  with \<open>ck_malloc 32 h = _\<close> show ?thesis by (rule that)
qed

text \<open>One task: a page for its stack, the front of the free block for its registers.\<close>

lemma boot_task_create:
  fixes k :: nat
  defines "page \<equiv> of_nat k * CK_PAGE_SIZE :: u32"
  assumes h: "boot_heap M k bs b sz h" and k1: "Suc k < 1000" and sz: "88 < unat sz" and cnt: "unat (ck_task_count s) < 8"
    and ap: "\<And>a. a \<in> insert b (fst ` set bs) \<Longrightarrow> apart a page"
      "\<And>a. a \<in> insert page (fst ` set bs) \<Longrightarrow> apart a b \<and> apart a (b + 44)" "apart b (b + 44)"
    and nz: "b + 44 \<noteq> 0" "page + 12 \<noteq> 0" "b + 12 \<noteq> 0"
  defines "task \<equiv> \<lambda>fn. new_task (ck_task_count s) fn (b + 12) (page + 12) 4096"
  obtains h' where "boot_heap M (Suc k) ((page, 4108, 1) # bs @ [(b, 44, 1)]) (b + 44) (sz - 44) h'"
    "\<And>fn. ck_task_create True (Some fn) 4096 s h = Some (sint (ck_task_count s), Some (task fn),
      s\<lparr>ck_task_table := (ck_task_table s)(unat (ck_task_count s) := task fn), ck_task_count := ck_task_count s + 1\<rparr>, h')"
proof -
  obtain h1 where 1: "ck_malloc 4096 h = Some (page + 12, h1)" "boot_heap M (Suc k) ((page, 4108, 1) # bs) b sz h1"
    by (rule boot_malloc_stack [OF h k1]) (use ap(1) in \<open>auto simp: page_def\<close>)
  obtain h2 where 2: "ck_malloc 32 h1 = Some (b + 12, h2)"
    "boot_heap M (Suc k) (((page, 4108, 1) # bs) @ [(b, 44, 1)]) (b + 44) (sz - 44) h2"
    by (rule boot_malloc_regs [OF 1(2) sz _ ap(3) nz(1)]) (use ap(2) in auto)
  have "ck_task_create True (Some fn) 4096 s h = Some (sint (ck_task_count s), Some (task fn),
      s\<lparr>ck_task_table := (ck_task_table s)(unat (ck_task_count s) := task fn), ck_task_count := ck_task_count s + 1\<rparr>, h2)" for fn
    using 1(1) 2(1) cnt nz by (simp add: ck_task_create_def sizeof_ck_registers_def u32_le_unat Let_def task_def)
  with 2(2) show ?thesis by (intro that [of h2]) simp_all
qed

text \<open>The three heaps on which the boot sequence creates its tasks can serve the stacks.\<close>

lemma boot_heap_served:
  assumes h: "boot_heap M k bs b sz h"
    and pages: "\<And>a. a \<in> insert b (fst ` set bs) \<Longrightarrow> unat a div 4096 < k \<and> unat a mod 4096 + 12 \<le> 4096"
  shows "stack_served {} (map fst bs @ [b]) 4096 h"
proof -
  have hd: "headers (hp_mem h) (ck_heap_freelist h) (bs @ [(b, sz, 0)])"
    and inv: "pmem_inv (hp_pmem h)" "used_set (hp_pmem h) = {..<k}" "0 < k" "k < 1000"
    and sz: "unat sz \<le> 4096" and al: "\<forall>(a, n, al) \<in> set bs. al \<noteq> 0"
    using h by (simp_all add: boot_heap_def)
  have "hdr_size (hp_mem h) b = sz" "\<forall>(a, n, al) \<in> set bs. hdr_allocated (hp_mem h) a = al"
    using hd by (auto simp: headers_append)
  with al sz have small: "hdr_size (hp_mem h) x \<le> 4096"
    if "x \<in> set (map fst bs @ [b])" "hdr_allocated (hp_mem h) x = 0" for x
    using that by (fastforce simp: u32_le_unat)
  have "\<exists>p \<in> {..<k}. p < CK_MAX_PAGES \<and> p * 4096 \<le> unat x \<and> unat x + 12 \<le> Suc p * 4096"
    if "x \<in> set (map fst bs @ [b])" for x
  proof -
    have "unat x div 4096 < k" "unat x mod 4096 + 12 \<le> 4096" using pages [of x] that by auto
    moreover have "unat x div 4096 * 4096 \<le> unat x" "unat x = unat x div 4096 * 4096 + unat x mod 4096"
      by simp_all
    then have "unat x + 12 \<le> Suc (unat x div 4096) * 4096"
      using calculation(2) unfolding mult_Suc by linarith
    ultimately show ?thesis using inv(4) by (intro bexI [of _ "unat x div 4096"]) simp_all
  qed
  with inv small headers_chain [OF hd] show ?thesis by (simp add: stack_served_def headers_wf_def)
qed

lemma boot_heaps_served:
  "boot_heap M 385 [] 0x180000 4096 h \<Longrightarrow> stack_served {} [0x180000] 4096 h"
  "boot_heap M 386 [(0x181000, 4108, 1), (0x180000, 44, 1)] 0x18002C 4052 h \<Longrightarrow>
    stack_served {} [0x181000, 0x180000, 0x18002C] 4096 h"
  "boot_heap M 387 [(0x182000, 4108, 1), (0x181000, 4108, 1), (0x180000, 44, 1), (0x18002C, 44, 1)] 0x180058 4008 h \<Longrightarrow>
    stack_served {} [0x182000, 0x181000, 0x180000, 0x18002C, 0x180058] 4096 h"
  by (drule boot_heap_served; auto)+

text \<open>The heap after \<^verbatim>\<open>ck_pmem_init\<close> and \<^verbatim>\<open>ck_heap_init\<close>, and after the three tasks.\<close>

lemma boot_heap_init: "boot_heap (hp_mem h) 385 [] 0x180000 4096 (ck_heap_init (h\<lparr>hp_pmem := ck_pmem_init pm\<rparr>))"
  using heap_init_page [of "h\<lparr>hp_pmem := ck_pmem_init pm\<rparr>" 384] alloc_next [of "ck_pmem_init pm" 384]
  by (simp add: boot_heap_def init_state only_headers_def header_write_other)

definition boot_blocks :: "header list" where
  "boot_blocks = [(0x183000, 4108, 1), (0x182000, 4108, 1), (0x181000, 4108, 1),
     (0x180000, 44, 1), (0x18002C, 44, 1), (0x180058, 44, 1)]"

definition boot_table :: "ck_task list" where
  "boot_table = [new_task 0 ck_task_demo_1_fn 0x18000C 0x18100C 4096,
     new_task 1 ck_task_demo_2_fn 0x180038 0x18200C 4096, new_task 2 ck_task_demo_3_fn 0x180064 0x18300C 4096]"

lemma boot_three_tasks:
  assumes "boot_heap M 385 [] 0x180000 4096 (m_heap m)"
  obtains s h where "boot_tasks m = Some ((boot_say (ln ''Initializing Scheduler...'') m)\<lparr>m_sched := s, m_heap := h\<rparr>)"
    "boot_heap M 388 boot_blocks 0x180084 3964 h" "ck_task_count s = 3" "\<And>i. i < 3 \<Longrightarrow> ck_task_table s i = boot_table ! i"
    "sched_inv s" "ck_context_switches s = 0"
proof -
  let ?s0 = "ck_scheduler_init (m_sched m)"
  let ?step = "\<lambda>s t. s\<lparr>ck_task_table := (ck_task_table s)(unat (ck_task_count s) := t), ck_task_count := ck_task_count s + 1\<rparr>"
  let ?s1 = "?step ?s0 (boot_table ! 0)"
  let ?s2 = "?step ?s1 (boot_table ! 1)"
  let ?s3 = "?step ?s2 (boot_table ! 2)"
  have c: "ck_task_count ?s0 = 0" by (simp add: ck_scheduler_init_def)
  obtain h1 where 1: "boot_heap M 386 [(0x181000, 4108, 1), (0x180000, 44, 1)] 0x18002C 4052 h1"
    "ck_task_create True (Some ck_task_demo_1_fn) 4096 ?s0 (m_heap m) = Some (sint (ck_task_count ?s0), Some (boot_table ! 0), ?s1, h1)"
    by (rule boot_task_create [OF assms, of ?s0]) (simp_all add: c apart_def boot_table_def)
  obtain h2 where 2: "boot_heap M 387 [(0x182000, 4108, 1), (0x181000, 4108, 1), (0x180000, 44, 1), (0x18002C, 44, 1)] 0x180058 4008 h2"
    "ck_task_create True (Some ck_task_demo_2_fn) 4096 ?s1 h1 = Some (sint (ck_task_count ?s1), Some (boot_table ! 1), ?s2, h2)"
    by (rule boot_task_create [OF 1(1), of ?s1]) (auto simp add: c apart_def boot_table_def)
  obtain h3 where 3: "boot_heap M 388 boot_blocks 0x180084 3964 h3"
    "ck_task_create True (Some ck_task_demo_3_fn) 4096 ?s2 h2 = Some (sint (ck_task_count ?s2), Some (boot_table ! 2), ?s3, h3)"
    by (rule boot_task_create [OF 2(1), of ?s2]) (auto simp add: c apart_def boot_table_def boot_blocks_def)
  show ?thesis
  proof (rule that [where s = ?s3 and h = h3])
    show "boot_tasks m = Some ((boot_say (ln ''Initializing Scheduler...'') m)\<lparr>m_sched := ?s3, m_heap := h3\<rparr>)"
      using 1(2) 2(2) 3(2) by (simp add: boot_tasks_def boot_task_def boot_say_def)
    show "sched_inv ?s3"
      by (rule task_create_inv [OF task_create_inv [OF task_create_inv [OF scheduler_init_inv 1(2)] 2(2)] 3(2)])
    show "ck_task_table ?s3 i = boot_table ! i" if "i < 3" for i
      using that by (auto simp: c less_Suc_eq numeral_3_eq_3)
    show "ck_context_switches ?s3 = 0" by (simp add: ck_scheduler_init_def)
  qed (use 3(1) c in simp_all)
qed


section \<open>The boot console shows a log\<close>

text \<open>The character a list of lines shows at a cell; the console with its cursor below the last line.\<close>

definition log_char :: "string list \<Rightarrow> nat \<Rightarrow> char" where
  "log_char ls i =
     (if i div VGA_WIDTH < length ls \<and> i mod VGA_WIDTH < length (ls ! (i div VGA_WIDTH))
      then ls ! (i div VGA_WIDTH) ! (i mod VGA_WIDTH) else CHR '' '')"

definition shows_log :: "string list \<Rightarrow> vga \<Rightarrow> console \<Rightarrow> bool" where
  "shows_log ls v0 con \<longleftrightarrow> length ls < VGA_HEIGHT \<and> fst con = of_nat (length ls * VGA_WIDTH) \<and>
     (\<forall>i. snd con i = (if i < VGA_MEMSIZE then vga_cell VGA_COLOR (log_char ls i) else v0 i))"

lemma shows_log_clear: "shows_log [] v0 (boot_clear_screen (cur, v0))"
  by (simp add: shows_log_def boot_clear_screen_def log_char_def for_loop_fill)

lemma boot_write_puts:
  "CHR 0x0A \<notin> set str \<Longrightarrow> boot_write_string str con = puts_clipped VGA_COLOR str con"
  by (induction str arbitrary: con) (auto simp: boot_write_char_def put_clipped_def)

lemma boot_write_append: "boot_write_string (xs @ ys) con = boot_write_string ys (boot_write_string xs con)"
  by (induction xs arbitrary: con) auto

lemma shows_log_line:
  assumes log: "shows_log ls v0 con" and len: "Suc (length ls) < VGA_HEIGHT"
    and str: "CHR 0x0A \<notin> set str" "length str < VGA_WIDTH"
  shows "shows_log (ls @ [str]) v0 (boot_write_string (ln str) con)"
proof -
  let ?n = "length ls"
  obtain cur v where con: "con = (cur, v)" by fastforce
  have cur: "unat cur = ?n * VGA_WIDTH"
    using log len unat_of_nat_u16 [of "?n * VGA_WIDTH"] by (simp add: shows_log_def con del: of_nat_mult)
  obtain cur' v' where r: "puts_clipped VGA_COLOR str (cur, v) = (cur', v')" by fastforce
  have "unat cur \<le> VGA_MEMSIZE" using cur len by simp
  from puts_clipped_spec [OF this, of VGA_COLOR str v] cur len str(2)
  have cur': "unat cur' = ?n * VGA_WIDTH + length str"
    and v': "\<And>i. v' i = (if ?n * VGA_WIDTH \<le> i \<and> i < ?n * VGA_WIDTH + length str
      then vga_cell VGA_COLOR (str ! (i - ?n * VGA_WIDTH)) else v i)"
    by (auto simp: r min_def split: if_splits)
  have "unat cur' div VGA_WIDTH = ?n" using str(2) by (simp add: cur')
  then have w: "boot_write_string (ln str) con = (of_nat (Suc ?n * VGA_WIDTH), v')"
    by (simp add: boot_write_append boot_write_puts str(1) con r boot_newline_def Let_def del: of_nat_mult)
  have "v' i = vga_cell VGA_COLOR (log_char (ls @ [str]) i)" if "i < VGA_MEMSIZE" for i
  proof -
    have v: "v i = vga_cell VGA_COLOR (log_char ls i)" using log that by (simp add: shows_log_def con)
    have i: "i div VGA_WIDTH * VGA_WIDTH + i mod VGA_WIDTH = i" by simp
    have "i div VGA_WIDTH = ?n" if "?n * VGA_WIDTH \<le> i" "i < ?n * VGA_WIDTH + length str"
      using that str(2) by (intro div_nat_eqI) simp_all
    then have "?n * VGA_WIDTH \<le> i \<and> i < ?n * VGA_WIDTH + length str \<longleftrightarrow> i div VGA_WIDTH = ?n \<and> i mod VGA_WIDTH < length str"
      using i by (metis add_less_cancel_left le_add1)
    moreover have "i - ?n * VGA_WIDTH = i mod VGA_WIDTH" if "i div VGA_WIDTH = ?n"
      using that i by (metis add_diff_cancel_left')
    ultimately show ?thesis
      by (auto simp: v' v log_char_def nth_append less_Suc_eq)
  qed
  moreover have "v' i = v0 i" if "VGA_MEMSIZE \<le> i" for i
    using that log len str(2) by (auto simp: v' shows_log_def con)
  ultimately show ?thesis using len by (simp add: shows_log_def w del: of_nat_mult)
qed


lemma shows_log_lines:
  "shows_log ls v0 con \<Longrightarrow> length ls + length strs < VGA_HEIGHT \<Longrightarrow>
    (\<forall>str \<in> set strs. CHR 0x0A \<notin> set str \<and> length str < VGA_WIDTH) \<Longrightarrow>
    shows_log (ls @ strs) v0 (fold boot_write_string (map ln strs) con)"
proof (induction strs arbitrary: ls con)
  case (Cons str strs)
  from Cons.IH [OF shows_log_line [OF Cons.prems(1)]] Cons.prems(2,3) show ?case by simp
qed simp

section \<open>What the boot sequence leaves behind\<close>

lemma hardware_irqs_booted: "drivers_booted d \<Longrightarrow> drivers_booted (hardware_irqs es d)"
  by (induction es d rule: hardware_irqs.induct) (simp_all add: hardware_irq_keeps_booted)

lemma boot_gate:
  "v < 256 \<Longrightarrow> kernel_gate (ck_idt (irq_init_gates irqs (ck_exceptions_init excs (ck_idt_init d a s))) v)
    (if v < 32 then excs v else if v < 48 then irqs (v - 32) else d)"
  using irq_init_gates_spec(1) [of "v - 32" irqs]
  by (auto simp: irq_init_gates_spec(2) exceptions_init_gates idt_init_gates)

lemma shell_start_fields:
  "sh_sched (ck_shell_start ticks s) = sh_sched s" "sh_heap (ck_shell_start ticks s) = sh_heap s"
  by (simp_all add: ck_shell_start_def shell_home_def shell_print_def Let_def draw_status_text)

definition boot_log :: "string list" where
  "boot_log = [''CheesecakeOS v1.0'', ''Initializing IDT...'', ''Initializing PIC...'', ''Initializing IRQs...'',
     ''Initializing Timer...'', ''Initializing Keyboard...'', ''Initializing Memory Manager...'',
     ''Initializing Scheduler...'', '''', ''System Ready.'']"

lemma boot_say_fields [simp]:
  "m_ports (boot_say t m) = m_ports m" "m_idt (boot_say t m) = m_idt m" "m_drivers (boot_say t m) = m_drivers m"
  "m_paging (boot_say t m) = m_paging m" "m_heap (boot_say t m) = m_heap m" "m_sched (boot_say t m) = m_sched m"
  "m_console (boot_say t m) = boot_write_string t (m_console m)"
  by (simp_all add: boot_say_def)

lemma boot_interrupts_fields:
  "m_heap (boot_interrupts P m) = m_heap m" "m_paging (boot_interrupts P m) = m_paging m"
  "m_idt (boot_interrupts P m) = irq_init_gates (bp_irq_stubs P) (ck_exceptions_init (bp_exception_stubs P)
     (ck_idt_init (bp_default_stub P) (bp_idt_addr P) (m_idt m)))"
  "kbd (m_drivers (boot_interrupts P m)) = kbd (m_drivers m)"
  "tmr (m_drivers (boot_interrupts P m)) = tmr (m_drivers m)"
  "drivers_booted (m_drivers (boot_interrupts P m))"
proof -
  note d = boot_interrupts_def Let_def case_prod_unfold
  show "m_heap (boot_interrupts P m) = m_heap m" "m_paging (boot_interrupts P m) = m_paging m"
    "kbd (m_drivers (boot_interrupts P m)) = kbd (m_drivers m)" "tmr (m_drivers (boot_interrupts P m)) = tmr (m_drivers m)"
    by (simp_all add: d)
  show "m_idt (boot_interrupts P m) = irq_init_gates (bp_irq_stubs P) (ck_exceptions_init (bp_exception_stubs P)
     (ck_idt_init (bp_default_stub P) (bp_idt_addr P) (m_idt m)))"
    by (simp add: d irq_init_idt)
  have "irq_handlers (m_drivers (boot_interrupts P m)) = boot_irq_table (bp_irq_stubs P)
      (irq_handlers (m_drivers m), ck_exceptions_init (bp_exception_stubs P)
        (ck_idt_init (bp_default_stub P) (bp_idt_addr P) (m_idt m)))"
    by (simp add: d boot_irq_table_def)
  then show "drivers_booted (m_drivers (boot_interrupts P m))" unfolding drivers_booted_def by blast
qed

lemma boot_interrupts_console:
  "m_console (boot_interrupts P m) = fold boot_write_string (map ln (take 6 boot_log)) (boot_clear_screen (m_console m))"
  by (simp add: boot_interrupts_def Let_def case_prod_unfold boot_log_def)

text \<open>The memory with the page tables in it, and the result of \<^verbatim>\<open>ck_main\<close>, field by field.\<close>

abbreviation boot_mem :: "boot_params \<Rightarrow> machine \<Rightarrow> mem" where
  "boot_mem P m0 \<equiv> store_tables (bp_layout P) (ck_paging_init (bp_layout P) (m_paging m0)) (hp_mem (m_heap m0))"

lemma ck_main_result:
  obtains m h s where "ck_main P m0 = Some (m, ck_shell_start (ck_timer_get_ticks (tmr (m_drivers m))) (shell_entry P m))"
    "m_heap m = h" "m_sched m = s" "boot_heap (boot_mem P m0) 388 boot_blocks 0x180084 3964 h"
    "ck_task_count s = 3" "\<And>i. i < 3 \<Longrightarrow> ck_task_table s i = boot_table ! i" "sched_inv s"
    "m_interrupts m" "m_paging m = load_tables (bp_layout P) (hp_mem h) (ck_paging_init (bp_layout P) (m_paging m0))"
    "m_idt m = m_idt (boot_interrupts P m0)"
    "m_drivers m = hardware_irqs (bp_early_irqs P) (m_drivers (boot_interrupts P m0))"
    "m_console m = fold boot_write_string (map ln boot_log) (boot_clear_screen (m_console m0))"
proof -
  let ?m1 = "boot_memory P (boot_interrupts P m0)"
  have swap: "h\<lparr>hp_pmem := x, hp_mem := y\<rparr> = h\<lparr>hp_mem := y, hp_pmem := x\<rparr>" for h :: heap and x y by simp
  have "boot_heap (boot_mem P m0) 385 [] 0x180000 4096 (m_heap ?m1)"
    using boot_heap_init [of "(m_heap m0)\<lparr>hp_mem := boot_mem P m0\<rparr>"]
    by (simp add: boot_memory_def Let_def boot_interrupts_fields swap)
  then obtain s h where t: "boot_tasks ?m1 = Some ((boot_say (ln ''Initializing Scheduler...'') ?m1)\<lparr>m_sched := s, m_heap := h\<rparr>)"
    "boot_heap (boot_mem P m0) 388 boot_blocks 0x180084 3964 h" "ck_task_count s = 3" "\<And>i. i < 3 \<Longrightarrow> ck_task_table s i = boot_table ! i"
    "sched_inv s" by (rule boot_three_tasks) blast
  let ?m2 = "(boot_say (CHR 0x0A # ln ''System Ready.'') ((boot_say (ln ''Initializing Scheduler...'') ?m1)
      \<lparr>m_sched := s, m_heap := h\<rparr>))\<lparr>m_paging := load_tables (bp_layout P) (hp_mem h) (m_paging ?m1),
      m_interrupts := True,
      m_drivers := hardware_irqs (bp_early_irqs P) (m_drivers ?m1)\<rparr>"
  have c: "map ln boot_log = map ln (take 6 boot_log) @ [ln ''Initializing Memory Manager...'',
      ln ''Initializing Scheduler...'', ln '''', ln ''System Ready.'']" by (simp add: boot_log_def)
  show ?thesis
  proof (rule that [of ?m2 h s])
    show "ck_main P m0 = Some (?m2, ck_shell_start (ck_timer_get_ticks (tmr (m_drivers ?m2))) (shell_entry P ?m2))"
      using t(1) by (simp add: ck_main_def Let_def)
    show "m_console ?m2 = fold boot_write_string (map ln boot_log) (boot_clear_screen (m_console m0))"
      unfolding c by (simp add: boot_memory_def Let_def boot_interrupts_console)
  qed (use t in \<open>simp_all add: boot_memory_def Let_def boot_interrupts_fields\<close>)
qed


lemma ck_main_interrupts:
  assumes "ck_main P m0 = Some (m, s)"
  shows "m_idt m = m_idt (boot_interrupts P m0)" and "drivers_booted (m_drivers m)"
proof -
  obtain m' where r: "ck_main P m0 = Some (m', ck_shell_start (ck_timer_get_ticks (tmr (m_drivers m'))) (shell_entry P m'))"
    "m_idt m' = m_idt (boot_interrupts P m0)"
    "m_drivers m' = hardware_irqs (bp_early_irqs P) (m_drivers (boot_interrupts P m0))"
    by (rule ck_main_result [of P m0]) blast
  have "m' = m" using r(1) assms by simp
  with r(2,3) show "m_idt m = m_idt (boot_interrupts P m0)" "drivers_booted (m_drivers m)"
    by (simp_all add: hardware_irqs_booted [OF boot_interrupts_fields(6)])
qed

section \<open>The heap in the page tables\<close>

text \<open>
  The kernel is linked at 1 MB, and its code and other data take less than half a megabyte, so that the
  page tables begin below 0x180000. Then the pages that the heap takes lie in the tables, and in no other
  variable. \<open>hit_table\<close> is the table that begins at 0x180000.
\<close>

definition kernel_layout :: "paging_layout \<Rightarrow> bool" where
  "kernel_layout L \<longleftrightarrow> layout_ok L \<and> 0x100000 \<le> unat (page_tables_addr L) \<and> unat (page_tables_addr L) < 0x180000"

definition hit_table :: "paging_layout \<Rightarrow> nat" where
  "hit_table L = (0x180000 - unat (page_tables_addr L)) div 4096"

text \<open>The entries under the seven headers, each of three words.\<close>

definition overwritten :: "nat \<Rightarrow> nat \<Rightarrow> nat \<Rightarrow> bool" where
  "overwritten k pd pt \<longleftrightarrow> pd = k \<and> pt \<in> set [0, 1, 2, 11, 12, 13, 22, 23, 24, 33, 34, 35] \<or>
     pd \<in> set [k + 1, k + 2, k + 3] \<and> pt \<in> set [0, 1, 2]"

lemma kernel_layout_tables:
  assumes "kernel_layout L"
  shows "unat (page_tables_addr L) + 4096 * hit_table L = 0x180000" "0 < hit_table L" "hit_table L \<le> 128"
proof -
  let ?T = "unat (page_tables_addr L)"
  have "?T mod 4096 = 0" "0x100000 \<le> ?T" "?T < 0x180000" using assms by (simp_all add: kernel_layout_def layout_ok_def)
  moreover from this have "(0x180000 - ?T) mod 4096 = 0" by (simp add: dvd_diff_nat flip: dvd_eq_mod_eq_0)
  then have "4096 * hit_table L = 0x180000 - ?T" unfolding hit_table_def by (simp add: mult.commute dvd_div_mult_self flip: dvd_eq_mod_eq_0)
  ultimately show "?T + 4096 * hit_table L = 0x180000" "0 < hit_table L" "hit_table L \<le> 128" by linarith+
qed

lemma unat_entry_addr:
  assumes "kernel_layout L" and "k < 256" and "i < 1024" and "j < 4"
  shows "unat (entry_addr L k i + of_nat j) + 4096 * hit_table L = 0x180000 + 4096 * k + 4 * i + j"
proof -
  have t: "unat (page_table_addr L k) = unat (page_tables_addr L) + k * 4096"
    using unat_page_table_addr assms(1,2) by (simp add: kernel_layout_def)
  have e: "entry_addr L k i + of_nat j = page_table_addr L k + of_nat (4 * i + j)"
    by (simp add: entry_addr_def algebra_simps)
  have n: "unat (of_nat (4 * i + j) :: u32) = 4 * i + j" using assms(3,4) by (intro unat_of_nat_u32) simp
  have "unat (page_tables_addr L) < 0x180000" using assms(1) by (simp add: kernel_layout_def)
  then have "unat (entry_addr L k i + of_nat j) = unat (page_table_addr L k) + (4 * i + j)"
    unfolding e using n t assms(2-4) by (subst unat_add_u32) auto
  with t kernel_layout_tables(1) [OF assms(1)] show ?thesis by linarith
qed

text \<open>A byte of an entry within three words from a word on belongs to one of these words.\<close>

lemma entry_in_three:
  fixes x a k c p t w j :: nat
  assumes "x + 4096 * k = 0x180000 + 4096 * p + 4 * t + j" and "a = 0x180000 + 4096 * c + 4 * w"
    and "a \<le> x" and "x < a + 12" and "t < 1024" and "j < 4" and "w + 3 \<le> 1024"
  shows "p = k + c" and "t = w \<or> t = w + 1 \<or> t = w + 2"
proof -
  show "p = k + c" using assms by linarith
  then have "w \<le> t" "t \<le> w + 2" using assms by linarith+
  then show "t = w \<or> t = w + 1 \<or> t = w + 2" by linarith
qed

lemma entry_not_overwritten:
  assumes "kernel_layout L" and "pd < 256" and "pt < 1024" and "j < 4" and "\<not> overwritten (hit_table L) pd pt"
    and "(c, w) \<in> {(3, 0), (2, 0), (1, 0), (0, 0), (0, 11), (0, 22), (0, 33)}"
    and "unat a = 0x180000 + 4096 * c + 4 * w"
  shows "12 \<le> unat (entry_addr L pd pt + of_nat j - a)"
proof -
  let ?x = "entry_addr L pd pt + of_nat j" and ?k = "hit_table L"
  have x: "unat ?x + 4096 * ?k = 0x180000 + 4096 * pd + 4 * pt + j" by (rule unat_entry_addr [OF assms(1-4)])
  have "unat ?x < unat a \<or> unat a + 12 \<le> unat ?x"
  proof (rule ccontr)
    assume "\<not> ?thesis"
    then have "unat a \<le> unat ?x" "unat ?x < unat a + 12" by auto
    moreover have "w + 3 \<le> 1024" using assms(6) by auto
    ultimately have "pd = ?k + c" "pt = w \<or> pt = w + 1 \<or> pt = w + 2"
      using entry_in_three [OF x assms(7)] assms(3,4) by blast+
    with assms(5,6) show False by (auto simp: overwritten_def)
  qed
  moreover have "unat a + 12 \<le> 4294967296" using assms(6,7) by auto
  ultimately show ?thesis using unat_u32_less [of ?x] by (simp add: unat_diff_u32) linarith
qed

text \<open>What the tables in memory map when the boot sequence is done.\<close>

lemma boot_mapping:
  assumes L: "kernel_layout L" and h: "boot_heap (store_tables L (ck_paging_init L p) m0) 388 boot_blocks 0x180084 3964 h"
    and v: "unat v < 2 ^ 30"
  shows "\<not> overwritten (hit_table L) (pd_of v) (pt_of v) \<Longrightarrow>
      ck_paging_virt_to_phys L v (load_tables L (hp_mem h) (ck_paging_init L p)) = Some v"
    and "pd_of v \<in> {hit_table L, hit_table L + 1, hit_table L + 2, hit_table L + 3} \<Longrightarrow> pt_of v = 0 \<Longrightarrow>
      ck_paging_virt_to_phys L v (load_tables L (hp_mem h) (ck_paging_init L p)) = Some 0"
proof -
  have ok: "layout_ok L" using L by (simp add: kernel_layout_def)
  have pd: "pd_of v < 256" using v by (simp add: unat_pd_index div_less_iff_less_mult)
  have frame: "only_headers {0x180084, 0x183000, 0x182000, 0x181000, 0x180000, 0x18002C, 0x180058}
      (store_tables L (ck_paging_init L p) m0) (hp_mem h)"
    using h by (simp add: boot_heap_def boot_blocks_def insert_commute)
  show "ck_paging_virt_to_phys L v (load_tables L (hp_mem h) (ck_paging_init L p)) = Some v"
    if n: "\<not> overwritten (hit_table L) (pd_of v) (pt_of v)"
  proof (rule loaded_identity [OF ok v])
    fix j :: nat
    assume "j < 4"
    note e = entry_not_overwritten [OF L pd pt_index_bound this n]
    show "hp_mem h (entry_addr L (pd_of v) (pt_of v) + of_nat j) =
        store_tables L (ck_paging_init L p) m0 (entry_addr L (pd_of v) (pt_of v) + of_nat j)"
      using e [of 0 33 "0x180084"] e [of 3 0 "0x183000"] e [of 2 0 "0x182000"] e [of 1 0 "0x181000"]
        e [of 0 0 "0x180000"] e [of 0 11 "0x18002C"] e [of 0 22 "0x180058"] frame
      unfolding only_headers_def by simp
  qed
  show "ck_paging_virt_to_phys L v (load_tables L (hp_mem h) (ck_paging_init L p)) = Some 0"
    if t: "pd_of v \<in> {hit_table L, hit_table L + 1, hit_table L + 2, hit_table L + 3}" and "pt_of v = 0"
  proof -
    obtain c where c: "pd_of v = hit_table L + c" "c < 4" using t by auto
    have e: "unat (entry_addr L (pd_of v) 0) = 0x180000 + 4096 * c"
      using unat_entry_addr [OF L pd, of 0 0] c by simp
    have "entry_addr L (pd_of v) 0 = of_nat (0x180000 + 4096 * c)" unfolding e [symmetric] by simp
    moreover have "rd32 (hp_mem h) (of_nat (0x180000 + 4096 * c)) = (if c = 0 then 44 else 4108)"
    proof -
      have "hdr_size (hp_mem h) 0x180000 = 44" "hdr_size (hp_mem h) 0x181000 = 4108" "hdr_size (hp_mem h) 0x182000 = 4108"
        "hdr_size (hp_mem h) 0x183000 = 4108" using h by (simp_all add: boot_heap_def boot_blocks_def)
      moreover have "c = 0 \<or> c = 1 \<or> c = 2 \<or> c = 3" using c(2) by linarith
      ultimately show ?thesis unfolding hdr_size_def by (elim disjE) simp_all
    qed
    moreover have "\<not> present 44" "\<not> present 4108" by (simp_all add: present_def)
    ultimately show ?thesis
      using \<open>pt_of v = 0\<close> by (simp add: virt_to_phys_loaded [OF ok v] Let_def)
  qed
qed

section \<open>Properties\<close>

text \<open>Parameters and statics for the witnesses: the page tables right behind the code, at 0x10C000.\<close>

definition sample_params :: boot_params where
  "sample_params = \<lparr>bp_default_stub = 0x100100, bp_idt_addr = 0x109000, bp_exception_stubs = (\<lambda>i. 0x100200 + of_nat i),
     bp_irq_stubs = (\<lambda>i. 0x100400 + of_nat i), bp_master_mask = 0xB8, bp_slave_mask = 0x8E,
     bp_layout = \<lparr>page_directory_addr = 0x10B000, page_tables_addr = 0x10C000\<rparr>,
     bp_early_irqs = [(0, 0), (1, 0x1E), (0, 0)], bp_stack_garbage = (\<lambda>_. CHR ''x'')\<rparr>"

definition sample_machine :: machine where
  "sample_machine = \<lparr>m_console = (0, \<lambda>_. 0), m_ports = [], m_idt = \<lparr>ck_idt = (\<lambda>_. \<lparr>base_low = 0, selector = 0,
     always0 = 0, gate_flags = 0, base_high = 0\<rparr>), ck_idt_desc = \<lparr>idt_limit = 0, idt_base = 0\<rparr>, idtr = None\<rparr>,
     m_drivers = \<lparr>irq_handlers = irq_static, tmr = \<lparr>ck_timer_ticks = 0\<rparr>, kbd = keyboard_static\<rparr>,
     m_paging = paging_static, m_heap = heap_static pmem_static, m_sched = empty_scheduler, m_interrupts = False\<rparr>"

text \<open>
  C1: the kernel boots. From any contents of memory and for any interrupts that arrive after they are
  enabled, \<^verbatim>\<open>ck_main\<close> reaches the shell: the three demo tasks are in the task table, in order and ready,
  every one of the 256 gates is set, the timer and keyboard handlers are installed, paging is on and maps
  the first 4 MB, where the kernel and its heap are, to themselves, and the shell starts in a state that
  satisfies its invariant, with the tasks and the heap of the boot sequence. The handler of line 0 is the
  timer's, that of line 1 the keyboard's, and the other fourteen lines have the default handler.
\<close>

theorem boot_reaches_shell:
  assumes "kernel_layout (bp_layout P)" and "kb_inv (kbd (m_drivers m0))"
  shows "\<exists>m s. ck_main P m0 = Some (m, s) \<and> shell_inv s \<and> \<not> halted s \<and> m_interrupts m \<and>
    sh_sched s = m_sched m \<and> sh_heap s = m_heap m \<and> sched_inv (m_sched m) \<and> ck_task_count (m_sched m) = 3 \<and>
    map (\<lambda>i. task_entry (ck_task_table (m_sched m) i)) [0..<3] =
      [Some ck_task_demo_1_fn, Some ck_task_demo_2_fn, Some ck_task_demo_3_fn] \<and>
    (\<forall>v < 256. kernel_gate (ck_idt (m_idt m) v) (if v < 32 then bp_exception_stubs P v
       else if v < 48 then bp_irq_stubs P (v - 32) else bp_default_stub P)) \<and>
    drivers_booted (m_drivers m) \<and>
    (\<forall>n < 16. irq_handlers (m_drivers m) n = Some (if n = 0 then ck_timer_irq_handler
       else if n = 1 then ck_keyboard_irq_handler else ck_irq_default_handler)) \<and>
    paging_inv (bp_layout P) (m_paging m) \<and>
    cr3 (m_paging m) = page_directory_addr (bp_layout P) \<and> bit (cr0 (m_paging m)) 31 \<and>
    (\<forall>v. unat v < 2 ^ 22 \<longrightarrow> ck_paging_virt_to_phys (bp_layout P) v (m_paging m) = Some v)"
proof (rule ck_main_result [of P m0])
  fix m h s
  assume r: "ck_main P m0 = Some (m, ck_shell_start (ck_timer_get_ticks (tmr (m_drivers m))) (shell_entry P m))"
    "m_sched m = s" "ck_task_count s = 3" "\<And>i. i < 3 \<Longrightarrow> ck_task_table s i = boot_table ! i" "sched_inv s"
    "m_interrupts m" "m_paging m = load_tables (bp_layout P) (hp_mem h) (ck_paging_init (bp_layout P) (m_paging m0))" "m_idt m = m_idt (boot_interrupts P m0)"
    "m_drivers m = hardware_irqs (bp_early_irqs P) (m_drivers (boot_interrupts P m0))"
    and h: "boot_heap (boot_mem P m0) 388 boot_blocks 0x180084 3964 h"
  have ok: "layout_ok (bp_layout P)" using assms(1) by (simp add: kernel_layout_def)
  let ?s = "ck_shell_start (ck_timer_get_ticks (tmr (m_drivers m))) (shell_entry P m)"
  have "kb_inv (kbd (m_drivers m))"
    using assms(2) hardware_irqs_keyboard [OF boot_interrupts_fields(6)] by (simp add: r(9) boot_interrupts_fields)
  then have "shell_inv ?s"
    using r(2,5) by (intro shell_start_inv) (simp_all add: shell_entry_def tasks_static_inv history_static_def history_inv_def)
  moreover have "\<not> halted ?s" by (intro shell_start_not_halted) (simp add: shell_entry_def)
  moreover have "sh_sched ?s = m_sched m" "sh_heap ?s = m_heap m"
    by (simp_all add: shell_start_fields shell_entry_def)
  moreover have "map (\<lambda>i. task_entry (ck_task_table (m_sched m) i)) [0..<3] =
      [Some ck_task_demo_1_fn, Some ck_task_demo_2_fn, Some ck_task_demo_3_fn]"
    using r(4) [of 0] r(4) [of 1] r(4) [of "Suc (Suc 0)"] by (simp add: r(2) boot_table_def new_task_def upt_rec)
  moreover have "\<forall>v < 256. kernel_gate (ck_idt (m_idt m) v) (if v < 32 then bp_exception_stubs P v
       else if v < 48 then bp_irq_stubs P (v - 32) else bp_default_stub P)"
    unfolding r(8) boot_interrupts_fields by (blast intro: boot_gate)
  moreover have booted: "drivers_booted (m_drivers m)"
    unfolding r(9) by (rule hardware_irqs_booted [OF boot_interrupts_fields(6)])
  moreover have "\<forall>n < 16. irq_handlers (m_drivers m) n = Some (if n = 0 then ck_timer_irq_handler
       else if n = 1 then ck_keyboard_irq_handler else ck_irq_default_handler)"
    using booted boot_irq_table_entry unfolding drivers_booted_def by metis
  moreover have "paging_inv (bp_layout P) (m_paging m)" unfolding r(7) using paging_inv_init [OF ok] by simp
  moreover have "cr3 (m_paging m) = page_directory_addr (bp_layout P)" "bit (cr0 (m_paging m)) 31"
    unfolding r(7) by (simp_all add: ck_paging_init_def ck_paging_enable_def Let_def bit_simps)
  moreover have "\<forall>v. unat v < 2 ^ 22 \<longrightarrow> ck_paging_virt_to_phys (bp_layout P) v (m_paging m) = Some v"
  proof (intro allI impI)
    fix v :: u32
    assume v: "unat v < 2 ^ 22"
    then have "pd_of v = 0" by (simp add: unat_pd_index)
    then have "\<not> overwritten (hit_table (bp_layout P)) (pd_of v) (pt_of v)"
      using kernel_layout_tables(2) [OF assms(1)] by (auto simp: overwritten_def)
    then show "ck_paging_virt_to_phys (bp_layout P) v (m_paging m) = Some v"
      unfolding r(7) using v by (intro boot_mapping(1) [OF assms(1) h]) simp_all
  qed
  moreover note r(1,6) r(3,5) [folded r(2)]
  ultimately show ?thesis by - (rule exI [of _ m], rule exI [of _ ?s], intro conjI; assumption)
qed

text \<open>
  C16: the stacks of the tasks overlap. For a request of 4096 bytes the heap takes one page for a block of
  4108 bytes; so the last 12 bytes of the stack of each of the first two tasks are the header of the
  next task's stack block, and the last 12 bytes of the third stack lie on a page the page allocator
  still regards as free.
\<close>

theorem boot_task_stacks_overlap:
  "\<exists>m s. ck_main P m0 = Some (m, s) \<and>
    map (\<lambda>i. unat (task_stack (ck_task_table (m_sched m) i))) [0..<3] = [0x18100C, 0x18200C, 0x18300C] \<and>
    map (\<lambda>i. unat (task_stack_size (ck_task_table (m_sched m) i))) [0..<3] = [4096, 4096, 4096] \<and>
    map (\<lambda>a. (hdr_size (hp_mem (m_heap m)) a, hdr_allocated (hp_mem (m_heap m)) a)) [0x181000, 0x182000, 0x183000] =
      [(4108, 1), (4108, 1), (4108, 1)] \<and>
    0x184000 div 4096 \<notin> used_set (hp_pmem (m_heap m)) \<and> (0x184000 :: nat) < 0x18300C + 4096"
proof (rule ck_main_result [of P m0])
  fix m h s
  assume r: "ck_main P m0 = Some (m, ck_shell_start (ck_timer_get_ticks (tmr (m_drivers m))) (shell_entry P m))"
    "m_sched m = s" "m_heap m = h" "\<And>i. i < 3 \<Longrightarrow> ck_task_table s i = boot_table ! i"
    and h: "boot_heap (boot_mem P m0) 388 boot_blocks 0x180084 3964 h"
  have "map (\<lambda>a. (hdr_size (hp_mem h) a, hdr_allocated (hp_mem h) a)) [0x181000, 0x182000, 0x183000] =
      [(4108, 1), (4108, 1), (4108, 1)]"
    using h by (simp add: boot_heap_def boot_blocks_def)
  moreover have "0x184000 div 4096 \<notin> used_set (hp_pmem h)" using h by (simp add: boot_heap_def)
  ultimately show ?thesis
    using r(4) [of 0] r(4) [of 1] r(4) [of "Suc (Suc 0)"] unfolding r(1,2,3)
    by (simp add: boot_table_def new_task_def upt_rec r(2,3))
qed

text \<open>
  C11: the heap overwrites the page tables. The kernel is linked at 1 MB and its page tables alone take a
  megabyte, but only the first 1.5 MB are reserved; so the first page of the heap, at 0x180000, is a page
  table, and so are the three after it, which hold the stacks of the tasks. When the boot sequence is
  done, the first page of each of the four regions of 4 MB that these tables map is not mapped any more.
  Apart from the entries under the seven block headers every page of the first gigabyte is still mapped
  to itself.
\<close>

theorem boot_corrupts_page_tables:
  assumes "kernel_layout (bp_layout P)"
  shows "page_table_at (bp_layout P) 0x180000 = Some (hit_table (bp_layout P)) \<and>
    0x180 \<notin> used_set (ck_pmem_init pm) \<and>
    (\<exists>m s. ck_main P m0 = Some (m, s) \<and>
      (\<forall>v. unat v < 2 ^ 30 \<longrightarrow> \<not> overwritten (hit_table (bp_layout P)) (pd_of v) (pt_of v) \<longrightarrow>
         ck_paging_virt_to_phys (bp_layout P) v (m_paging m) = Some v) \<and>
      (\<forall>c < 4. ck_paging_virt_to_phys (bp_layout P) (of_nat ((hit_table (bp_layout P) + c) * 2 ^ 22)) (m_paging m) = Some 0))"
proof (rule ck_main_result [of P m0])
  let ?L = "bp_layout P"
  note k = kernel_layout_tables [OF assms]
  have "unat (0x180000 - page_tables_addr ?L) = 4096 * hit_table ?L" using k(1) by (simp add: unat_diff_u32)
  then have at: "page_table_at ?L 0x180000 = Some (hit_table ?L)" using k(3) by (simp add: page_table_at_def)
  fix m h
  assume r: "ck_main P m0 = Some (m, ck_shell_start (ck_timer_get_ticks (tmr (m_drivers m))) (shell_entry P m))"
    "m_paging m = load_tables ?L (hp_mem h) (ck_paging_init ?L (m_paging m0))"
    and h: "boot_heap (boot_mem P m0) 388 boot_blocks 0x180084 3964 h"
  have "ck_paging_virt_to_phys ?L (of_nat ((hit_table ?L + c) * 2 ^ 22)) (m_paging m) = Some 0" if "c < 4" for c
  proof -
    let ?v = "of_nat ((hit_table ?L + c) * 2 ^ 22) :: u32"
    have u: "unat ?v = (hit_table ?L + c) * 2 ^ 22" using k(3) that by (intro unat_of_nat_u32) simp
    then have "unat ?v < 2 ^ 30" "pd_of ?v = hit_table ?L + c" "pt_of ?v = 0"
      using k(3) that by (simp_all add: unat_pd_index unat_pt_index)
    then show ?thesis unfolding r(2) using that by (intro boot_mapping(2) [OF assms h]) auto
  qed
  moreover have "\<forall>v. unat v < 2 ^ 30 \<longrightarrow> \<not> overwritten (hit_table ?L) (pd_of v) (pt_of v) \<longrightarrow>
      ck_paging_virt_to_phys ?L v (m_paging m) = Some v"
    unfolding r(2) by (intro allI impI boot_mapping(1) [OF assms h])
  moreover have "0x180 \<notin> used_set (ck_pmem_init pm)" by (simp add: init_state)
  ultimately show ?thesis using at r(1) by blast
qed

text \<open>
  The boot messages. When the shell takes over, the screen shows the ten lines of the boot log in
  white, one message per row, with blanks everywhere else, and nothing behind the screen was written.
\<close>

theorem boot_console_log:
  "\<exists>m s. ck_main P m0 = Some (m, s) \<and> unat (fst (m_console m)) = 10 * VGA_WIDTH \<and>
    (\<forall>i. snd (m_console m) i =
      (if i < VGA_MEMSIZE then vga_cell VGA_COLOR (log_char boot_log i) else snd (m_console m0) i))"
proof (rule ck_main_result [of P m0])
  fix m
  assume r: "ck_main P m0 = Some (m, ck_shell_start (ck_timer_get_ticks (tmr (m_drivers m))) (shell_entry P m))"
    "m_console m = fold boot_write_string (map ln boot_log) (boot_clear_screen (m_console m0))"
  have "shows_log boot_log (snd (m_console m0)) (m_console m)"
    unfolding r(2) using shows_log_lines [OF shows_log_clear, of boot_log "snd (m_console m0)" "fst (m_console m0)"]
    by (simp add: boot_log_def)
  with r(1) show ?thesis by (simp add: shows_log_def boot_log_def)
qed


theorem boot_reaches_shell_witness:
  "\<exists>m s. ck_main sample_params sample_machine = Some (m, s) \<and> shell_inv s \<and> ck_task_count (sh_sched s) = 3"
proof -
  have "kernel_layout (bp_layout sample_params)" by (simp add: kernel_layout_def layout_ok_def sample_params_def)
  moreover have "kb_inv (kbd (m_drivers sample_machine))" by (simp add: sample_machine_def keyboard_static_queue)
  ultimately show ?thesis using boot_reaches_shell [of sample_params sample_machine] by metis
qed

theorem boot_corrupts_page_tables_witness:
  "\<exists>m s. ck_main sample_params sample_machine = Some (m, s) \<and>
    ck_paging_virt_to_phys (bp_layout sample_params) 0x1D000000 (m_paging m) = Some 0 \<and>
    ck_paging_virt_to_phys (bp_layout sample_params) 0x1D003000 (m_paging m) = Some 0x1D003000"
proof -
  let ?L = "bp_layout sample_params"
  have L: "kernel_layout ?L" by (simp add: sample_params_def kernel_layout_def layout_ok_def)
  have k: "hit_table ?L = 116" by (simp add: sample_params_def hit_table_def)
  obtain m s where r: "ck_main sample_params sample_machine = Some (m, s)"
    "\<forall>v. unat v < 2 ^ 30 \<longrightarrow> \<not> overwritten 116 (pd_of v) (pt_of v) \<longrightarrow> ck_paging_virt_to_phys ?L v (m_paging m) = Some v"
    "\<forall>c < 4. ck_paging_virt_to_phys ?L (of_nat ((116 + c) * 2 ^ 22)) (m_paging m) = Some 0"
    using boot_corrupts_page_tables [OF L, of pmem_static sample_machine] unfolding k by blast
  have "ck_paging_virt_to_phys ?L 0x1D000000 (m_paging m) = Some 0" using r(3) [rule_format, of 0] by simp
  moreover have "\<not> overwritten 116 (pd_of 0x1D003000) (pt_of 0x1D003000)"
    by (simp add: overwritten_def unat_pd_index unat_pt_index)
  then have "ck_paging_virt_to_phys ?L 0x1D003000 (m_paging m) = Some 0x1D003000" using r(2) by simp
  ultimately show ?thesis using r(1) by blast
qed

theorem boot_console_log_witness:
  "\<exists>m s. ck_main sample_params sample_machine = Some (m, s) \<and>
    snd (m_console m) 80 = vga_cell VGA_COLOR CHR ''I'' \<and> snd (m_console m) 2000 = 0"
proof -
  obtain m s where r: "ck_main sample_params sample_machine = Some (m, s)"
    "\<forall>i. snd (m_console m) i = (if i < VGA_MEMSIZE then vga_cell VGA_COLOR (log_char boot_log i)
      else snd (m_console sample_machine) i)"
    using boot_console_log [of sample_params sample_machine] by blast
  have "log_char boot_log 80 = CHR ''I''" by (simp add: log_char_def boot_log_def)
  moreover have "snd (m_console sample_machine) 2000 = 0" by (simp add: sample_machine_def)
  ultimately have "snd (m_console m) 80 = vga_cell VGA_COLOR CHR ''I''" "snd (m_console m) 2000 = 0"
    using r(2) [rule_format, of 80] r(2) [rule_format, of 2000] by simp_all
  with r(1) show ?thesis by blast
qed

end
