(* ===== verification/Exceptions.thy ===== *)
theory Exceptions
  imports Screen
begin

text \<open>
  CPU exceptions: the dispatcher \<^verbatim>\<open>ck_exception_handler\<close> of \<^verbatim>\<open>src/src/interrupts/exceptions.c\<close> and the
  stack that the stubs of \<^verbatim>\<open>exceptions.asm\<close> build for it. The handler prints to the screen through
  its own cursor and halts.
\<close>

section \<open>The stack built by the stubs\<close>

record ck_registers =
  edi :: u32
  esi :: u32
  ebp :: u32
  esp :: u32
  ebx :: u32
  edx :: u32
  ecx :: u32
  eax :: u32

record ck_exception_frame =
  regs :: ck_registers
  error_code :: u32
  eip :: u32
  cs :: u32
  eflags :: u32

text \<open>
  The vectors for which the processor pushes an error code, as the processor's manual lists them, and,
  independently, the macro that \<^verbatim>\<open>exceptions.asm\<close> uses for each of the 32 stubs.
\<close>

definition has_error_code :: "nat \<Rightarrow> bool" where
  "has_error_code vector \<longleftrightarrow> vector \<in> set [8, 10, 11, 12, 13, 14, 17]"

datatype isr_macro = CK_ISR_NO_ERROR | CK_ISR_WITH_ERROR

definition isr_macros :: "isr_macro list" where
  "isr_macros = [
     CK_ISR_NO_ERROR, CK_ISR_NO_ERROR, CK_ISR_NO_ERROR, CK_ISR_NO_ERROR,
     CK_ISR_NO_ERROR, CK_ISR_NO_ERROR, CK_ISR_NO_ERROR, CK_ISR_NO_ERROR,
     CK_ISR_WITH_ERROR, CK_ISR_NO_ERROR, CK_ISR_WITH_ERROR, CK_ISR_WITH_ERROR,
     CK_ISR_WITH_ERROR, CK_ISR_WITH_ERROR, CK_ISR_WITH_ERROR, CK_ISR_NO_ERROR,
     CK_ISR_NO_ERROR, CK_ISR_WITH_ERROR, CK_ISR_NO_ERROR, CK_ISR_NO_ERROR,
     CK_ISR_NO_ERROR, CK_ISR_NO_ERROR, CK_ISR_NO_ERROR, CK_ISR_NO_ERROR,
     CK_ISR_NO_ERROR, CK_ISR_NO_ERROR, CK_ISR_NO_ERROR, CK_ISR_NO_ERROR,
     CK_ISR_NO_ERROR, CK_ISR_NO_ERROR, CK_ISR_NO_ERROR, CK_ISR_NO_ERROR]"

definition stub_expects_error :: "nat \<Rightarrow> bool" where
  "stub_expects_error vector \<longleftrightarrow> vector < 32 \<and> isr_macros ! vector = CK_ISR_WITH_ERROR"

text \<open>The stubs expect an error code exactly where the processor pushes one.\<close>

lemma stub_expects_error_iff [simp]: "stub_expects_error vector \<longleftrightarrow> has_error_code vector"
proof (cases "vector < 32")
  case True
  have "\<forall>v \<in> set [0..<32]. stub_expects_error v \<longleftrightarrow> has_error_code v" by code_simp
  with True show ?thesis by simp
next
  case False
  then show ?thesis by (auto simp: stub_expects_error_def has_error_code_def)
qed

text \<open>
  The stack when \<^verbatim>\<open>ck_exception_handler\<close> is called, from the address the frame pointer holds
  upwards: the processor pushes EFLAGS, CS, EIP and perhaps an error code; the stub pushes a dummy
  error code if there is none, and the vector; \<^verbatim>\<open>pushad\<close> pushes the registers.
\<close>

definition pushad :: "ck_registers \<Rightarrow> u32 list \<Rightarrow> u32 list" where
  "pushad r st = [edi r, esi r, ebp r, esp r, ebx r, edx r, ecx r, eax r] @ st"

definition exception_stack ::
  "nat \<Rightarrow> u32 \<Rightarrow> u32 \<Rightarrow> u32 \<Rightarrow> u32 \<Rightarrow> ck_registers \<Rightarrow> u32 list" where
  "exception_stack vector cpu_error cpu_eip cpu_cs cpu_eflags r =
     (let by_cpu = (if has_error_code vector then [cpu_error] else []) @ [cpu_eip, cpu_cs, cpu_eflags];
          by_stub = of_nat vector # (if stub_expects_error vector then by_cpu else 0 # by_cpu)
      in pushad r by_stub)"

text \<open>The fields of \<^verbatim>\<open>struct ck_exception_frame\<close> at a frame pointer, one 32-bit word each.\<close>

definition frame_at :: "u32 list \<Rightarrow> ck_exception_frame" where
  "frame_at st = \<lparr>regs = \<lparr>edi = st ! 0, esi = st ! 1, ebp = st ! 2, esp = st ! 3, ebx = st ! 4,
     edx = st ! 5, ecx = st ! 6, eax = st ! 7\<rparr>,
     error_code = st ! 8, eip = st ! 9, cs = st ! 10, eflags = st ! 11\<rparr>"

text \<open>The vector argument: \<^verbatim>\<open>mov eax, [esp + 32]\<close> after \<^verbatim>\<open>pushad\<close>.\<close>

definition vector_argument :: "u32 list \<Rightarrow> u32" where
  "vector_argument st = st ! 8"

section \<open>The dispatcher\<close>

definition ck_exception_names :: "string list" where
  "ck_exception_names = [
    ''Divide By Zero'', ''Debug'', ''Non-Maskable Interrupt'', ''Breakpoint'', ''Overflow'',
    ''Bound Range Exceeded'', ''Invalid Opcode'', ''Device Not Available'', ''Double Fault'',
    ''Coprocessor Segment Overrun'', ''Invalid TSS'', ''Segment Not Present'',
    ''Stack-Segment Fault'', ''General Protection Fault'', ''Page Fault'', ''Reserved (15)'',
    ''Floating-Point Exception'', ''Alignment Check'', ''Machine Check'', ''SIMD Floating-Point'',
    ''Reserved (20)'', ''Reserved (21)'', ''Reserved (22)'', ''Reserved (23)'',
    ''Reserved (24)'', ''Reserved (25)'', ''Reserved (26)'', ''Reserved (27)'',
    ''Reserved (28)'', ''Reserved (29)'', ''Reserved (30)'', ''Reserved (31)'']"

definition exc_write_char :: "char \<Rightarrow> console \<Rightarrow> console" where
  "exc_write_char c con = put_clipped 0x0C c con"

definition exc_write_string :: "string \<Rightarrow> console \<Rightarrow> console" where
  "exc_write_string s con = fold exc_write_char s con"

definition hex_digits :: string where "hex_digits = ''0123456789ABCDEF''"

definition exc_write_nibble :: "u32 \<Rightarrow> nat \<Rightarrow> console \<Rightarrow> console" where
  "exc_write_nibble err i con =
     exc_write_char (hex_digits ! unat (drop_bit (28 - i * 4) err AND 0xF)) con"

text \<open>
  The console after the handler has printed and before \<^verbatim>\<open>cli; hlt\<close>; \<open>None\<close> where the vector is
  outside the table of names (the stubs only pass 0 to 31).
\<close>

definition ck_exception_handler :: "u32 \<Rightarrow> ck_exception_frame \<Rightarrow> console \<Rightarrow> console option" where
  "ck_exception_handler vector frame con =
     (if unat vector \<ge> length ck_exception_names then None
      else
        let con1 = exc_write_string (CHR 0x0A # ''[EXC] '') con;
            con2 = exc_write_string (ck_exception_names ! unat vector) con1;
            con3 = (if vector = 8 \<or> vector = 10 \<or> vector = 11 \<or> vector = 12 \<or> vector = 13 \<or>
                       vector = 14 \<or> vector = 17
                    then exc_write_char CHR '')''
                      (for_loop 0 8 (exc_write_nibble (error_code frame))
                        (exc_write_string '' (err='' con2))
                    else con2)
        in Some (exc_write_string (CHR 0x0A # ''Halting.'') con3))"

text \<open>The message as one string, and the value of a string of hexadecimal digits.\<close>

definition hex8 :: "u32 \<Rightarrow> string" where
  "hex8 err = map (\<lambda>i. hex_digits ! unat (drop_bit (28 - i * 4) err AND 0xF)) [0..<8]"

definition exception_message :: "nat \<Rightarrow> u32 \<Rightarrow> string" where
  "exception_message vector err = (CHR 0x0A # ''[EXC] '') @ ck_exception_names ! vector @
     (if has_error_code vector then '' (err='' @ hex8 err @ '')'' else []) @ (CHR 0x0A # ''Halting.'')"

definition hex_value :: "string \<Rightarrow> nat" where
  "hex_value ds = foldl (\<lambda>n d. 16 * n + length (takeWhile (\<lambda>c. c \<noteq> d) hex_digits)) 0 ds"

section \<open>Lemmas\<close>

lemma exc_write_string_eq: "exc_write_string s con = puts_clipped 0x0C s con"
  unfolding exc_write_string_def by (induction s arbitrary: con) (simp_all add: exc_write_char_def)

lemma nibble_loop:
  "for_loop 0 8 (exc_write_nibble err) con = puts_clipped 0x0C (hex8 err) con"
proof -
  have "fold (exc_write_nibble err) ns con =
      puts_clipped 0x0C (map (\<lambda>i. hex_digits ! unat (drop_bit (28 - i * 4) err AND 0xF)) ns) con" for ns
    by (induction ns arbitrary: con) (simp_all add: exc_write_nibble_def exc_write_char_def)
  then show ?thesis by (simp only: for_loop_def hex8_def)
qed

lemma has_error_code_word:
  "unat v < 32 \<Longrightarrow> has_error_code (unat v) \<longleftrightarrow> v = 8 \<or> v = 10 \<or> v = 11 \<or> v = 12 \<or> v = 13 \<or> v = 14 \<or> v = (17 :: u32)"
  by (auto simp: has_error_code_def word_unat_eq_iff)

lemma exception_handler_eq:
  assumes "unat vector < 32"
  shows "ck_exception_handler vector frame con =
    Some (puts_clipped 0x0C (exception_message (unat vector) (error_code frame)) con)"
proof -
  have "length ck_exception_names = 32" by (simp add: ck_exception_names_def)
  then show ?thesis
    using assms has_error_code_word [OF assms] puts_clipped_append [of _ "[_]"]
    by (simp add: ck_exception_handler_def exception_message_def exc_write_string_eq nibble_loop
        exc_write_char_def Let_def puts_clipped_append)
qed

lemma unat_nibble: "unat (drop_bit k x AND 0xF :: u32) = unat x div 2 ^ k mod 16"
proof -
  have "drop_bit k x AND 0xF = take_bit 4 (drop_bit k x)"
    by (simp add: take_bit_eq_mask mask_eq_exp_minus_1)
  then have "unat (drop_bit k x AND 0xF) = take_bit 4 (drop_bit k (unat x))"
    using unat_u32_less [of x]
    by (simp only: unsigned_take_bit_eq unsigned_drop_bit_eq) (simp add: take_bit_nat_eq_self)
  then show ?thesis by (simp add: take_bit_eq_mod [of _ "_ :: nat"] drop_bit_eq_div [of _ "_ :: nat"])
qed

lemma hex_digit_value: "n < 16 \<Longrightarrow> length (takeWhile (\<lambda>c. c \<noteq> hex_digits ! n) hex_digits) = n"
  unfolding hex_digits_def by (auto simp: numeral_eq_Suc less_Suc_eq)

lemma hex_value_hex8: "hex_value (hex8 x) = unat x"
proof -
  let ?d = "\<lambda>i. hex_digits ! unat (drop_bit (28 - i * 4) x AND 0xF)"
  have "hex_value (map ?d [0..<k]) = unat x div 2 ^ (32 - k * 4)" if "k \<le> 8" for k
    using that
  proof (induction k)
    case 0
    then show ?case using unat_u32_less [of x] by (simp add: hex_value_def)
  next
    case (Suc k)
    have e: "32 - k * 4 = 4 + (28 - k * 4)" "32 - Suc k * 4 = 28 - k * 4" using Suc.prems by simp_all
    have "hex_value (map ?d [0..<Suc k]) = 16 * hex_value (map ?d [0..<k]) + unat x div 2 ^ (28 - k * 4) mod 16"
      by (simp add: hex_value_def hex_digit_value unat_nibble)
    also have "\<dots> = 16 * (unat x div 2 ^ (28 - k * 4) div 16) + unat x div 2 ^ (28 - k * 4) mod 16"
      using Suc by (simp only: e power_add) (simp add: div_mult2_eq [symmetric] mult.commute)
    finally show ?case by (simp only: e mult_div_mod_eq)
  qed
  from this [of 8] show ?thesis by (simp add: hex8_def)
qed

section \<open>Properties\<close>

text \<open>
  C33: What the exception dispatcher prints. For every vector 0 to 31 and every console whose cursor
  is on the screen or just behind it, the handler appends the message of that vector in light red,
  clipped at the end of the screen: the cursor never passes 2000, no cell outside the range between
  the old and the new cursor changes, and the eight hexadecimal digits are those of the
  \<^verbatim>\<open>error_code\<close> field.
\<close>

theorem exception_handler_prints:
  fixes vector :: u32 and frame :: ck_exception_frame and cursor :: u16
  assumes "unat vector < 32" and "unat cursor \<le> VGA_MEMSIZE"
  defines "msg \<equiv> exception_message (unat vector) (error_code frame)"
  shows "\<exists>cursor' cells'. ck_exception_handler vector frame (cursor, cells) = Some (cursor', cells') \<and>
    unat cursor' = min VGA_MEMSIZE (unat cursor + length msg) \<and>
    (\<forall>i. cells' i = (if unat cursor \<le> i \<and> i < unat cursor'
                       then vga_cell 0x0C (msg ! (i - unat cursor)) else cells i)) \<and>
    hex_value (hex8 (error_code frame)) = unat (error_code frame)"
proof -
  obtain cursor' cells' where r: "puts_clipped 0x0C msg (cursor, cells) = (cursor', cells')"
    by fastforce
  then have "ck_exception_handler vector frame (cursor, cells) = Some (cursor', cells')"
    using exception_handler_eq [OF assms(1)] by (simp add: msg_def)
  with puts_clipped_spec [OF assms(2), of "0x0C" msg cells] show ?thesis
    unfolding r by (simp add: hex_value_hex8)
qed

definition sample_frame :: ck_exception_frame where
  "sample_frame = frame_at (exception_stack 14 2 0x100010 8 0x202
     \<lparr>edi = 0, esi = 0, ebp = 0, esp = 0, ebx = 0, edx = 0, ecx = 0, eax = 0\<rparr>)"

theorem exception_handler_prints_witness:
  "\<exists>cursor' cells'. ck_exception_handler 14 sample_frame (0, \<lambda>_. 0) = Some (cursor', cells') \<and>
     unat cursor' = length (exception_message 14 (error_code sample_frame))"
  using exception_handler_prints [of 14 0 sample_frame "\<lambda>_. 0"]
  by (auto simp: exception_message_def hex8_def ck_exception_names_def has_error_code_def)

text \<open>
  The frame pointer that the stubs hand to the dispatcher. The vector argument is right and the
  saved registers are the interrupted ones, but the stub pushes the vector between the registers and
  the error code, and \<^verbatim>\<open>struct ck_exception_frame\<close> has no field for it: \<^verbatim>\<open>error_code\<close> always holds the
  vector, \<^verbatim>\<open>eip\<close> holds the error code (0 where there is none) and \<^verbatim>\<open>cs\<close> holds EIP.
\<close>

theorem exception_frame_shifted:
  "unat (vector_argument (exception_stack vector err ip c fl r)) = vector mod 2 ^ 32 \<and>
   regs (frame_at (exception_stack vector err ip c fl r)) = r \<and>
   error_code (frame_at (exception_stack vector err ip c fl r)) = of_nat vector \<and>
   eip (frame_at (exception_stack vector err ip c fl r)) = (if has_error_code vector then err else 0) \<and>
   cs (frame_at (exception_stack vector err ip c fl r)) = ip \<and>
   eflags (frame_at (exception_stack vector err ip c fl r)) = c"
proof -
  have "exception_stack vector err ip c fl r =
      [edi r, esi r, ebp r, esp r, ebx r, edx r, ecx r, eax r, of_nat vector,
       if has_error_code vector then err else 0, ip, c, fl]"
    by (simp add: exception_stack_def pushad_def)
  then show ?thesis
    by (simp add: frame_at_def vector_argument_def numeral_eq_Suc unsigned_of_nat take_bit_eq_mod
        del: power_Suc)
qed

end
