(* ===== verification/Stubs.thy ===== *)
theory Stubs
  imports Exceptions Drivers
begin

text \<open>
  The assembly of the kernel as instruction lists on a small model of the processor: the interrupt stubs of
  \<^verbatim>\<open>src/src/interrupts/irq.asm\<close>, \<^verbatim>\<open>exceptions.asm\<close> and \<^verbatim>\<open>isr.asm\<close>, the tables of stubs that \<^verbatim>\<open>irq.c\<close> and
  \<^verbatim>\<open>exceptions.c\<close> put into the descriptor table, and the entry point of \<^verbatim>\<open>src/boot/boot.asm\<close>. The stack is a
  function from addresses to 32-bit words; the stack pointer is a machine word and wraps around. What a C
  function does to registers and stack is a parameter, bounded by the calling convention.
\<close>

section \<open>The processor\<close>

record cpu =
  gpr :: ck_registers
  c_eip :: u32
  c_cs :: u32
  c_eflags :: u32
  words :: "u32 \<Rightarrow> u32"
  c_halted :: bool

abbreviation sp :: "cpu \<Rightarrow> u32" where "sp c \<equiv> esp (gpr c)"

definition set_sp :: "u32 \<Rightarrow> cpu \<Rightarrow> cpu" where
  "set_sp a c = c\<lparr>gpr := (gpr c)\<lparr>esp := a\<rparr>\<rparr>"

definition push :: "u32 \<Rightarrow> cpu \<Rightarrow> cpu" where
  "push v c = (set_sp (sp c - 4) c)\<lparr>words := (words c)(sp c - 4 := v)\<rparr>"

definition arg :: "nat \<Rightarrow> cpu \<Rightarrow> u32" where
  "arg i c = words c (sp c + of_nat (4 * i))"

text \<open>\<^verbatim>\<open>pushad\<close> and \<^verbatim>\<open>popad\<close>; the stack pointer that \<^verbatim>\<open>pushad\<close> stores is the one before it, and \<^verbatim>\<open>popad\<close> skips it.\<close>

definition do_pushad :: "cpu \<Rightarrow> cpu" where
  "do_pushad c = fold push [eax (gpr c), ecx (gpr c), edx (gpr c), ebx (gpr c), sp c,
     ebp (gpr c), esi (gpr c), edi (gpr c)] c"

definition do_popad :: "cpu \<Rightarrow> cpu" where
  "do_popad c = c\<lparr>gpr := \<lparr>edi = arg 0 c, esi = arg 1 c, ebp = arg 2 c, esp = sp c + 32, ebx = arg 4 c,
     edx = arg 5 c, ecx = arg 6 c, eax = arg 7 c\<rparr>\<rparr>"

definition do_iret :: "cpu \<Rightarrow> cpu" where
  "do_iret c = (set_sp (sp c + 12) c)\<lparr>c_eip := arg 0 c, c_cs := arg 1 c, c_eflags := arg 2 c\<rparr>"

datatype instr =
    PUSH_dword u32
  | PUSHAD
  | MOV_EAX_at_ESP nat
  | PUSH_ESP
  | PUSH_EAX
  | CALL
  | ADD_ESP u32
  | POPAD
  | IRET
  | CLI
  | HLT
  | MOV_ESP u32
  | AND_ESP u32

text \<open>
  One instruction, on the processor and the state the C code works on; \<open>call\<close> is the effect of the C
  function that the code calls. \<^verbatim>\<open>hlt\<close> with interrupts off stops the processor.
\<close>

fun exec1 :: "(cpu \<times> 's \<Rightarrow> cpu \<times> 's) \<Rightarrow> instr \<Rightarrow> cpu \<times> 's \<Rightarrow> cpu \<times> 's" where
  "exec1 call (PUSH_dword v) (c, s) = (push v c, s)"
| "exec1 call PUSHAD (c, s) = (do_pushad c, s)"
| "exec1 call (MOV_EAX_at_ESP off) (c, s) = (c\<lparr>gpr := (gpr c)\<lparr>eax := words c (sp c + of_nat off)\<rparr>\<rparr>, s)"
| "exec1 call PUSH_ESP (c, s) = (push (sp c) c, s)"
| "exec1 call PUSH_EAX (c, s) = (push (eax (gpr c)) c, s)"
| "exec1 call CALL (c, s) = call (c, s)"
| "exec1 call (ADD_ESP n) (c, s) = (set_sp (sp c + n) c, s)"
| "exec1 call POPAD (c, s) = (do_popad c, s)"
| "exec1 call IRET (c, s) = (do_iret c, s)"
| "exec1 call CLI (c, s) = (c\<lparr>c_eflags := c_eflags c AND NOT 0x200\<rparr>, s)"
| "exec1 call HLT (c, s) = (c\<lparr>c_halted := True\<rparr>, s)"
| "exec1 call (MOV_ESP a) (c, s) = (set_sp a c, s)"
| "exec1 call (AND_ESP m) (c, s) = (set_sp (sp c AND m) c, s)"

text \<open>A stopped processor executes nothing more.\<close>

fun exec :: "(cpu \<times> 's \<Rightarrow> cpu \<times> 's) \<Rightarrow> instr list \<Rightarrow> cpu \<times> 's \<Rightarrow> cpu \<times> 's" where
  "exec call [] w = w"
| "exec call (i # is) w = (if c_halted (fst w) then w else exec call is (exec1 call i w))"

text \<open>
  The processor takes an interrupt through an interrupt gate: flags, code segment, return address and
  perhaps an error code are pushed, and the flags VM, RF, NT, IF and TF are cleared.
\<close>

definition take_interrupt :: "u32 option \<Rightarrow> u32 \<Rightarrow> cpu \<Rightarrow> cpu" where
  "take_interrupt err target c =
     (let c1 = push (c_eip c) (push (c_cs c) (push (c_eflags c) c));
          c2 = (case err of None \<Rightarrow> c1 | Some e \<Rightarrow> push e c1)
      in c2\<lparr>c_eip := target, c_cs := ucast CK_KERNEL_CS, c_eflags := c_eflags c AND NOT 0x34300\<rparr>)"

section \<open>The code\<close>

datatype stub = ck_isr_default_stub | ck_isr_exception nat | ck_isr_irq nat

definition ck_irq_common :: "instr list" where
  "ck_irq_common = [PUSHAD, MOV_EAX_at_ESP 32, PUSH_ESP, PUSH_EAX, CALL, ADD_ESP 8, POPAD, ADD_ESP 4, IRET]"

definition ck_exception_common :: "instr list" where
  "ck_exception_common = [PUSHAD, MOV_EAX_at_ESP 32, PUSH_ESP, PUSH_EAX, CALL, ADD_ESP 8, POPAD, ADD_ESP 8, IRET]"

text \<open>The macros \<^verbatim>\<open>CK_ISR_IRQ\<close>, \<^verbatim>\<open>CK_ISR_NO_ERROR\<close> and \<^verbatim>\<open>CK_ISR_WITH_ERROR\<close>, and the default stub.\<close>

fun stub_code :: "stub \<Rightarrow> instr list" where
  "stub_code ck_isr_default_stub = [CLI, HLT]"
| "stub_code (ck_isr_exception n) =
     (if stub_expects_error n then [PUSH_dword (of_nat n)] else [PUSH_dword 0, PUSH_dword (of_nat n)]) @ ck_exception_common"
| "stub_code (ck_isr_irq n) = PUSH_dword (of_nat n) # ck_irq_common"

definition ck_exception_handlers :: "stub list" where
  "ck_exception_handlers = [
     ck_isr_exception 0, ck_isr_exception 1, ck_isr_exception 2, ck_isr_exception 3,
     ck_isr_exception 4, ck_isr_exception 5, ck_isr_exception 6, ck_isr_exception 7,
     ck_isr_exception 8, ck_isr_exception 9, ck_isr_exception 10, ck_isr_exception 11,
     ck_isr_exception 12, ck_isr_exception 13, ck_isr_exception 14, ck_isr_exception 15,
     ck_isr_exception 16, ck_isr_exception 17, ck_isr_exception 18, ck_isr_exception 19,
     ck_isr_exception 20, ck_isr_exception 21, ck_isr_exception 22, ck_isr_exception 23,
     ck_isr_exception 24, ck_isr_exception 25, ck_isr_exception 26, ck_isr_exception 27,
     ck_isr_exception 28, ck_isr_exception 29, ck_isr_exception 30, ck_isr_exception 31]"

definition ck_irq_handlers_asm :: "stub list" where
  "ck_irq_handlers_asm = [
     ck_isr_irq 0, ck_isr_irq 1, ck_isr_irq 2, ck_isr_irq 3,
     ck_isr_irq 4, ck_isr_irq 5, ck_isr_irq 6, ck_isr_irq 7,
     ck_isr_irq 8, ck_isr_irq 9, ck_isr_irq 10, ck_isr_irq 11,
     ck_isr_irq 12, ck_isr_irq 13, ck_isr_irq 14, ck_isr_irq 15]"

text \<open>The entry point, up to the call of \<^verbatim>\<open>ck_main\<close> and the loop behind it.\<close>

definition ck_start :: "u32 \<Rightarrow> instr list" where
  "ck_start ck_stack_top = [CLI, MOV_ESP ck_stack_top, AND_ESP 0xFFFFFFF0, CALL, CLI, HLT]"

text \<open>The multiboot header as its 32-bit words; the last two are the end tag.\<close>

definition mb2_header :: "u32 list" where
  "mb2_header = [0xE85250D6, 0, 24, of_int (0x100000000 - (0xE85250D6 + 0 + 24)), 0, 8]"

section \<open>Calls of C functions\<close>

text \<open>
  A C function reads its arguments above the stack pointer; \<open>clobber\<close> is what it does to the processor.
  The calling convention: it returns with the stack pointer and the registers EBX, ESI, EDI and EBP as
  they were, and does not write to the words of the stack above its \<open>args\<close> arguments, up to word \<open>n\<close>.
\<close>

definition c_call :: "(cpu \<Rightarrow> cpu) \<Rightarrow> (u32 \<Rightarrow> 's \<Rightarrow> 's) \<Rightarrow> cpu \<times> 's \<Rightarrow> cpu \<times> 's" where
  "c_call clobber f = (\<lambda>(c, s). (clobber c, f (arg 0 c) s))"

definition cdecl_ok :: "nat \<Rightarrow> nat \<Rightarrow> (cpu \<Rightarrow> cpu) \<Rightarrow> bool" where
  "cdecl_ok args n clobber \<longleftrightarrow> (\<forall>c. sp (clobber c) = sp c \<and> ebx (gpr (clobber c)) = ebx (gpr c) \<and>
     esi (gpr (clobber c)) = esi (gpr c) \<and> edi (gpr (clobber c)) = edi (gpr c) \<and>
     ebp (gpr (clobber c)) = ebp (gpr c) \<and> c_halted (clobber c) = c_halted c \<and>
     (\<forall>i. args \<le> i \<and> i < n \<longrightarrow> arg i (clobber c) = arg i c))"

section \<open>Stack words\<close>

lemma push_fields [simp]:
  "sp (push v c) = sp c - 4" "words (push v c) = (words c)(sp c - 4 := v)"
  "eax (gpr (push v c)) = eax (gpr c)" "ecx (gpr (push v c)) = ecx (gpr c)" "edx (gpr (push v c)) = edx (gpr c)"
  "ebx (gpr (push v c)) = ebx (gpr c)" "ebp (gpr (push v c)) = ebp (gpr c)" "esi (gpr (push v c)) = esi (gpr c)"
  "edi (gpr (push v c)) = edi (gpr c)" "c_eip (push v c) = c_eip c" "c_cs (push v c) = c_cs c"
  "c_eflags (push v c) = c_eflags c" "c_halted (push v c) = c_halted c"
  by (simp_all add: push_def set_sp_def)

text \<open>The top \<open>n\<close> words of the stack, the last pushed first: pushing and popping are list operations.\<close>

definition stack :: "nat \<Rightarrow> cpu \<Rightarrow> u32 list" where
  "stack n c = map (\<lambda>i. arg i c) [0..<n]"

lemma length_stack [simp]: "length (stack n c) = n"
  by (simp add: stack_def)

lemma stack_nth: "i < n \<Longrightarrow> stack n c ! i = arg i c"
  by (simp add: stack_def)

lemma arg_push:
  assumes "i < 2 ^ 30"
  shows "arg i (push v c) = (if i = 0 then v else arg (i - 1) c)"
proof (cases i)
  case (Suc j)
  have "unat (of_nat (4 * Suc j) :: u32) = 4 * Suc j" using assms Suc by (intro unat_of_nat_u32) simp
  then have "(of_nat (4 * Suc j) :: u32) \<noteq> 0" by auto
  then have ne: "sp c - 4 + of_nat (4 * Suc j) \<noteq> sp c - 4" by (simp only: add_cancel_left_right not_False_eq_True)
  have eq: "sp c - 4 + of_nat (4 * Suc j) = sp c + of_nat (4 * j)" by (simp add: algebra_simps)
  have "arg i (push v c) = words c (sp c - 4 + of_nat (4 * Suc j))"
    unfolding arg_def push_fields Suc by (rule fun_upd_other [OF ne])
  then show ?thesis unfolding eq by (simp add: arg_def Suc)
qed (simp add: arg_def)

lemma stack_push: "n < 2 ^ 30 \<Longrightarrow> stack (Suc n) (push v c) = v # stack n c"
  by (rule nth_equalityI) (auto simp: stack_nth arg_push nth_Cons')

lemma stack_pushes: "length vs + n < 2 ^ 30 \<Longrightarrow> stack (length vs + n) (fold push vs c) = rev vs @ stack n c"
proof (induction vs arbitrary: c n)
  case (Cons v vs)
  have "stack (length vs + Suc n) (fold push vs (push v c)) = rev vs @ stack (Suc n) (push v c)"
    using Cons.prems by (intro Cons.IH) simp
  then show ?case using Cons.prems by (simp add: stack_push)
qed simp

lemma stack_pop: "stack n (set_sp (sp c + of_nat (4 * k)) c) = drop k (stack (k + n) c)"
  by (rule nth_equalityI) (simp_all add: stack_nth arg_def set_sp_def algebra_simps)

lemma stack_cong: "sp c' = sp c \<Longrightarrow> words c' = words c \<Longrightarrow> stack n c' = stack n c"
  by (simp add: stack_def arg_def)

lemma stack_cdecl:
  assumes "cdecl_ok args n clobber"
  shows "drop args (stack n (clobber c)) = drop args (stack n c)"
  using assms by (intro nth_equalityI) (simp_all add: stack_nth cdecl_ok_def)


section \<open>Saving and restoring\<close>

lemma exec_append: "exec call (is @ js) w = exec call js (exec call is w)"
proof (induction "is" arbitrary: w)
  case (Cons i "is")
  then show ?case by (cases js) auto
qed simp

lemma pushad_fields [simp]:
  "sp (do_pushad c) = sp c - 32" "c_halted (do_pushad c) = c_halted c"
  by (simp_all add: do_pushad_def)

lemma stack_pushad:
  assumes "n + 8 < 2 ^ 30"
  shows "stack (8 + n) (do_pushad c) = pushad (gpr c) (stack n c)"
proof -
  let ?vs = "[eax (gpr c), ecx (gpr c), edx (gpr c), ebx (gpr c), sp c, ebp (gpr c), esi (gpr c), edi (gpr c)]"
  have len: "length ?vs = 8" by simp
  have "stack (8 + n) (fold push ?vs c) = rev ?vs @ stack n c"
    using stack_pushes [of ?vs n c] assms unfolding len by simp
  then show ?thesis by (simp add: do_pushad_def pushad_def)
qed

text \<open>What both kinds of stubs do before the call, from a stack with the number \<open>v\<close> on top.\<close>

definition stub_prologue :: "instr list" where
  "stub_prologue = [PUSHAD, MOV_EAX_at_ESP 32, PUSH_ESP, PUSH_EAX]"

lemma stub_prologue:
  fixes c :: cpu
  assumes "n + 11 < 2 ^ 30" and "stack (Suc n) c = v # rest" and "\<not> c_halted c"
  obtains c' where "exec call stub_prologue (c, s) = (c', s)" "sp c' = sp c - 40" "\<not> c_halted c'"
    "stack (n + 11) c' = [v, sp c - 32] @ pushad (gpr c) (v # rest)"
proof -
  let ?c2 = "(do_pushad c)\<lparr>gpr := (gpr (do_pushad c))\<lparr>eax := words (do_pushad c) (sp (do_pushad c) + of_nat 32)\<rparr>\<rparr>"
  let ?c3 = "push (sp ?c2) ?c2"
  let ?c4 = "push (eax (gpr ?c3)) ?c3"
  have st: "stack (n + 9) (do_pushad c) = pushad (gpr c) (v # rest)"
    using stack_pushad [of "Suc n" c] assms(1,2) by (simp add: add.commute)
  have "words (do_pushad c) (sp (do_pushad c) + of_nat 32) = stack (n + 9) (do_pushad c) ! 8"
    by (simp add: stack_nth arg_def)
  then have v: "eax (gpr ?c2) = v" by (simp add: st pushad_def)
  have "stack (n + 9) ?c2 = pushad (gpr c) (v # rest)" unfolding st [symmetric] by (rule stack_cong) simp_all
  then have s3: "stack (n + 10) ?c3 = (sp c - 32) # pushad (gpr c) (v # rest)"
    using stack_push [of "n + 9" "sp ?c2" ?c2] assms(1) by (simp add: add.commute)
  have "stack (n + 11) ?c4 = v # (sp c - 32) # pushad (gpr c) (v # rest)"
    using stack_push [of "n + 10" "eax (gpr ?c3)" ?c3] assms(1) s3 v by (simp add: add.commute)
  moreover have "exec call stub_prologue (c, s) = (?c4, s)"
    using assms(3) by (simp add: stub_prologue_def)
  ultimately show ?thesis using assms(3) by (intro that [of ?c4]) simp_all
qed

lemma stack_nth_eq: "stack n c = vs \<Longrightarrow> i < n \<Longrightarrow> arg i c = vs ! i"
  by (auto simp: stack_nth)

text \<open>After the call: the arguments are dropped and the registers restored.\<close>

lemma stub_epilogue:
  fixes c c0 :: cpu
  assumes "drop 2 (stack (n + 11) c) = pushad (gpr c0) (v # rest)" and "sp c = sp c0 - 40" and "\<not> c_halted c"
  obtains c' where "exec call [ADD_ESP 8, POPAD] (c, s) = (c', s)" "gpr c' = gpr c0" "\<not> c_halted c'"
    "stack (Suc n) c' = v # rest"
proof -
  let ?c1 = "set_sp (sp c + 8) c"
  have s1: "stack (n + 9) ?c1 = pushad (gpr c0) (v # rest)"
    using stack_pop [of "n + 9" c 2] assms(1) by (simp add: add.commute)
  note a = stack_nth_eq [OF s1]
  have g: "gpr (do_popad ?c1) = gpr c0"
    using a [of 0] a [of 1] a [of 2] a [of 4] a [of 5] a [of 6] a [of 7]
    by (simp add: do_popad_def pushad_def set_sp_def assms(2))
  have "stack (Suc n) (do_popad ?c1) = stack (Suc n) (set_sp (sp ?c1 + of_nat (4 * 8)) ?c1)"
    by (rule stack_cong) (simp_all add: do_popad_def set_sp_def)
  also have "\<dots> = drop 8 (stack (n + 9) ?c1)" using stack_pop [of "Suc n" ?c1 8] by (simp add: add.commute)
  also have "\<dots> = v # rest" by (simp add: s1 pushad_def)
  finally have "stack (Suc n) (do_popad ?c1) = v # rest" .
  moreover have "exec call [ADD_ESP 8, POPAD] (c, s) = (do_popad ?c1, s)" "\<not> c_halted (do_popad ?c1)"
    using assms(3) by (simp_all add: set_sp_def do_popad_def)
  ultimately show ?thesis using that g by blast
qed


lemma take_interrupt_fields [simp]:
  "sp (take_interrupt None a c) = sp c - 12" "c_halted (take_interrupt err a c) = c_halted c"
  by (simp_all add: take_interrupt_def Let_def split: option.split)

lemma stack_take_interrupt:
  assumes "n + 4 < 2 ^ 30"
  shows "stack (n + 3) (take_interrupt None a c) = [c_eip c, c_cs c, c_eflags c] @ stack n c"
    and "stack (n + 4) (take_interrupt (Some e) a c) = [e, c_eip c, c_cs c, c_eflags c] @ stack n c"
proof -
  let ?c1 = "push (c_eip c) (push (c_cs c) (push (c_eflags c) c))"
  have three: "stack (n + 3) ?c1 = [c_eip c, c_cs c, c_eflags c] @ stack n c"
    using assms by (simp add: stack_push numeral_3_eq_3)
  then show "stack (n + 3) (take_interrupt None a c) = [c_eip c, c_cs c, c_eflags c] @ stack n c"
    by (subst stack_cong [of _ ?c1]) (simp_all add: take_interrupt_def Let_def)
  have "stack (n + 4) (push e ?c1) = e # stack (n + 3) ?c1"
    using assms stack_push [of "n + 3" e ?c1] by (simp add: add.commute)
  then show "stack (n + 4) (take_interrupt (Some e) a c) = [e, c_eip c, c_cs c, c_eflags c] @ stack n c"
    using three by (subst stack_cong [of _ "push e ?c1"]) (simp_all add: take_interrupt_def Let_def)
qed

text \<open>The return from an interrupt, with the words the processor pushed and a number above them.\<close>

lemma stub_return:
  fixes c :: cpu
  assumes "stack (n + 4) c = v # [ip, c_s, fl] @ rest" and "\<not> c_halted c"
  obtains c' where "exec call [ADD_ESP 4, IRET] (c, s) = (c', s)" "gpr c' = (gpr c)\<lparr>esp := sp c + 16\<rparr>"
    "c_eip c' = ip" "c_cs c' = c_s" "c_eflags c' = fl" "stack n c' = rest" "\<not> c_halted c'"
proof -
  let ?c1 = "set_sp (sp c + 4) c"
  let ?c2 = "do_iret ?c1"
  have s1: "stack (n + 3) ?c1 = [ip, c_s, fl] @ rest" using stack_pop [of "n + 3" c 1] assms(1) by (simp add: add.commute)
  note a = stack_nth_eq [OF s1]
  have "stack n ?c2 = stack n (set_sp (sp ?c1 + of_nat (4 * 3)) ?c1)"
    by (rule stack_cong) (simp_all add: do_iret_def set_sp_def)
  also have "\<dots> = drop 3 (stack (n + 3) ?c1)" using stack_pop [of n ?c1 3] by (simp add: add.commute)
  finally have st: "stack n ?c2 = rest" by (simp add: s1)
  show ?thesis
  proof (rule that [of ?c2])
    show "exec call [ADD_ESP 4, IRET] (c, s) = (?c2, s)" using assms(2) by (simp add: set_sp_def)
    show "c_eip ?c2 = ip" "c_cs ?c2 = c_s" "c_eflags ?c2 = fl"
      using a [of 0] a [of 1] a [of 2] by (simp_all add: do_iret_def)
  qed (use assms(2) st in \<open>simp_all add: do_iret_def set_sp_def\<close>)
qed

text \<open>An interrupt stub from the interrupted program back to it.\<close>

lemma irq_stub_returns:
  assumes "cdecl_ok 2 (n + 14) clobber" and "n + 14 < 2 ^ 30" and "\<not> c_halted c"
  obtains c' where "exec (c_call clobber f) (stub_code (ck_isr_irq i)) (take_interrupt None target c, s) = (c', f (of_nat i) s)"
    "gpr c' = gpr c" "c_eip c' = c_eip c" "c_cs c' = c_cs c" "c_eflags c' = c_eflags c" "stack n c' = stack n c"
    "\<not> c_halted c'"
proof -
  let ?call = "c_call clobber f"
  let ?c1 = "push (of_nat i) (take_interrupt None target c)"
  let ?rest = "[c_eip c, c_cs c, c_eflags c] @ stack n c"
  have c1: "sp ?c1 = sp c - 16" "\<not> c_halted ?c1" using assms(3) by simp_all
  have s1: "stack (Suc (n + 3)) ?c1 = of_nat i # ?rest"
    using stack_push [of "n + 3" "of_nat i" "take_interrupt None target c"] stack_take_interrupt(1) [of n target c] assms(2)
    by simp
  have "n + 3 + 11 < 2 ^ 30" using assms(2) by simp
  then obtain c5 where p: "exec ?call stub_prologue (?c1, s) = (c5, s)" "sp c5 = sp ?c1 - 40" "\<not> c_halted c5"
    "stack (n + 3 + 11) c5 = [of_nat i, sp ?c1 - 32] @ pushad (gpr ?c1) (of_nat i # ?rest)"
    by (rule stub_prologue [OF _ s1 c1(2)])
  have cl: "sp (clobber c5) = sp ?c1 - 40" "\<not> c_halted (clobber c5)"
    using assms(1) p(2,3) by (simp_all add: cdecl_ok_def)
  have "drop 2 (stack (n + 3 + 11) (clobber c5)) = pushad (gpr ?c1) (of_nat i # ?rest)"
    using stack_cdecl [OF assms(1), of c5] p(4) by (simp add: add.commute)
  then obtain c7 where e: "exec ?call [ADD_ESP 8, POPAD] (clobber c5, f (of_nat i) s) = (c7, f (of_nat i) s)"
    "gpr c7 = gpr ?c1" "\<not> c_halted c7" "stack (Suc (n + 3)) c7 = of_nat i # ?rest"
    by (rule stub_epilogue [OF _ cl])
  have "stack (n + 4) c7 = of_nat i # [c_eip c, c_cs c, c_eflags c] @ stack n c" using e(4) by (simp add: add.commute)
  then obtain c' where r: "exec ?call [ADD_ESP 4, IRET] (c7, f (of_nat i) s) = (c', f (of_nat i) s)"
    "gpr c' = (gpr c7)\<lparr>esp := sp c7 + 16\<rparr>" "c_eip c' = c_eip c" "c_cs c' = c_cs c" "c_eflags c' = c_eflags c"
    "stack n c' = stack n c" "\<not> c_halted c'"
    by (rule stub_return [OF _ e(3)])
  have "arg 0 c5 = of_nat i" using stack_nth_eq [OF p(4), of 0] by simp
  then have call: "exec ?call [CALL] (c5, s) = (clobber c5, f (of_nat i) s)" using p(3) by (simp add: c_call_def)
  have code: "stub_code (ck_isr_irq i) = [PUSH_dword (of_nat i)] @ stub_prologue @ [CALL] @ [ADD_ESP 8, POPAD] @ [ADD_ESP 4, IRET]"
    by (simp add: ck_irq_common_def stub_prologue_def)
  have "exec ?call (stub_code (ck_isr_irq i)) (take_interrupt None target c, s) = (c', f (of_nat i) s)"
    unfolding code exec_append using assms(3) p(1) call e(1) r(1) by simp
  moreover have "gpr c' = gpr c" using r(2) e(2) by (simp add: push_def set_sp_def take_interrupt_def Let_def)
  ultimately show ?thesis using that r(3-7) by blast
qed


section \<open>The call of a function that does not return\<close>

text \<open>
  The exception dispatcher and the shell never return: the call stops the processor, and the state in
  which the function was entered is the result.
\<close>

definition final_call :: "cpu \<times> cpu option \<Rightarrow> cpu \<times> cpu option" where
  "final_call = (\<lambda>(c, s). (c\<lparr>c_halted := True\<rparr>, Some c))"

lemma exec_halted: "c_halted c \<Longrightarrow> exec call is (c, s) = (c, s)"
  by (cases "is") simp_all

lemma exec_final_call: "\<not> c_halted c \<Longrightarrow> exec final_call (CALL # is) (c, s) = (c\<lparr>c_halted := True\<rparr>, Some c)"
  by (simp add: final_call_def exec_halted)

text \<open>The stack above the vector when the common part of the exception stubs begins.\<close>

lemma exception_stub_stack:
  fixes c :: cpu
  assumes "n + 14 < 2 ^ 30" and "\<not> c_halted c"
  obtains c1 where "\<And>call (s :: cpu option). exec call (if has_error_code v then [PUSH_dword (of_nat v)] else [PUSH_dword 0, PUSH_dword (of_nat v)])
      (take_interrupt (if has_error_code v then Some e else None) target c, s) = (c1, s)"
    "stack (Suc (n + 4)) c1 = of_nat v # [if has_error_code v then e else 0, c_eip c, c_cs c, c_eflags c] @ stack n c"
    "gpr c1 = (gpr c)\<lparr>esp := sp c - 20\<rparr>" "\<not> c_halted c1"
proof (cases "has_error_code v")
  case True
  let ?c1 = "push (of_nat v) (take_interrupt (Some e) target c)"
  have "stack (Suc (n + 4)) ?c1 = of_nat v # [e, c_eip c, c_cs c, c_eflags c] @ stack n c"
    using stack_push [of "n + 4"] stack_take_interrupt(2) [of n e target c] assms(1) by simp
  moreover have "gpr ?c1 = (gpr c)\<lparr>esp := sp c - 20\<rparr>" by (simp add: take_interrupt_def push_def set_sp_def Let_def)
  ultimately show ?thesis using True assms(2) by (intro that [of ?c1]) simp_all
next
  case False
  let ?c0 = "push 0 (take_interrupt None target c)"
  let ?c1 = "push (of_nat v) ?c0"
  have "stack (n + 4) ?c0 = [0, c_eip c, c_cs c, c_eflags c] @ stack n c"
    using stack_push [of "n + 3" 0 "take_interrupt None target c"] stack_take_interrupt(1) [of n target c] assms(1)
    by (simp add: add.commute)
  then have "stack (Suc (n + 4)) ?c1 = of_nat v # [0, c_eip c, c_cs c, c_eflags c] @ stack n c"
    using stack_push [of "n + 4" "of_nat v" ?c0] assms(1) by simp
  moreover have "gpr ?c1 = (gpr c)\<lparr>esp := sp c - 20\<rparr>" by (simp add: take_interrupt_def push_def set_sp_def Let_def)
  ultimately show ?thesis using False assms(2) by (intro that [of ?c1]) simp_all
qed

text \<open>What the dispatcher receives: the vector, and a pointer to the words of \<open>exception_stack\<close>.\<close>

lemma exception_stub_call:
  fixes c :: cpu
  assumes "\<not> c_halted c"
  obtains c' where "snd (exec final_call (stub_code (ck_isr_exception v))
      (take_interrupt (if has_error_code v then Some e else None) target c, None)) = Some c'"
    "arg 0 c' = of_nat v" "map (\<lambda>i. words c' (arg 1 c' + of_nat (4 * i))) [0..<13] =
      exception_stack v e (c_eip c) (c_cs c) (c_eflags c) ((gpr c)\<lparr>esp := sp c - 20\<rparr>)"
proof -
  let ?push = "if has_error_code v then [PUSH_dword (of_nat v)] else [PUSH_dword 0, PUSH_dword (of_nat v)]"
  let ?rest = "[if has_error_code v then e else 0, c_eip c, c_cs c, c_eflags c]"
  obtain c1 where 1: "\<And>call (s :: cpu option). exec call ?push (take_interrupt (if has_error_code v then Some e else None) target c, s) = (c1, s)"
    "stack (Suc (0 + 4)) c1 = of_nat v # ?rest @ stack 0 c" "gpr c1 = (gpr c)\<lparr>esp := sp c - 20\<rparr>" "\<not> c_halted c1"
    by (rule exception_stub_stack [of 0 c v e target]) (use assms in simp_all)
  have "stack (Suc 4) c1 = of_nat v # ?rest" using 1(2) by (simp add: stack_def)
  then obtain c5 where 5: "exec final_call stub_prologue (c1, None) = (c5, None)" "sp c5 = sp c1 - 40" "\<not> c_halted c5"
    "stack (4 + 11) c5 = [of_nat v, sp c1 - 32] @ pushad (gpr c1) (of_nat v # ?rest)"
    by (rule stub_prologue [rotated]) (use 1(4) in simp_all)
  have code: "stub_code (ck_isr_exception v) = ?push @ stub_prologue @ CALL # [ADD_ESP 8, POPAD, ADD_ESP 8, IRET]"
    by (simp add: ck_exception_common_def stub_prologue_def)
  have run: "snd (exec final_call (stub_code (ck_isr_exception v))
      (take_interrupt (if has_error_code v then Some e else None) target c, None)) = Some c5"
    unfolding code exec_append 1(1) 5(1) exec_final_call [OF 5(3)] by simp
  have args: "arg 0 c5 = of_nat v" "arg 1 c5 = sp c5 + 8"
    using stack_nth_eq [OF 5(4), of 0] stack_nth_eq [OF 5(4), of 1] by (simp_all add: 5(2))
  have "map (\<lambda>i. words c5 (arg 1 c5 + of_nat (4 * i))) [0..<13] = drop 2 (stack 15 c5)"
    unfolding args(2) by (rule nth_equalityI) (simp_all add: stack_nth arg_def algebra_simps)
  also have "\<dots> = exception_stack v e (c_eip c) (c_cs c) (c_eflags c) ((gpr c)\<lparr>esp := sp c - 20\<rparr>)"
    using 5(4) by (simp add: exception_stack_def 1(3))
  finally show ?thesis using that run args(1) by blast
qed


section \<open>Properties\<close>

text \<open>Statics of an interrupted program, and a C function that uses what the convention leaves it, for the witnesses.\<close>

definition sample_cpu :: cpu where
  "sample_cpu = \<lparr>gpr = \<lparr>edi = 1, esi = 2, ebp = 3, esp = 0x10FFF0, ebx = 4, edx = 5, ecx = 6, eax = 7\<rparr>,
     c_eip = 0x100200, c_cs = 0x10, c_eflags = 0x202, words = (\<lambda>a. a), c_halted = False\<rparr>"

definition sample_clobber :: "cpu \<Rightarrow> cpu" where
  "sample_clobber c = c\<lparr>gpr := (gpr c)\<lparr>eax := 0, ecx := 99, edx := 77\<rparr>,
     words := (words c)(sp c := 0, sp c + 4 := 0)\<rparr>"

lemma sample_clobber_ok:
  assumes "n < 2 ^ 30"
  shows "cdecl_ok 2 n sample_clobber"
proof -
  have "sp c + of_nat (4 * i) \<noteq> sp c \<and> sp c + of_nat (4 * i) \<noteq> sp c + 4" if "2 \<le> i" "i < n" for c i
  proof -
    have u: "unat (of_nat (4 * i) :: u32) = 4 * i" using that assms by (intro unat_of_nat_u32) simp
    then have "(of_nat (4 * i) :: u32) \<noteq> 0" "(of_nat (4 * i) :: u32) \<noteq> 4"
      using that by (auto dest!: arg_cong [where f = unat] simp del: of_nat_mult)
    then show ?thesis by (simp del: of_nat_mult)
  qed
  then show ?thesis by (simp add: cdecl_ok_def sample_clobber_def arg_def del: of_nat_mult)
qed

lemma exception_handler_nth: "v < 32 \<Longrightarrow> ck_exception_handlers ! v = ck_isr_exception v"
  by (auto simp: ck_exception_handlers_def less_Suc_eq numeral_eq_Suc)

text \<open>
  C38: what the exception dispatcher is given. Executing the stub in the table for vector \<open>v\<close> instruction by instruction,
  from the moment the processor takes the exception, calls the dispatcher with the vector as its first
  argument and a pointer to the frame as its second. The frame holds the interrupted registers (the stack
  pointer as it is below the five words pushed); but its field \<^verbatim>\<open>error_code\<close> holds the vector, \<^verbatim>\<open>eip\<close>
  holds the error code (0 where there is none), \<^verbatim>\<open>cs\<close> holds the return address and \<^verbatim>\<open>eflags\<close> the code
  segment, because the stub pushes the vector between the registers and the error code.
\<close>

theorem exception_stub_frame:
  fixes c :: cpu
  assumes "\<not> c_halted c" and "v < 32"
  shows "\<exists>c'. snd (exec final_call (stub_code (ck_exception_handlers ! v))
        (take_interrupt (if has_error_code v then Some e else None) target c, None)) = Some c' \<and>
    arg 0 c' = of_nat v \<and>
    frame_at (map (\<lambda>i. words c' (arg 1 c' + of_nat (4 * i))) [0..<13]) =
      \<lparr>regs = (gpr c)\<lparr>esp := sp c - 20\<rparr>, error_code = of_nat v,
       eip = (if has_error_code v then e else 0), cs = c_eip c, eflags = c_cs c\<rparr>"
proof (rule exception_stub_call [OF assms(1), of v e target])
  fix c'
  assume r: "snd (exec final_call (stub_code (ck_isr_exception v))
      (take_interrupt (if has_error_code v then Some e else None) target c, None)) = Some c'"
    "arg 0 c' = of_nat v" "map (\<lambda>i. words c' (arg 1 c' + of_nat (4 * i))) [0..<13] =
      exception_stack v e (c_eip c) (c_cs c) (c_eflags c) ((gpr c)\<lparr>esp := sp c - 20\<rparr>)"
  have "frame_at (exception_stack v e (c_eip c) (c_cs c) (c_eflags c) ((gpr c)\<lparr>esp := sp c - 20\<rparr>)) =
      \<lparr>regs = (gpr c)\<lparr>esp := sp c - 20\<rparr>, error_code = of_nat v,
       eip = (if has_error_code v then e else 0), cs = c_eip c, eflags = c_cs c\<rparr>"
    by (simp add: frame_at_def exception_stack_def pushad_def numeral_eq_Suc)
  with r show ?thesis unfolding exception_handler_nth [OF assms(2)] by (intro exI [of _ c']) simp_all
qed

theorem exception_stub_frame_witness:
  "\<exists>c'. snd (exec final_call (stub_code (ck_exception_handlers ! 14)) (take_interrupt (Some 2) 0x100300 sample_cpu, None)) = Some c' \<and>
    arg 0 c' = 14"
proof -
  have "has_error_code 14" by (simp add: has_error_code_def)
  then show ?thesis using exception_stub_frame [of sample_cpu 14 2 "0x100300"] by (auto simp: sample_cpu_def)
qed

text \<open>
  The entry point: \<^verbatim>\<open>ck_main\<close> is called with interrupts off and a stack pointer that is a multiple of 16,
  at most 15 bytes below the top of the stack; the default stub stops the processor with interrupts off.
  The header in front has the length it states, and its first four words add up to 0.
\<close>

theorem entry_and_default_stub:
  "\<exists>c'. snd (exec final_call (ck_start ck_stack_top) (c\<lparr>c_halted := False\<rparr>, None)) = Some c' \<and>
    \<not> bit (c_eflags c') 9 \<and> unat (sp c') mod 16 = 0 \<and> unat (sp c') \<le> unat ck_stack_top \<and>
    unat ck_stack_top < unat (sp c') + 16 \<and>
    c_halted (fst (exec call (stub_code ck_isr_default_stub) (c\<lparr>c_halted := False\<rparr>, s))) \<and>
    \<not> bit (c_eflags (fst (exec call (stub_code ck_isr_default_stub) (c\<lparr>c_halted := False\<rparr>, s)))) 9 \<and>
    unat (mb2_header ! 2) = 4 * length mb2_header \<and> sum_list (take 4 mb2_header) = 0"
proof -
  have m: "(0xFFFFFFF0 :: u32) = NOT (mask 4)" by (simp add: mask_eq_exp_minus_1)
  have "unat (ck_stack_top AND 0xFFFFFFF0) = unat ck_stack_top div 16 * 16"
  proof -
    have "ck_stack_top AND 0xFFFFFFF0 = push_bit 4 (drop_bit 4 ck_stack_top)"
      unfolding m by (rule bit_word_eqI) (auto simp: bit_simps)
    moreover have "unat ck_stack_top div 16 * 16 < 4294967296"
      using unat_u32_less [of ck_stack_top] div_times_less_eq_dividend [of "unat ck_stack_top" 16] by linarith
    ultimately show ?thesis
      by (simp add: push_bit_eq_mult drop_bit_eq_div unat_word_ariths unat_div)
  qed
  moreover have "bit (0x200 :: u32) 9" by (simp add: bit_numeral_rec)
  moreover have "\<not> bit (x AND NOT 0x200 :: u32) 9" for x by (simp add: bit_simps)
  ultimately show ?thesis
    by (simp add: ck_start_def final_call_def set_sp_def mb2_header_def)
qed

end
