(* ===== verification/Key_Race.thy ===== *)
theory Key_Race
  imports Keyboard
begin

text \<open>
  \<^verbatim>\<open>ck_keyboard_read_char\<close> of \<^verbatim>\<open>src/src/drivers/keyboard.c\<close> step by step, with timer and keyboard interrupts between
  the steps. The kernel's loops call it with interrupts enabled, and it reads the variables of the key
  repeat, which the keyboard handler writes, one after the other. Alone, and with only timer interrupts,
  the steps amount to the atomic definition of the theory of the keyboard; with a key press at the wrong
  moment they do not.
\<close>

section \<open>The steps\<close>

text \<open>
  Where the call is, with the values of its locals: before the test for an empty buffer, the load and the
  store of \<^verbatim>\<open>ck_keyboard_read_key\<close>; the test of the held key; the call of \<^verbatim>\<open>ck_timer_get_ticks\<close>; the two tests of
  the times; the stores of the time and of the scancode; the translation; and after the return.
\<close>

datatype read_pc = Start | Nonempty_buffer | Loaded_code u8 | Have_code u8 | Ask_time | Got_now u32 | Held_long u32
  | Due u32 | Stamped | Translate u8 | Returned u8

record read_system =
  rs_ticks :: u32
  rs_kbd :: keyboard
  rs_pc :: read_pc

definition read_step :: "read_system \<Rightarrow> read_system" where
  "read_step c =
     (let k = rs_kbd c in
      case rs_pc c of
        Start \<Rightarrow> c\<lparr>rs_pc := if ck_keyboard_head k = ck_keyboard_tail k then Have_code 0 else Nonempty_buffer\<rparr>
      | Nonempty_buffer \<Rightarrow> c\<lparr>rs_pc := Loaded_code (ck_keyboard_buffer k (unat (ck_keyboard_tail k)))\<rparr>
      | Loaded_code scancode \<Rightarrow>
          c\<lparr>rs_kbd := k\<lparr>ck_keyboard_tail := ring_next (ck_keyboard_tail k)\<rparr>, rs_pc := Have_code scancode\<rparr>
      | Have_code scancode \<Rightarrow>
          c\<lparr>rs_pc := if scancode = 0 \<and> ck_keyboard_held_key k \<noteq> 0 then Ask_time else Translate scancode\<rparr>
      | Ask_time \<Rightarrow> c\<lparr>rs_pc := Got_now (rs_ticks c)\<rparr>
      | Got_now now \<Rightarrow>
          c\<lparr>rs_pc := if now - ck_keyboard_held_key_time k \<ge> CK_KEY_REPEAT_INITIAL_DELAY then Held_long now
                    else Translate 0\<rparr>
      | Held_long now \<Rightarrow>
          c\<lparr>rs_pc := if now - ck_keyboard_last_repeat_time k \<ge> CK_KEY_REPEAT_INTERVAL then Due now
                    else Translate 0\<rparr>
      | Due now \<Rightarrow> c\<lparr>rs_kbd := k\<lparr>ck_keyboard_last_repeat_time := now\<rparr>, rs_pc := Stamped\<rparr>
      | Stamped \<Rightarrow> c\<lparr>rs_pc := Translate (ck_keyboard_held_key k)\<rparr>
      | Translate scancode \<Rightarrow>
          c\<lparr>rs_pc := Returned (if scancode = 0 then 0
                               else ck_scancode_to_ascii scancode (ck_keyboard_shift_pressed k))\<rparr>
      | Returned ch \<Rightarrow> c)"

text \<open>A step of the reader, or one of the two interrupts, whose handlers are atomic.\<close>

datatype read_event = Reader | Tick | Key u8

fun read_by :: "read_event \<Rightarrow> read_system \<Rightarrow> read_system" where
  "read_by Reader c = read_step c"
| "read_by Tick c = c\<lparr>rs_ticks := rs_ticks c + 1\<rparr>"
| "read_by (Key scancode) c = c\<lparr>rs_kbd := keyboard_irq scancode (rs_ticks c) (rs_kbd c)\<rparr>"

definition read_run :: "read_event list \<Rightarrow> read_system \<Rightarrow> read_system" where
  "read_run es c = fold read_by es c"

definition read_call :: "read_system \<Rightarrow> read_system" where
  "read_call c = c\<lparr>rs_pc := Start\<rparr>"

lemma read_run_simps [simp]:
  "read_run [] c = c" "read_run (e # es) c = read_run es (read_by e c)"
  "read_run (es @ fs) c = read_run fs (read_run es c)"
  by (simp_all add: read_run_def)

lemma read_run_ticks: "read_run (replicate n Tick) c = c\<lparr>rs_ticks := rs_ticks c + of_nat n\<rparr>"
  by (induction n arbitrary: c) (simp_all add: algebra_simps)

section \<open>Only timer interrupts\<close>

text \<open>
  Where a call that began with keyboard \<open>k0\<close> at tick \<open>t0\<close> can be when no key has been pressed since;
  \<open>t0 + n\<close> is the tick it has read the clock at.
\<close>

fun on_course :: "keyboard \<Rightarrow> u32 \<Rightarrow> nat \<Rightarrow> read_pc \<Rightarrow> keyboard \<Rightarrow> bool" where
  "on_course k0 t0 n Start k \<longleftrightarrow> k = k0"
| "on_course k0 t0 n Nonempty_buffer k \<longleftrightarrow> k = k0 \<and> ck_keyboard_head k \<noteq> ck_keyboard_tail k"
| "on_course k0 t0 n (Loaded_code x) k \<longleftrightarrow> k = k0 \<and> ck_keyboard_head k \<noteq> ck_keyboard_tail k \<and>
     x = ck_keyboard_buffer k (unat (ck_keyboard_tail k))"
| "on_course k0 t0 n (Have_code x) k \<longleftrightarrow> ck_keyboard_read_key k0 = (x, k)"
| "on_course k0 t0 n Ask_time k \<longleftrightarrow> ck_keyboard_read_key k0 = (0, k) \<and> ck_keyboard_held_key k \<noteq> 0"
| "on_course k0 t0 n (Got_now now) k \<longleftrightarrow> ck_keyboard_read_key k0 = (0, k) \<and> ck_keyboard_held_key k \<noteq> 0 \<and> now = t0 + of_nat n"
| "on_course k0 t0 n (Held_long now) k \<longleftrightarrow> ck_keyboard_read_key k0 = (0, k) \<and> ck_keyboard_held_key k \<noteq> 0 \<and> now = t0 + of_nat n \<and>
     now - ck_keyboard_held_key_time k \<ge> CK_KEY_REPEAT_INITIAL_DELAY"
| "on_course k0 t0 n (Due now) k \<longleftrightarrow> ck_keyboard_read_key k0 = (0, k) \<and> ck_keyboard_held_key k \<noteq> 0 \<and> now = t0 + of_nat n \<and>
     keyboard_repeat now k = (ck_keyboard_held_key k, k\<lparr>ck_keyboard_last_repeat_time := now\<rparr>)"
| "on_course k0 t0 n Stamped k \<longleftrightarrow> ck_keyboard_held_key k \<noteq> 0 \<and>
     ck_keyboard_read_char (t0 + of_nat n) k0 = (ck_scancode_to_ascii (ck_keyboard_held_key k) (ck_keyboard_shift_pressed k), k)"
| "on_course k0 t0 n (Translate x) k \<longleftrightarrow> ck_keyboard_read_char (t0 + of_nat n) k0 =
     (if x = 0 then 0 else ck_scancode_to_ascii x (ck_keyboard_shift_pressed k), k)"
| "on_course k0 t0 n (Returned ch) k \<longleftrightarrow> ck_keyboard_read_char (t0 + of_nat n) k0 = (ch, k)"

text \<open>Until the clock is read its value does not matter.\<close>

definition clock_read :: "read_pc \<Rightarrow> bool" where
  "clock_read pc \<longleftrightarrow> pc \<notin> {Start, Nonempty_buffer, Ask_time} \<and> (\<forall>x. pc \<noteq> Loaded_code x \<and> pc \<noteq> Have_code x)"

lemma on_course_any: "\<not> clock_read pc \<Longrightarrow> on_course k0 t0 n pc k = on_course k0 t0 n' pc k"
  by (cases pc) (simp_all add: clock_read_def)

lemma reader_on_course:
  assumes "on_course k0 t0 n (rs_pc c) (rs_kbd c)" and "\<not> clock_read (rs_pc c) \<Longrightarrow> rs_ticks c = t0 + of_nat n"
  shows "on_course k0 t0 n (rs_pc (read_step c)) (rs_kbd (read_step c))"
  using assms
  by (cases "rs_pc c")
    (auto simp: read_step_def Let_def ck_keyboard_read_key_def ck_keyboard_read_char_def keyboard_repeat_def clock_read_def
      split: if_splits)

lemma ticks_on_course:
  assumes "\<forall>e \<in> set es. e = Reader \<or> e = Tick" and "on_course k0 t0 n (rs_pc c) (rs_kbd c)"
    and "rs_ticks c = t0 + of_nat l" and "n \<le> l"
  shows "\<exists>n' \<le> l + count_list es Tick. on_course k0 t0 n' (rs_pc (read_run es c)) (rs_kbd (read_run es c))"
  using assms
proof (induction es arbitrary: c n l)
  case (Cons e es)
  show ?case
  proof (cases "e = Tick")
    case True
    have "\<exists>n' \<le> Suc l + count_list es Tick. on_course k0 t0 n' (rs_pc (read_run es (read_by e c))) (rs_kbd (read_run es (read_by e c)))"
      by (rule Cons.IH [of n]) (use True Cons.prems in \<open>simp_all add: algebra_simps\<close>)
    with True show ?thesis by simp
  next
    case False
    then have e: "e = Reader" using Cons.prems(1) by simp
    define n1 where "n1 = (if clock_read (rs_pc c) then n else l)"
    have "on_course k0 t0 n1 (rs_pc c) (rs_kbd c)"
      using Cons.prems(2) on_course_any [of "rs_pc c" k0 t0 n "rs_kbd c" l] by (simp add: n1_def)
    then have "on_course k0 t0 n1 (rs_pc (read_step c)) (rs_kbd (read_step c))"
      by (rule reader_on_course) (simp add: n1_def Cons.prems(3))
    moreover have "rs_ticks (read_step c) = rs_ticks c" by (simp add: read_step_def Let_def split: read_pc.splits)
    ultimately have "\<exists>n' \<le> l + count_list es Tick. on_course k0 t0 n' (rs_pc (read_run es (read_step c))) (rs_kbd (read_run es (read_step c)))"
      by (intro Cons.IH [of n1]) (use Cons.prems in \<open>simp_all add: n1_def\<close>)
    with e show ?thesis by simp
  qed
qed auto

text \<open>A call returns after at most ten steps of its own, whatever interrupts arrive.\<close>

fun steps_left :: "read_pc \<Rightarrow> nat" where
  "steps_left Start = 10" | "steps_left Nonempty_buffer = 9" | "steps_left (Loaded_code x) = 8" | "steps_left (Have_code x) = 7"
| "steps_left Ask_time = 6" | "steps_left (Got_now x) = 5" | "steps_left (Held_long x) = 4" | "steps_left (Due x) = 3"
| "steps_left Stamped = 2" | "steps_left (Translate x) = 1" | "steps_left (Returned x) = 0"

lemma steps_left_0: "steps_left pc = 0 \<longleftrightarrow> (\<exists>ch. pc = Returned ch)"
  by (cases pc) simp_all

lemma steps_left_step: "steps_left (rs_pc (read_step c)) \<le> steps_left (rs_pc c) - 1"
  by (cases "rs_pc c") (simp_all add: read_step_def Let_def)

lemma steps_left_run: "steps_left (rs_pc (read_run es c)) \<le> steps_left (rs_pc c) - count_list es Reader"
proof (induction es arbitrary: c)
  case (Cons e es)
  have "steps_left (rs_pc (read_by e c)) \<le> steps_left (rs_pc c) - (if e = Reader then 1 else 0)"
    using steps_left_step [of c] by (cases e) simp_all
  with Cons.IH [of "read_by e c"] show ?case by (cases "e = Reader") simp_all
qed simp

lemma read_returns:
  assumes "10 \<le> count_list es Reader"
  obtains ch where "rs_pc (read_run es (read_call c)) = Returned ch"
  using steps_left_run [of es "read_call c"] assms steps_left_0 by (auto simp: read_call_def)

section \<open>Properties\<close>

text \<open>
  C13: timer interrupts are harmless. A call of \<^verbatim>\<open>ck_keyboard_read_char\<close> returns after at most ten steps of its
  own, whatever interrupts arrive between them; and if they are all timer interrupts, it returns what
  the atomic function returns at one of the ticks during the call, and leaves the keyboard as that
  function does.
\<close>

theorem read_char_linear:
  assumes "10 \<le> count_list es Reader"
  shows "(\<exists>ch. rs_pc (read_run es (read_call c)) = Returned ch) \<and>
    ((\<forall>e \<in> set es. e = Reader \<or> e = Tick) \<longrightarrow>
      (\<exists>n \<le> count_list es Tick. \<exists>ch. rs_pc (read_run es (read_call c)) = Returned ch \<and>
        ck_keyboard_read_char (rs_ticks c + of_nat n) (rs_kbd c) = (ch, rs_kbd (read_run es (read_call c)))))"
proof -
  obtain ch where ch: "rs_pc (read_run es (read_call c)) = Returned ch" by (rule read_returns [OF assms])
  moreover have "\<exists>n \<le> count_list es Tick. ck_keyboard_read_char (rs_ticks c + of_nat n) (rs_kbd c) = (ch, rs_kbd (read_run es (read_call c)))"
    if "\<forall>e \<in> set es. e = Reader \<or> e = Tick"
    using ticks_on_course [OF that, of "rs_kbd c" "rs_ticks c" 0 "read_call c" 0] ch by (simp add: read_call_def)
  ultimately show ?thesis by blast
qed

text \<open>A press of a key into an empty buffer.\<close>

lemma press_into_empty:
  assumes "kb_inv k" and "kb_queue k = []" and "keyboard_item (code, t) = Some code"
  shows "ck_keyboard_head k = ck_keyboard_tail k" and "ring_next (ck_keyboard_tail k) \<noteq> ck_keyboard_tail k"
    and "keyboard_irq code now k = k\<lparr>ck_keyboard_buffer := (ck_keyboard_buffer k)(unat (ck_keyboard_tail k) := code),
      ck_keyboard_head := ring_next (ck_keyboard_tail k), ck_keyboard_held_key := code,
      ck_keyboard_held_key_time := now, ck_keyboard_last_repeat_time := now\<rparr>"
proof -
  show h: "ck_keyboard_head k = ck_keyboard_tail k"
    using assms(1,2) ring_empty_iff [of k] length_kb_queue [of k] by simp
  show n: "ring_next (ck_keyboard_tail k) \<noteq> ck_keyboard_tail k" using ring_next_neq [OF assms(1)] h by simp
  have "code < 0x80" "code \<noteq> 0x2A" "code \<noteq> 0x36" using assms(3) by (auto simp: keyboard_item_def split: if_splits)
  then have "\<not> 0x80 \<le> code" "code \<noteq> 0xAA" "code \<noteq> 0xB6" "code \<noteq> 0x2A" "code \<noteq> 0x36" by auto
  then show "keyboard_irq code now k = k\<lparr>ck_keyboard_buffer := (ck_keyboard_buffer k)(unat (ck_keyboard_tail k) := code),
      ck_keyboard_head := ring_next (ck_keyboard_tail k), ck_keyboard_held_key := code,
      ck_keyboard_held_key_time := now, ck_keyboard_last_repeat_time := now\<rparr>"
    using n by (simp add: keyboard_irq_def keyboard_enqueue_def Let_def h)
qed

text \<open>
  C12: a key press can be seen twice. While some key is held and the buffer is empty, let the reader read
  the clock, and then let a tick and a press of another key come in: the time of the press is later than
  the clock the reader has read, so the difference wraps around, the new key counts as held for more
  than 500 ms, and the call returns its character as a repeat; the next call returns it again from the
  buffer. With the press before or after the calls there is one character, and then none.
\<close>

theorem read_char_race:
  fixes k :: keyboard
  assumes "kb_inv k" and "kb_queue k = []" and "ck_keyboard_held_key k \<noteq> 0"
    and "keyboard_item (code, t) = Some code" and "code \<noteq> 0" and "0 < n" and "n \<le> 2 ^ 32 - 500"
  defines "c1 \<equiv> read_run (replicate 3 Reader @ replicate n Tick @ [Key code] @ replicate 5 Reader)
      \<lparr>rs_ticks = t, rs_kbd = k, rs_pc = Start\<rparr>"
    and "c2 \<equiv> \<lambda>c. read_run (replicate 5 Reader) (read_call c)"
    and "ch \<equiv> ck_scancode_to_ascii code (ck_keyboard_shift_pressed k)"
    and "k1 \<equiv> keyboard_irq code (t + of_nat n) k"
  shows "rs_pc c1 = Returned ch \<and> rs_pc (c2 c1) = Returned ch \<and> kb_queue (rs_kbd (c2 c1)) = [] \<and>
    fst (ck_keyboard_read_char (t + of_nat n) k1) = ch \<and>
    fst (ck_keyboard_read_char (t + of_nat n) (snd (ck_keyboard_read_char (t + of_nat n) k1))) = 0"
proof -
  let ?T = "t + of_nat n"
  let ?tail = "ck_keyboard_tail k"
  note p = press_into_empty [OF assms(1,2,4)]
  have "unat (of_nat n :: u32) = n" using assms(7) by (intro unat_of_nat_u32) simp
  then have "unat (t - ?T) = 2 ^ 32 - n" using assms(6) unat_diff_u32 [of 0 "of_nat n"] by simp
  then have late: "500 \<le> t - ?T" "50 \<le> t - ?T" using assms(7) by (simp_all add: u32_le_unat)
  note step = read_step_def Let_def
  have c1: "c1 = \<lparr>rs_ticks = ?T, rs_kbd = k1\<lparr>ck_keyboard_last_repeat_time := t\<rparr>, rs_pc = Returned ch\<rparr>"
    using late assms(3,5) p(1)
    by (simp add: c1_def k1_def p(3) step read_run_ticks numeral_eq_Suc ch_def)
  have c2: "c2 c1 = \<lparr>rs_ticks = ?T, rs_kbd = k1\<lparr>ck_keyboard_last_repeat_time := t, ck_keyboard_tail := ring_next ?tail\<rparr>,
      rs_pc = Returned ch\<rparr>"
    using assms(5) p(2) by (simp add: c2_def c1 read_call_def k1_def p(3) step numeral_eq_Suc ch_def)
  have r1: "ck_keyboard_read_char ?T k1 = (ch, k1\<lparr>ck_keyboard_tail := ring_next ?tail\<rparr>)"
    using assms(5) p(2) by (simp add: ck_keyboard_read_char_def ck_keyboard_read_key_def k1_def p(3) ch_def)
  have "fst (ck_keyboard_read_char ?T (k1\<lparr>ck_keyboard_tail := ring_next ?tail\<rparr>)) = 0"
    by (simp add: ck_keyboard_read_char_def ck_keyboard_read_key_def keyboard_repeat_def k1_def p(3))
  moreover have "kb_queue (rs_kbd (c2 c1)) = []" by (simp add: c2 k1_def p(3) kb_queue_def kb_count_def)
  moreover have "rs_pc c1 = Returned ch" "rs_pc (c2 c1) = Returned ch" by (simp add: c1, simp add: c2)
  ultimately show ?thesis by (simp add: r1)
qed

theorem read_char_linear_witness:
  "\<exists>n \<le> 1. \<exists>ch. rs_pc (read_run (Reader # Tick # replicate 9 Reader) (read_call
      \<lparr>rs_ticks = 7, rs_kbd = keyboard_irq 0x1E 5 keyboard_static, rs_pc = Returned 0\<rparr>)) = Returned ch \<and>
    fst (ck_keyboard_read_char (7 + of_nat n) (keyboard_irq 0x1E 5 keyboard_static)) = ch"
  using read_char_linear [of "Reader # Tick # replicate 9 Reader"
    "\<lparr>rs_ticks = 7, rs_kbd = keyboard_irq 0x1E 5 keyboard_static, rs_pc = Returned 0\<rparr>"]
  by (auto simp: numeral_eq_Suc)

theorem read_char_race_witness:
  "rs_pc (read_run (replicate 3 Reader @ replicate 1 Tick @ [Key 0x30] @ replicate 5 Reader)
    \<lparr>rs_ticks = 100, rs_kbd = keyboard_static\<lparr>ck_keyboard_held_key := 0x1E\<rparr>, rs_pc = Start\<rparr>) = Returned 0x62"
  using read_char_race [of "keyboard_static\<lparr>ck_keyboard_held_key := 0x1E\<rparr>" "0x30" 100 1] keyboard_static_queue
  by (simp add: keyboard_item_def keyboard_static_def kb_inv_def kb_queue_def kb_count_def ck_scancode_to_ascii_def
      ck_scancode_table_def del: upt_rec_numeral)

end
