(* ===== verification/Spec2Isabelle.thy ===== *)
theory Spec2Isabelle
  imports Boot Stubs Key_Race
begin

text \<open>
  CheesecakeOS is a kernel for 32-bit x86 in C with a few assembly stubs. This development models the
  whole of it: memory management, interrupts, drivers, the cooperative scheduler with its demo tasks,
  the shell, the task monitor, the boot sequence, and the stubs.

  \<^bold>\<open>The program.\<close> GRUB enters \<^verbatim>\<open>ck_start\<close>, which calls \<^verbatim>\<open>ck_main\<close>. It fills the interrupt descriptor table,
  programs the controllers, installs the timer and keyboard handlers, enables interrupts, initialises
  page allocator, paging and heap, creates three tasks, whose stacks and register blocks come from the heap,
  and runs the shell for ever. The shell's loop runs every task once, draws the time, takes one
  character from the keyboard and edits or executes the command line; the command \<^verbatim>\<open>taskmon\<close> runs a
  loop of its own until the key q. Interrupts change the tick counter and the keyboard's ring buffer;
  these are the only states shared between interrupts and the loops.

  \<^bold>\<open>Theories and sources\<close> (below \<^verbatim>\<open>src/src\<close>).
  \<^item> \<open>Prelude\<close>: C integer types, counting loops (\<open>for_loop\<close>), port writes, lemmas on words and arrays.
  \<^item> \<open>Pmem\<close>: \<^verbatim>\<open>memory/pmem.c\<close>. The bitmap refines a set of used pages; the locale \<open>page_allocator\<close> is what the
    clients rely on. Allocation takes the least free page; release undoes it; addresses at or above
    256 MB corrupt the counter, and with page 0 free a success looks like a failure.
  \<^item> \<open>Paging\<close>: \<^verbatim>\<open>memory/paging.c\<close>. Directory, tables, control registers; locale \<open>address_space\<close>. Mapping and
    unmapping change one translation; the initial mapping is the identity on 1 GB; nothing above can be
    mapped.
  \<^item> \<open>Page_Memory\<close>: the page tables as bytes of the memory that the heap writes to.
  \<^item> \<open>Memory\<close>, \<open>Heap\<close>: \<^verbatim>\<open>memory/heap.c\<close> on byte memory, so that overlapping blocks interfere. First fit,
    stated on the header fields, the exact effect of a release, disjoint blocks under stated conditions
    (\<open>heap_wf\<close>; \<open>headers_wf\<close> is the weaker condition that the kernel's own requests meet), and what fails
    without them (split, wrap-around, a cycle).
  \<^item> \<open>Idt\<close>, \<open>Irq\<close>, \<open>Exceptions\<close>: \<^verbatim>\<open>interrupts/idt.c\<close>, \<^verbatim>\<open>pic.c\<close>, \<^verbatim>\<open>irq.c\<close>, \<^verbatim>\<open>exceptions.c\<close> and \<^verbatim>\<open>drivers/timer.c\<close>; locale
    \<open>handler_table\<close>. What \<^verbatim>\<open>pic.c\<close> writes to the ports is run on a state machine of the 8259 (\<open>pic8259\<close>).
  \<^item> \<open>Stubs\<close>: \<^verbatim>\<open>interrupts/irq.asm\<close>, \<^verbatim>\<open>exceptions.asm\<close>, \<^verbatim>\<open>isr.asm\<close> and \<^verbatim>\<open>boot.asm\<close> as instruction lists on a small
    processor: the stack the stubs build and that they return to the interrupted program.
  \<^item> \<open>Scancode\<close>, \<open>Keyboard\<close>, \<open>Drivers\<close>: \<^verbatim>\<open>drivers/scancode.c\<close>, \<^verbatim>\<open>keyboard.c\<close>. The ring buffer refines a bounded
    queue (locale \<open>bounded_queue\<close>, specification \<open>queue_run\<close>), also with interrupts between the single steps of the reader (the step
    relation \<open>kb_step\<close>); key repeat; the dispatcher applied to the installed handlers.
  \<^item> \<open>Key_Race\<close>: \<^verbatim>\<open>ck_keyboard_read_char\<close> step by step with interrupts in between: it returns, timer interrupts do
    not disturb it, and a key press at one point makes it deliver a character twice.
  \<^item> \<open>Scheduler\<close>, \<open>Kernel_Tasks\<close>: \<^verbatim>\<open>kernel/scheduler.c\<close>, \<^verbatim>\<open>kernel_tasks.c\<close>; locale \<open>task_functions\<close>. Creation and its
    failures, round robin, exact statistics (runs, switches and yields), the game stays on its board.
  \<^item> \<open>Screen\<close>, \<open>Numbers\<close>, \<open>Terminal\<close>, \<open>Shell_Text\<close>, \<open>Shell\<close>: \<^verbatim>\<open>kernel/shell.c\<close>. Decimal output, scrolling text,
    the history (locale \<open>recent_log\<close>), every command, and the main loop as a step relation: no write
    leaves the screen, the screen shows the command line, and what every iteration does, which of them
    fail to return included.
  \<^item> \<open>Visualizer\<close>: \<^verbatim>\<open>kernel/visualizer.c\<close>, the drawing routines and the monitor loop.
  \<^item> \<open>Boot\<close>: \<^verbatim>\<open>kernel/ck_kernel.c\<close>. The boot reaches the shell with the invariants of all components; the
    task stacks overlap, and the heap overwrites entries of the page tables.
  \<^item> This theory: two properties across components, an interrupt from the gate to the driver and back,
    and a command from the keys to the next prompt.

  \<^bold>\<open>Correspondence.\<close> A record holds the static variables of a file; a definition has the name of the C
  function, and loops or branches that are definitions of their own are named after what they do.
  Machine integers are words. A C function that writes to ports returns the list of writes or extends a
  trace. What hardware and linker decide is an argument: bytes read from ports, values of the tick counter at
  each call, the interrupts that arrive, the addresses of stubs and arrays, the contents of memory.
  Assembly calls C through a parameter bounded by the calling convention (\<open>cdecl_ok\<close>).

  \<^bold>\<open>Loops.\<close> Counting loops are recursion on the count. The free list of the heap is searched by a partial
  function whose value \<open>None\<close> is a search that never ends; that it ends on terminated lists and does not on
  a cyclic one are both theorems. The endless loops of shell and monitor run on lists of inputs, one per
  iteration or read, so any number of iterations is covered; \<open>None\<close> in the shell is a
  monitor that the inputs given do not leave. There is no fuel.

  \<^bold>\<open>Not modelled.\<close> The delay loops of the monitor, which change no state; \<^verbatim>\<open>ck_visualizer_init\<close>, whose body is
  empty; the multiboot information, which the kernel ignores; a
  non-maskable interrupt that wakes a halted processor (the code halts again); static variables other than
  the page tables are not in the memory of the heap (\<open>kernel_layout\<close> states where the linker puts the tables,
  and then the heap touches nothing else); an interrupt that arrives while a command runs counts as one
  before the next iteration, and the shell and the monitor read the keyboard in one step (\<open>Key_Race\<close> shows
  what interrupts within the call add). \<^verbatim>\<open>linker.ld\<close>, the build files and \<^verbatim>\<open>grub.cfg\<close> are not code. Every C function with an
  effect on the state has a definition; the lines of the sources left are prototypes, externs and comments.
\<close>

section \<open>From the hardware to the driver and back\<close>

text \<open>The C dispatcher as the stubs call it: on the drivers and the trace of port writes.\<close>

definition irq_call :: "u8 \<Rightarrow> u32 \<Rightarrow> drivers \<times> port_io list \<Rightarrow> drivers \<times> port_io list" where
  "irq_call port60 irq = (\<lambda>(d, ios). let (d', eoi) = hardware_irq (ucast irq) port60 d in (d', ios @ eoi))"

lemma irq_call_line:
  assumes "drivers_booted d" and "line < 16"
  shows "irq_call port60 (of_nat line) (d, ios) =
    (if line = 0 then d\<lparr>tmr := timer_irq (tmr d)\<rparr>
     else if line = 1 then d\<lparr>kbd := keyboard_irq port60 (ck_timer_ticks (tmr d)) (kbd d)\<rparr>
     else d,
     ios @ (if line < 8 then [Outb CK_PIC_MASTER_CMD 0x20]
       else [Outb CK_PIC_SLAVE_CMD 0x20, Outb CK_PIC_MASTER_CMD 0x20]))"
proof -
  have n: "unat (of_nat line :: u8) = line" using assms(2) by (intro unat_of_nat_u8) simp
  have "(of_nat line :: u8) = 0 \<longleftrightarrow> line = 0" "(of_nat line :: u8) = 1 \<longleftrightarrow> line = 1" "(of_nat line :: u8) < 8 \<longleftrightarrow> line < 8"
    using n by (auto simp: word_unat_eq_iff word_less_nat_alt)
  moreover have "ucast (of_nat line :: u32) = (of_nat line :: u8)"
    using assms(2) by (simp add: word_unat_eq_iff unsigned_ucast_eq unsigned_of_nat take_bit_nat_eq_self)
  ultimately show ?thesis by (simp add: irq_call_def irq_dispatch [OF assms(1)])
qed

text \<open>
  C2: an interrupt from end to end. After the boot sequence, with the code of the stubs where their
  addresses in the descriptor table point: a hardware interrupt on a line below 16 arrives at the vector
  the controllers were programmed with, the gate of that vector leads to the stub of that line, and the
  stub calls the dispatcher with the number of the line, which runs exactly the driver of the line and
  acknowledges the interrupt at the controllers it came through, the slave first; and the interrupted
  program goes on with all its registers, flags and its stack as they were, for every compiled dispatcher
  that keeps to the calling convention.
\<close>

theorem interrupt_round_trip:
  fixes addr :: "stub \<Rightarrow> u32" and code_at :: "u32 \<Rightarrow> instr list" and c :: cpu
  assumes "ck_main P m0 = Some (m, sh)"
    and "\<forall>i < 16. bp_irq_stubs P i = addr (ck_irq_handlers_asm ! i)"
    and "\<forall>st \<in> set ck_irq_handlers_asm. code_at (addr st) = stub_code st"
    and "line < 16" and "cdecl_ok 2 (n + 14) clobber" and "n + 14 < 2 ^ 30" and "\<not> c_halted c"
  shows "\<exists>target c'. kernel_gate (ck_idt (m_idt m) (irq_vector line)) target \<and>
    exec (c_call clobber (irq_call port60)) (code_at target) (take_interrupt None target c, m_drivers m, ios) =
      (c', let d = m_drivers m in
        if line = 0 then d\<lparr>tmr := timer_irq (tmr d)\<rparr>
        else if line = 1 then d\<lparr>kbd := keyboard_irq port60 (ck_timer_ticks (tmr d)) (kbd d)\<rparr>
        else d,
       ios @ (if line < 8 then [Outb CK_PIC_MASTER_CMD 0x20]
         else [Outb CK_PIC_SLAVE_CMD 0x20, Outb CK_PIC_MASTER_CMD 0x20])) \<and>
    gpr c' = gpr c \<and> c_eip c' = c_eip c \<and> c_cs c' = c_cs c \<and> c_eflags c' = c_eflags c \<and> stack n c' = stack n c"
proof -
  let ?t = "bp_irq_stubs P line"
  note m = ck_main_interrupts [OF assms(1)]
  have gate: "kernel_gate (ck_idt (m_idt m) (irq_vector line)) ?t"
    using boot_gate [of "32 + line" "bp_irq_stubs P"] assms(4) by (simp add: m(1) boot_interrupts_fields irq_vector_eq)
  have "ck_irq_handlers_asm ! line = ck_isr_irq line"
    using assms(4) by (auto simp: ck_irq_handlers_asm_def less_Suc_eq numeral_eq_Suc)
  moreover have "line < length ck_irq_handlers_asm" using assms(4) by (simp add: ck_irq_handlers_asm_def)
  ultimately have code: "code_at ?t = stub_code (ck_isr_irq line)" using assms(2-4) nth_mem by metis
  obtain c' where "exec (c_call clobber (irq_call port60)) (stub_code (ck_isr_irq line))
      (take_interrupt None ?t c, m_drivers m, ios) = (c', irq_call port60 (of_nat line) (m_drivers m, ios))"
    "gpr c' = gpr c" "c_eip c' = c_eip c" "c_cs c' = c_cs c" "c_eflags c' = c_eflags c" "stack n c' = stack n c"
    by (rule irq_stub_returns [OF assms(5-7)])
  with gate code show ?thesis
    by (intro exI [of _ ?t] exI [of _ c']) (simp add: irq_call_line [OF m(2) assms(4)] Let_def)
qed

text \<open>A layout in which the interrupt stubs lie 64 bytes apart, for the witness.\<close>

definition linked_params :: boot_params where
  "linked_params = sample_params\<lparr>bp_irq_stubs := (\<lambda>i. 0x102000 + of_nat (64 * i))\<rparr>"

definition linked_addr :: "stub \<Rightarrow> u32" where
  "linked_addr st = (case st of ck_isr_irq n \<Rightarrow> 0x102000 + of_nat (64 * n) | _ \<Rightarrow> 0x100000)"

definition linked_code :: "u32 \<Rightarrow> instr list" where
  "linked_code a = stub_code (ck_isr_irq ((unat a - 0x102000) div 64))"

theorem interrupt_round_trip_witness:
  "\<exists>m sh target c'. ck_main linked_params sample_machine = Some (m, sh) \<and>
    exec (c_call sample_clobber (irq_call 0)) (linked_code target) (take_interrupt None target sample_cpu, m_drivers m, []) =
      (c', (m_drivers m)\<lparr>tmr := timer_irq (tmr (m_drivers m))\<rparr>, [Outb CK_PIC_MASTER_CMD 0x20]) \<and>
    gpr c' = gpr sample_cpu \<and> stack 4 c' = stack 4 sample_cpu"
proof -
  obtain m sh where m: "ck_main linked_params sample_machine = Some (m, sh)"
    by (rule ck_main_result [of linked_params sample_machine])
  have a: "\<forall>i < 16. bp_irq_stubs linked_params i = linked_addr (ck_irq_handlers_asm ! i)"
    by (simp add: linked_params_def linked_addr_def ck_irq_handlers_asm_def All_less_Suc2 numeral_eq_Suc)
  have c: "\<forall>st \<in> set ck_irq_handlers_asm. linked_code (linked_addr st) = stub_code st"
    by (simp add: linked_code_def linked_addr_def ck_irq_handlers_asm_def)
  have "cdecl_ok 2 (4 + 14) sample_clobber" by (rule sample_clobber_ok) simp
  then show ?thesis
    using interrupt_round_trip [OF m a c, of 0 4 sample_clobber sample_cpu 0 "[]"] m
    by (auto simp: Let_def sample_cpu_def)
qed

section \<open>From a key to the command line\<close>

text \<open>An input in which one key goes down, and the character it types under the shift state.\<close>

definition one_press :: "shell_input \<Rightarrow> bool" where
  "one_press inp \<longleftrightarrow> (\<exists>code tick. in_irqs inp = [(code, tick)] \<and> keyboard_item (code, tick) = Some code \<and> code \<noteq> 0)"

definition key_char :: "u8 \<Rightarrow> shell_input \<Rightarrow> u8" where
  "key_char shift inp = ck_scancode_to_ascii (fst (hd (in_irqs inp))) shift"

definition types_char :: "u8 \<Rightarrow> shell_input \<Rightarrow> bool" where
  "types_char shift inp \<longleftrightarrow> one_press inp \<and> key_char shift inp \<noteq> 0 \<and> key_char shift inp \<noteq> 10"

lemma press_and_read_later:
  assumes "kb_inv k" and "kb_queue k = []" and "keyboard_item (code, t) = Some code" and "code \<noteq> 0"
  shows "fst (ck_keyboard_read_char now (keyboard_irq code t k)) = ck_scancode_to_ascii code (ck_keyboard_shift_pressed k)"
    and "kb_inv (snd (ck_keyboard_read_char now (keyboard_irq code t k)))"
    and "kb_queue (snd (ck_keyboard_read_char now (keyboard_irq code t k))) = []"
    and "ck_keyboard_shift_pressed (snd (ck_keyboard_read_char now (keyboard_irq code t k))) = ck_keyboard_shift_pressed k"
proof -
  let ?k = "keyboard_irq code t k"
  have q: "kb_inv ?k" "kb_queue ?k = [code]"
    using keyboard_irq_queue [OF assms(1), of code t] assms(2,3) by simp_all
  have m: "code < 0x80" "code \<noteq> 0x2A" "code \<noteq> 0x36"
    using assms(3) by (auto simp: keyboard_item_def split: if_splits)
  then have "\<not> 0x80 \<le> code" "code \<noteq> 0xAA" "code \<noteq> 0xB6" by auto
  with m have sh: "ck_keyboard_shift_pressed ?k = ck_keyboard_shift_pressed k"
    by (simp add: keyboard_irq_def keyboard_enqueue_def Let_def)
  obtain k' where rk: "ck_keyboard_read_key ?k = (code, k')" "kb_inv k'" "kb_queue k' = []"
    using read_key_queue [OF q(1)] q(2) by (metis list.discI list.sel(1,3) prod.collapse)
  have "ck_keyboard_shift_pressed k' = ck_keyboard_shift_pressed k"
    using read_key_fields(4) [of ?k] rk(1) sh by simp
  then have "ck_keyboard_read_char now ?k = (ck_scancode_to_ascii code (ck_keyboard_shift_pressed k), k')"
    using rk(1) assms(4) by (simp add: ck_keyboard_read_char_def)
  then show "fst (ck_keyboard_read_char now ?k) = ck_scancode_to_ascii code (ck_keyboard_shift_pressed k)"
    "kb_inv (snd (ck_keyboard_read_char now ?k))" "kb_queue (snd (ck_keyboard_read_char now ?k)) = []"
    "ck_keyboard_shift_pressed (snd (ck_keyboard_read_char now ?k)) = ck_keyboard_shift_pressed k"
    using rk(2,3) \<open>ck_keyboard_shift_pressed k' = _\<close> by simp_all
qed

text \<open>A shell that waits with an empty keyboard buffer; the shift state is \<open>shift\<close>.\<close>

definition idle :: "u8 \<Rightarrow> shell \<Rightarrow> bool" where
  "idle shift s \<longleftrightarrow> shell_inv s \<and> \<not> halted s \<and> kb_queue (sh_kbd s) = [] \<and> ck_keyboard_shift_pressed (sh_kbd s) = shift"

lemma press_prefix:
  assumes "idle shift s" and "one_press inp"
  obtains s2 where "shell_base s2" "shell_line s2" "\<not> halted s2" "command_line s2 = command_line s"
    "sh_history s2 = sh_history s" "sh_heap s2 = sh_heap s" "kb_queue (sh_kbd s2) = []" "ck_keyboard_shift_pressed (sh_kbd s2) = shift"
    "shell_iteration inp s = (if key_char shift inp = 0 then Some s2 else shell_key inp (key_char shift inp) s2)"
proof -
  obtain code tick where k: "in_irqs inp = [(code, tick)]" "keyboard_item (code, tick) = Some code" "code \<noteq> 0"
    using assms(2) by (auto simp: one_press_def)
  have i: "shell_inv s" "\<not> halted s" "kb_inv (sh_kbd s)" "kb_queue (sh_kbd s) = []"
    "ck_keyboard_shift_pressed (sh_kbd s) = shift"
    using assms(1) by (simp_all add: idle_def shell_inv_def shell_base_def)
  note pr = press_and_read_later [OF i(3,4) k(2,3), of "in_read inp"]
  let ?r = "ck_keyboard_read_char (in_read inp) (fold (\<lambda>(scancode, tick). keyboard_irq scancode tick) (in_irqs inp) (sh_kbd s))"
  obtain c s2 where p: "shell_base s2" "shell_line s2" "\<not> halted s2" "input_buffer s2 = input_buffer s"
    "input_len s2 = input_len s" "sh_history s2 = sh_history s" "sh_heap s2 = sh_heap s" "c = fst ?r" "sh_kbd s2 = snd ?r"
    "shell_iteration inp s = (if c = 0 then Some s2 else shell_key inp c s2)"
    by (rule iteration_prefix [OF i(1,2), of inp]) blast
  have "c = key_char shift inp" using p(8) k(1) pr(1) i(5) by (simp add: key_char_def)
  moreover have "kb_queue (sh_kbd s2) = []" "ck_keyboard_shift_pressed (sh_kbd s2) = shift"
    using p(9) k(1) pr(3,4) i(5) by simp_all
  moreover have "command_line s2 = command_line s" using p(4,5) by (simp add: command_line_def)
  ultimately show ?thesis using that p(1-3,6,7,10) by blast
qed

lemma typing_step:
  assumes "idle shift s" and "types_char shift inp"
  obtains s' where "shell_iteration inp s = Some s'" "idle shift s'" "sh_history s' = sh_history s" "sh_heap s' = sh_heap s"
    "command_line s' = edit_line (key_char shift inp) (command_line s)"
proof -
  have one: "one_press inp" and c: "key_char shift inp \<noteq> 0" "key_char shift inp \<noteq> 10"
    using assms(2) by (simp_all add: types_char_def)
  obtain s2 where p: "shell_base s2" "shell_line s2" "\<not> halted s2" "command_line s2 = command_line s"
    "sh_history s2 = sh_history s" "sh_heap s2 = sh_heap s" "kb_queue (sh_kbd s2) = []" "ck_keyboard_shift_pressed (sh_kbd s2) = shift"
    "shell_iteration inp s = (if key_char shift inp = 0 then Some s2 else shell_key inp (key_char shift inp) s2)"
    by (rule press_prefix [OF assms(1) one])
  let ?s' = "key_effect (key_char shift inp) s2"
  show ?thesis
  proof (rule that [of ?s'])
    show "shell_iteration inp s = Some ?s'" using p(9) c by (simp add: shell_key_effect)
    show "idle shift ?s'" using key_effect_inv [OF p(1,2)] p(3,7,8) by (simp add: idle_def shell_inv_def)
  qed (simp_all add: key_effect_line p(4-6))
qed

text \<open>The iterations for a list of inputs.\<close>

definition iterations :: "shell_input list \<Rightarrow> shell \<Rightarrow> shell option" where
  "iterations inps s = fold (\<lambda>inp r. Option.bind r (shell_iteration inp)) inps (Some s)"

lemma iterations_simps [simp]: "iterations [] s = Some s"
  "shell_iteration inp s = Some s1 \<Longrightarrow> iterations (inp # inps) s = iterations inps s1"
  by (simp_all add: iterations_def)

lemma iterations_snoc: "iterations inps s = Some s1 \<Longrightarrow> iterations (inps @ [inp]) s = shell_iteration inp s1"
  by (simp add: iterations_def)

lemma typing_line:
  assumes "idle shift s" and "\<forall>inp \<in> set inps. types_char shift inp"
  shows "\<exists>s'. iterations inps s = Some s' \<and> idle shift s' \<and> sh_history s' = sh_history s \<and> sh_heap s' = sh_heap s \<and>
    command_line s' = fold edit_line (map (key_char shift) inps) (command_line s)"
  using assms
proof (induction inps arbitrary: s)
  case (Cons inp inps)
  have kp: "types_char shift inp" using Cons.prems(2) by simp
  obtain s1 where s1: "shell_iteration inp s = Some s1" "idle shift s1" "sh_history s1 = sh_history s" "sh_heap s1 = sh_heap s"
    "command_line s1 = edit_line (key_char shift inp) (command_line s)"
    by (rule typing_step [OF Cons.prems(1) kp])
  with Cons.IH [OF s1(2)] Cons.prems(2) show ?case by simp
qed simp

lemma enter_step:
  assumes "idle shift s" and "one_press inp" and "key_char shift inp = 10"
    and "ck_get_first_word (command_line s) 64 \<noteq> ''taskmon''"
  obtains s' s1 s2 where "shell_iteration inp s = Some s'" "shell_inv s'"
    "ck_shell_execute inp (command_line s) s1 = Some s2" "command_line s1 = command_line s"
    "sh_history s1 = sh_history s" "sh_heap s1 = sh_heap s"
    "sh_history s' = (if command_line s = [] then sh_history s else ck_history_add (command_line s) (sh_history s))"
    "tty s' = (if halted s' then tty s2 else print_outs [Str ''> '' COLOR_YELLOW] (tty s2))"
    "halted s' \<longleftrightarrow> ck_get_first_word (command_line s) 64 = ''reboot''"
    "\<not> halted s' \<longrightarrow> idle shift s' \<and> command_line s' = []"
proof -
  obtain s0 where p: "shell_base s0" "shell_line s0" "\<not> halted s0" "command_line s0 = command_line s"
    "sh_history s0 = sh_history s" "sh_heap s0 = sh_heap s" "kb_queue (sh_kbd s0) = []" "ck_keyboard_shift_pressed (sh_kbd s0) = shift"
    "shell_iteration inp s = (if key_char shift inp = 0 then Some s0 else shell_key inp (key_char shift inp) s0)"
    by (rule press_prefix [OF assms(1,2)])
  let ?s1 = "s0\<lparr>input_buffer := (input_buffer s0)(input_len s0 := CHR 0x00), tty := ck_vga_newline (tty s0)\<rparr>"
  have nf: "nul_free (command_line s)" using command_line_nul_free [OF p(2)] p(4) by simp
  obtain s2 where e: "ck_shell_execute inp (command_line s) ?s1 = Some s2"
    "sh_history s2 = (if command_line s = [] then sh_history ?s1 else ck_history_add (command_line s) (sh_history ?s1))"
    "sh_kbd s2 = sh_kbd ?s1" "halted s2 \<longleftrightarrow> halted ?s1 \<or> ck_get_first_word (command_line s) 64 = ''reboot''"
    by (rule execute_outcome [OF nf assms(4)])
  define s' where "s' = (if halted s2 then s2 else shell_print [Str ''> '' COLOR_YELLOW] (s2\<lparr>input_len := 0\<rparr>))"
  have en: "shell_enter inp s0 = Some s'"
    using e(1) command_line_string [OF p(2)] p(4) by (simp add: shell_enter_def Let_def s'_def)
  have inv: "shell_inv s'" by (rule shell_enter_inv(1) [OF p(1,2) en])
  show ?thesis
  proof (rule that)
    show "shell_iteration inp s = Some s'" using p(9) assms(3) en by (simp add: shell_key_def)
    show "\<not> halted s' \<longrightarrow> idle shift s' \<and> command_line s' = []"
      using inv e(3) p(7,8) by (auto simp: idle_def s'_def command_line_def split: if_splits)
    show "tty s' = (if halted s' then tty s2 else print_outs [Str ''> '' COLOR_YELLOW] (tty s2))"
      by (cases "halted s2") (simp_all add: s'_def)
    show "halted s' \<longleftrightarrow> ck_get_first_word (command_line s) 64 = ''reboot''"
      using e(4) p(3) by (simp add: s'_def)
    show "sh_history s' = (if command_line s = [] then sh_history s else ck_history_add (command_line s) (sh_history s))"
      using e(2) p(5) by (cases "halted s2") (simp_all add: s'_def)
    show "command_line ?s1 = command_line s" unfolding p(4) [symmetric] by (simp add: command_line_def)
  qed (use inv e(1) p(5,6) in simp_all)
qed

text \<open>
  C3: a command, from the keys to the prompt. From a shell that waits with an empty keyboard buffer, let
  one key go down in each iteration, any keys that type characters, backspace included, at any ticks, and
  then Enter. Unless the line runs the task monitor, every iteration completes, the command executed is
  what the abstract line editor makes of the characters of the keys under the shift state, a nonempty
  command is the newest of the ten lines of the history, cut to 63 characters, and the shell waits again
  behind a fresh prompt with an empty line; only \<^verbatim>\<open>reboot\<close> halts instead.
\<close>

theorem typed_command_runs:
  defines "cmd \<equiv> \<lambda>shift inps s. fold edit_line (map (key_char shift) inps) (command_line s)"
  assumes "idle shift s" and "\<forall>inp \<in> set inps. types_char shift inp"
    and "one_press enter" and "key_char shift enter = 10"
    and "take 63 (takeWhile (\<lambda>c. c \<noteq> CHR '' '') (cmd shift inps s)) \<noteq> ''taskmon''"
  shows "\<exists>s1 s2 s'. iterations (inps @ [enter]) s = Some s' \<and> shell_inv s' \<and>
    command_line s1 = cmd shift inps s \<and> sh_history s1 = sh_history s \<and> sh_heap s1 = sh_heap s \<and>
    ck_shell_execute enter (cmd shift inps s) s1 = Some s2 \<and>
    tty s' = (if halted s' then tty s2 else print_outs [Str ''> '' COLOR_YELLOW] (tty s2)) \<and>
    history_lines (sh_history s') = (if cmd shift inps s = [] then history_lines (sh_history s)
      else last_n 10 (history_lines (sh_history s) @ [take 63 (cmd shift inps s)])) \<and>
    (halted s' \<longleftrightarrow> take 63 (takeWhile (\<lambda>c. c \<noteq> CHR '' '') (cmd shift inps s)) = ''reboot'') \<and>
    (\<not> halted s' \<longrightarrow> idle shift s' \<and> command_line s' = [])"
proof -
  let ?cmd = "cmd shift inps s"
  obtain t where t: "iterations inps s = Some t" "idle shift t" "sh_history t = sh_history s" "sh_heap t = sh_heap s"
    "command_line t = ?cmd"
    using typing_line [OF assms(2,3)] by (auto simp: cmd_def)
  have w: "ck_get_first_word (command_line t) 64 \<noteq> ''taskmon''" using assms(6) by (simp add: first_word_eq t(5))
  obtain s' s1 s2 where e: "shell_iteration enter t = Some s'" "shell_inv s'"
    "ck_shell_execute enter (command_line t) s1 = Some s2" "command_line s1 = command_line t"
    "sh_history s1 = sh_history t" "sh_heap s1 = sh_heap t"
    "sh_history s' = (if command_line t = [] then sh_history t else ck_history_add (command_line t) (sh_history t))"
    "tty s' = (if halted s' then tty s2 else print_outs [Str ''> '' COLOR_YELLOW] (tty s2))"
    "halted s' \<longleftrightarrow> ck_get_first_word (command_line t) 64 = ''reboot''"
    "\<not> halted s' \<longrightarrow> idle shift s' \<and> command_line s' = []"
    by (rule enter_step [OF t(2) assms(4,5) w])
  have "shell_line t" "history_inv (sh_history t)" using t(2) by (simp_all add: idle_def shell_inv_def shell_base_def)
  then have "history_lines (sh_history s') = (if ?cmd = [] then history_lines (sh_history s)
      else last_n 10 (history_lines (sh_history s) @ [take 63 ?cmd]))"
    using history_add_lines [of "sh_history t" ?cmd] command_line_nul_free [of t] e(7) by (simp add: t(3,5))
  then show ?thesis
    using iterations_snoc [OF t(1), of enter] e [unfolded t(3-5) first_word_eq]
    by (intro exI [of _ s1] exI [of _ s2] exI [of _ s']) simp
qed

definition sample_press :: "u8 \<Rightarrow> shell_input" where
  "sample_press code = \<lparr>in_irqs = [(code, 40)], in_status = 40, in_read = 41, in_exec = 41, in_status2 = 42, in_monitor = []\<rparr>"

theorem typed_command_runs_witness:
  "\<exists>s'. iterations ([sample_press 0x19, sample_press 0x1F] @ [sample_press 0x1C]) (ck_shell_start 5 sample_shell) = Some s' \<and>
    history_lines (sh_history s') = [''ps''] \<and> command_line s' = []"
proof -
  let ?s = "ck_shell_start 5 sample_shell"
  let ?inps = "[sample_press 0x19, sample_press 0x1F]"
  have "shell_inv ?s" by (rule shell_start_inv) (fact sample_shell_ok)+
  moreover have "\<not> halted ?s" by (rule shell_start_not_halted) (simp add: sample_shell_def)
  moreover have "sh_kbd ?s = keyboard_static" and h: "sh_history ?s = history_static"
    by (simp_all add: ck_shell_start_def shell_home_def Let_def draw_status_text sample_shell_def)
  moreover have "ck_keyboard_shift_pressed keyboard_static = 0" by (simp add: keyboard_static_def)
  ultimately have i: "idle 0 ?s" by (simp add: idle_def keyboard_static_queue)
  note k = types_char_def one_press_def key_char_def sample_press_def keyboard_item_def ck_scancode_to_ascii_def ck_scancode_table_def
  have t: "\<forall>inp \<in> set ?inps. types_char 0 inp" by (simp add: k)
  have en: "one_press (sample_press 0x1C)" "key_char 0 (sample_press 0x1C) = 10" by (simp_all add: k)
  have "map (key_char 0) ?inps = [0x70, 0x73]" by (simp add: k)
  moreover have "fold edit_line [0x70, 0x73] [] = ''ps''" by code_simp
  ultimately have c: "fold edit_line (map (key_char 0) ?inps) (command_line ?s) = ''ps''"
    by (simp only: start_command_line)
  have "history_lines history_static = []" by (simp add: history_lines_def history_static_def)
  then show ?thesis
    using typed_command_runs [OF i t en, unfolded c] by (auto simp: h last_n_def)
qed

end
